(* ===== verification/C_Prelude.thy ===== *)
theory C_Prelude
  imports Main "HOL-Library.Sublist" "HOL-Library.Word"
begin

text \<open>
  Vocabulary shared by every component of the development: C strings and byte
  buffers as lists of characters (a \<^typ>\<open>char\<close> is one byte), the string routines of
  the C library that the sources call (\<open>strchr\<close>, \<open>strncpy\<close> into a fixed array,
  \<open>snprintf\<close> truncation, trimming, splitting a buffer at newlines or a path at
  slashes), and the generic lemmas the component proofs use.  The collection
  \<open>cstring_simps\<close> gathers the length and membership facts of these routines.
\<close>

named_theorems cstring_simps "length and membership facts of the C string routines"

type_synonym buf = "char list"

section \<open>Characters\<close>

abbreviation nul :: char where "nul \<equiv> CHR 0x00"
abbreviation tab :: char where "tab \<equiv> CHR 0x09"
abbreviation newline :: char where "newline \<equiv> CHR 0x0A"
abbreviation cr :: char where "cr \<equiv> CHR 0x0D"
abbreviation slash :: char where "slash \<equiv> CHR ''/''"
abbreviation dot :: char where "dot \<equiv> CHR ''.''"
abbreviation space :: char where "space \<equiv> CHR '' ''"

definition byte_of :: "char \<Rightarrow> nat" where
  "byte_of c = of_char c"

definition is_ctrl :: "char \<Rightarrow> bool" where
  "is_ctrl c \<longleftrightarrow> byte_of c < 0x20 \<or> byte_of c = 0x7f"

text \<open>\<open>isdigit\<close> and \<open>isspace\<close>\<close>

definition is_digit :: "char \<Rightarrow> bool" where
  "is_digit c \<longleftrightarrow> 48 \<le> byte_of c \<and> byte_of c \<le> 57"

definition is_space :: "char \<Rightarrow> bool" where
  "is_space c \<longleftrightarrow> c = space \<or> 9 \<le> byte_of c \<and> byte_of c \<le> 13"

lemma byte_of_less: "byte_of c < 256"
proof -
  have "of_char c mod 256 = (of_char c :: nat)" by simp
  then show ?thesis unfolding byte_of_def by (metis mod_less_divisor zero_less_numeral)
qed

lemma is_ctrl_controls [simp]: "is_ctrl newline" "is_ctrl cr" "is_ctrl tab" "is_ctrl nul"
  by (simp_all add: is_ctrl_def byte_of_def)

section \<open>Early returns\<close>

text \<open>Case analysis on a guarded result, one guard at a time, without rewriting the guards.\<close>

lemma if_SomeE:
  assumes "(if c then x else y) = Some z"
  obtains "c" "x = Some z" | "\<not> c" "y = Some z"
  using assms by (cases c) auto

section \<open>C strings in buffers\<close>

text \<open>The C string that starts at the beginning of a buffer.\<close>

definition cstr :: "buf \<Rightarrow> string" where
  "cstr b = takeWhile (\<lambda>c. c \<noteq> nul) b"

lemma cstr_no_nul [simp]: "nul \<notin> set (cstr b)"
  by (auto simp: cstr_def dest: set_takeWhileD)

lemma cstr_id: "nul \<notin> set s \<Longrightarrow> cstr s = s"
  by (simp add: cstr_def takeWhile_eq_all_conv) metis

lemma cstr_append_nul: "nul \<notin> set s \<Longrightarrow> cstr (s @ nul # r) = s"
  unfolding cstr_def by (subst takeWhile_append2) auto

lemma length_cstr [cstring_simps]: "length (cstr b) \<le> length b"
  by (simp add: cstr_def length_takeWhile_le)

lemma set_cstr [cstring_simps]: "set (cstr b) \<subseteq> set b"
  by (auto simp: cstr_def dest: set_takeWhileD)

text \<open>
  \<open>strncpy (dst, src, sizeof dst - 1)\<close> into a zero-terminated array of \<open>n\<close> bytes,
  and \<open>snprintf (dst, n, "%s", src)\<close>: the C string that can be read back.
\<close>

definition fit :: "nat \<Rightarrow> string \<Rightarrow> string" where
  "fit n s = take (n - 1) s"

lemma length_fit [cstring_simps]: "0 < n \<Longrightarrow> length (fit n s) < n"
  by (auto simp: fit_def)

lemma set_fit [cstring_simps]: "set (fit n s) \<subseteq> set s"
  by (auto simp: fit_def dest: in_set_takeD)

lemma fit_id: "length s < n \<Longrightarrow> fit n s = s"
  by (simp add: fit_def)

lemma fit_Nil [simp]: "fit n [] = []"
  by (simp add: fit_def)

lemma fit_eq_Nil: "1 < n \<Longrightarrow> fit n s = [] \<longleftrightarrow> s = []"
  by (auto simp: fit_def)

section \<open>Trimming\<close>

definition rtrim_of :: "(char \<Rightarrow> bool) \<Rightarrow> string \<Rightarrow> string" where
  "rtrim_of P s = rev (dropWhile P (rev s))"

lemma set_rtrim_of [cstring_simps]: "set (rtrim_of P s) \<subseteq> set s"
  by (auto simp: rtrim_of_def dest: set_dropWhileD)

lemma length_rtrim_of [cstring_simps]: "length (rtrim_of P s) \<le> length s"
  by (metis length_dropWhile_le length_rev rtrim_of_def)

lemma rtrim_of_snoc: "rtrim_of P (s @ [c]) = (if P c then rtrim_of P s else s @ [c])"
  by (simp add: rtrim_of_def)

lemma rtrim_of_Nil [simp]: "rtrim_of P [] = []"
  by (simp add: rtrim_of_def)

lemma rtrim_of_id: "(s \<noteq> [] \<Longrightarrow> \<not> P (last s)) \<Longrightarrow> rtrim_of P s = s"
  by (cases s rule: rev_cases) (auto simp: rtrim_of_snoc)

lemma rtrim_of_last: "rtrim_of P s \<noteq> [] \<Longrightarrow> \<not> P (last (rtrim_of P s))"
  by (induction s rule: rev_induct) (auto simp: rtrim_of_snoc split: if_splits)

section \<open>\<open>strchr\<close>: splitting at the first occurrence of a character\<close>

fun split_first :: "char \<Rightarrow> string \<Rightarrow> (string \<times> string) option" where
  "split_first c [] = None"
| "split_first c (x # xs) =
     (if x = c then Some ([], xs)
      else (case split_first c xs of None \<Rightarrow> None | Some (a, b) \<Rightarrow> Some (x # a, b)))"

lemma split_first_None: "split_first c s = None \<longleftrightarrow> c \<notin> set s"
  by (induction s) (auto split: option.splits)

lemma split_first_Some:
  "split_first c s = Some (a, b) \<longleftrightarrow> s = a @ c # b \<and> c \<notin> set a"
proof (induction s arbitrary: a)
  case Nil
  then show ?case by simp
next
  case (Cons x s)
  show ?case
  proof (cases "x = c")
    case True
    then show ?thesis by (cases a) auto
  next
    case False
    then have "split_first c (x # s) = Some (a, b) \<longleftrightarrow>
        (\<exists>a'. a = x # a' \<and> split_first c s = Some (a', b))"
      by (auto split: option.splits)
    also have "\<dots> \<longleftrightarrow> x # s = a @ c # b \<and> c \<notin> set a"
      using False by (cases a) (auto simp: Cons)
    finally show ?thesis .
  qed
qed

lemma split_first_append: "c \<notin> set a \<Longrightarrow> split_first c (a @ c # b) = Some (a, b)"
  by (simp add: split_first_Some)

lemma takeWhile_neq_append: "c \<notin> set a \<Longrightarrow> takeWhile (\<lambda>x. x \<noteq> c) (a @ c # b) = a"
  by (induction a) auto

lemma dropWhile_neq_append: "c \<notin> set a \<Longrightarrow> dropWhile (\<lambda>x. x \<noteq> c) (a @ c # b) = c # b"
  by (induction a) auto

lemma takeWhile_neq_all: "c \<notin> set a \<Longrightarrow> takeWhile (\<lambda>x. x \<noteq> c) a = a"
  by (induction a) auto

lemma dropWhile_neq_all: "c \<notin> set a \<Longrightarrow> dropWhile (\<lambda>x. x \<noteq> c) a = []"
  by (induction a) auto

section \<open>Lines of a buffer\<close>

definition line_of :: "buf \<Rightarrow> buf" where
  "line_of b = takeWhile (\<lambda>c. c \<noteq> newline) b"

definition after_line :: "buf \<Rightarrow> buf" where
  "after_line b = drop 1 (dropWhile (\<lambda>c. c \<noteq> newline) b)"

lemma length_after_line: "b \<noteq> [] \<Longrightarrow> length (after_line b) < length b"
proof (cases "dropWhile (\<lambda>c. c \<noteq> newline) b")
  case Nil
  assume "b \<noteq> []"
  then show ?thesis by (simp only: after_line_def Nil) simp
next
  case (Cons a r)
  then have "length (a # r) \<le> length b"
    by (metis length_dropWhile_le)
  then show ?thesis by (simp add: after_line_def Cons)
qed

lemma line_of_append: "newline \<notin> set l \<Longrightarrow> line_of (l @ newline # r) = l"
  unfolding line_of_def by (subst takeWhile_append2) auto

lemma after_line_append: "newline \<notin> set l \<Longrightarrow> after_line (l @ newline # r) = r"
  unfolding after_line_def by (subst dropWhile_append2) auto

lemma newline_notin_line_of [simp]: "newline \<notin> set (line_of b)"
  by (auto simp: line_of_def dest: set_takeWhileD)

lemma set_line_of [cstring_simps]: "set (line_of b) \<subseteq> set b"
  by (auto simp: line_of_def dest: set_takeWhileD)

section \<open>Splitting at every occurrence of a character\<close>

fun split_on :: "char \<Rightarrow> string \<Rightarrow> string list" where
  "split_on c [] = [[]]"
| "split_on c (x # xs) =
     (if x = c then [] # split_on c xs
      else (case split_on c xs of [] \<Rightarrow> [[x]] | y # ys \<Rightarrow> (x # y) # ys))"

lemma split_on_not_Nil [simp]: "split_on c s \<noteq> []"
  by (cases s) (auto split: list.splits)

lemma split_on_append: "split_on c (a @ c # b) = split_on c a @ split_on c b"
  by (induction a) (auto split: list.splits simp: append_eq_Cons_conv)

lemma split_on_single: "c \<notin> set s \<Longrightarrow> split_on c s = [s]"
  by (induction s) auto

lemma split_on_part: "p \<in> set (split_on c s) \<Longrightarrow> c \<notin> set p"
proof (induction s arbitrary: p)
  case Nil
  then show ?case by simp
next
  case (Cons x s)
  then show ?case
    by (cases "split_on c s") (auto split: if_splits)
qed

lemma set_split_on_part: "p \<in> set (split_on c s) \<Longrightarrow> set p \<subseteq> set s"
proof (induction s arbitrary: p)
  case Nil
  then show ?case by simp
next
  case (Cons x s)
  then show ?case
    by (cases "split_on c s") (auto split: if_splits, blast+)
qed


section \<open>\<open>fgets\<close>\<close>

text \<open>
  \<open>fgets (line, n, f)\<close> takes at most \<open>n - 1\<close> bytes, up to and including a newline; the
  rest of a longer line comes with the next call.
\<close>

definition fgets :: "nat \<Rightarrow> buf \<Rightarrow> buf \<times> buf" where
  "fgets n b =
     (if newline \<in> set (take (n - 1) b) then (line_of b @ [newline], after_line b)
      else (take (n - 1) b, drop (n - 1) b))"

lemma fgets_shorter: "b \<noteq> [] \<Longrightarrow> 1 < n \<Longrightarrow> length (snd (fgets n b)) < length b"
  using length_after_line[of b] by (cases "length b") (auto simp: fgets_def)

function fgets_lines :: "nat \<Rightarrow> buf \<Rightarrow> buf list" where
  "fgets_lines n b =
     (if b = [] \<or> n \<le> 1 then [] else fst (fgets n b) # fgets_lines n (snd (fgets n b)))"
  by pat_completeness auto
termination
  by (relation "measure (\<lambda>(n, b). length b)") (auto simp: fgets_shorter)

declare fgets_lines.simps [simp del]

text \<open>A stream of newline-terminated lines that fit the buffer is read line by line.\<close>

lemma fgets_line:
  assumes "newline \<notin> set l" "length l + 1 < n"
  shows "fgets n (l @ newline # r) = (l @ [newline], r)"
proof -
  obtain k where k: "n - 1 = length l + Suc k"
    using assms(2) by (metis add_Suc_right less_diff_conv less_imp_Suc_add)
  have "take (n - 1) (l @ newline # r) = l @ newline # take k r" unfolding k by simp
  then show ?thesis using assms(1) by (simp add: fgets_def line_of_append after_line_append)
qed

lemma fgets_lines_concat:
  assumes "\<forall>l \<in> set ls. newline \<notin> set l \<and> length l + 1 < n"
  shows "fgets_lines n (concat (map (\<lambda>l. l @ [newline]) ls)) = map (\<lambda>l. l @ [newline]) ls"
  using assms
proof (induction ls)
  case Nil
  then show ?case by (simp add: fgets_lines.simps)
next
  case (Cons l ls)
  then show ?case by (subst fgets_lines.simps) (auto simp: fgets_line)
qed

section \<open>More on splitting\<close>

lemma split_on_Cons_takeWhile:
  "split_on c s = takeWhile (\<lambda>x. x \<noteq> c) s #
     (if dropWhile (\<lambda>x. x \<noteq> c) s = [] then [] else split_on c (tl (dropWhile (\<lambda>x. x \<noteq> c) s)))"
proof (cases "split_first c s")
  case None
  then have "c \<notin> set s" by (simp add: split_first_None)
  then show ?thesis by (simp add: split_on_single takeWhile_neq_all dropWhile_neq_all)
next
  case (Some ab)
  then obtain a b where s: "s = a @ c # b" "c \<notin> set a" by (cases ab) (auto simp: split_first_Some)
  then have "takeWhile (\<lambda>x. x \<noteq> c) s = a" "dropWhile (\<lambda>x. x \<noteq> c) s = c # b"
    by (simp_all add: takeWhile_neq_append dropWhile_neq_append)
  then show ?thesis using s by (simp add: split_on_append split_on_single)
qed

lemma split_on_eq_empty: "last (split_on c s) = [] \<Longrightarrow> butlast (split_on c s) = [] \<Longrightarrow> s = []"
  by (cases s) (auto split: list.splits if_splits)

lemma last_split_on: "s \<noteq> [] \<Longrightarrow> last s \<noteq> c \<Longrightarrow> last (split_on c s) \<noteq> []"
  by (induction s) (auto split: list.splits if_splits simp: last_append)

lemma set_split_on: "set s \<subseteq> insert c (\<Union> (set ` set (split_on c s)))"
proof (induction s)
  case (Cons x s)
  then show ?case by (cases "split_on c s") auto
qed simp

end
