(* ===== verification/Herald_Manifest.thy ===== *)
theory Herald_Manifest
  imports C_Prelude
begin

text \<open>
  The package manifest of herald, \<open>user/bin/herald/manifest.c\<close> and \<open>manifest.h\<close>:
  the manifest record, the predicate that a value can name a single path
  component, and the line-by-line parser.  \<open>manifest_parse\<close> returns \<open>None\<close> where
  the C function returns a negative value.  The lemmas show that every accepted
  manifest satisfies \<open>wf_manifest\<close> and that the canonical rendering of such a
  manifest parses back to it.
\<close>

section \<open>Data\<close>

definition HERALD_MAX_BINCAPS :: nat where
  "HERALD_MAX_BINCAPS = 8"

record herald_bincap =
  bc_binary :: string
  bc_caps :: string

record herald_manifest =
  m_id :: string
  m_name :: string
  m_version :: string
  m_exec :: string
  m_is_system :: bool
  m_caps :: string
  m_depends :: string
  m_paths :: string
  m_bincaps :: "herald_bincap list"

definition manifest_zero :: herald_manifest where
  "manifest_zero = \<lparr>m_id = [], m_name = [], m_version = [], m_exec = [], m_is_system = False,
     m_caps = [], m_depends = [], m_paths = [], m_bincaps = []\<rparr>"

section \<open>Operations\<close>

text \<open>\<open>bounded_copy\<close>: at most \<open>dstsz - 1\<close> bytes, then a terminator; the C string read back.\<close>

definition bounded_copy :: "nat \<Rightarrow> buf \<Rightarrow> string" where
  "bounded_copy dstsz src = cstr (take (dstsz - 1) src)"

definition manifest_is_bare_name :: "string \<Rightarrow> bool" where
  "manifest_is_bare_name s \<longleftrightarrow>
     s \<noteq> [] \<and> slash \<notin> set s \<and> s \<noteq> ''.'' \<and> s \<noteq> ''..''"

definition rtrim :: "string \<Rightarrow> string" where
  "rtrim s = rtrim_of (\<lambda>c. c = cr \<or> c = space \<or> c = tab) s"

definition skip_blanks :: "string \<Rightarrow> string" where
  "skip_blanks s = dropWhile (\<lambda>c. c = space \<or> c = tab) s"

text \<open>The chain of \<open>strcmp\<close> on the key; \<open>None\<close> is the early \<open>return -1\<close>.\<close>

definition manifest_key :: "string \<Rightarrow> string \<Rightarrow> herald_manifest \<Rightarrow> herald_manifest option" where
  "manifest_key key val out =
     (if key = ''id'' then
        (if \<not> manifest_is_bare_name val then None
         else Some (out\<lparr>m_id := bounded_copy 64 val\<rparr>))
      else if key = ''name'' then Some (out\<lparr>m_name := bounded_copy 64 val\<rparr>)
      else if key = ''version'' then Some (out\<lparr>m_version := bounded_copy 32 val\<rparr>)
      else if key = ''exec'' then
        (if \<not> manifest_is_bare_name val then None
         else Some (out\<lparr>m_exec := bounded_copy 64 val\<rparr>))
      else if key = ''caps'' then Some (out\<lparr>m_caps := bounded_copy 256 val\<rparr>)
      else if take 5 key = ''caps.'' then
        (let bin = drop 5 key in
         if manifest_is_bare_name bin \<and> length (m_bincaps out) < HERALD_MAX_BINCAPS
         then Some (out\<lparr>m_bincaps := m_bincaps out @
                [\<lparr>bc_binary = bounded_copy 64 bin, bc_caps = bounded_copy 256 val\<rparr>]\<rparr>)
         else Some out)
      else if key = ''depends'' then Some (out\<lparr>m_depends := bounded_copy 256 val\<rparr>)
      else if key = ''paths'' then Some (out\<lparr>m_paths := bounded_copy 256 val\<rparr>)
      else if key = ''class'' then Some (out\<lparr>m_is_system := (val = ''system'')\<rparr>)
      else Some out)"

text \<open>One pass of the line loop: copy, trim, skip blanks and comments, split at \<open>=\<close>.\<close>

definition manifest_line :: "buf \<Rightarrow> herald_manifest \<Rightarrow> herald_manifest option" where
  "manifest_line raw out =
     (let line = rtrim (bounded_copy 512 raw) in
      if line = [] \<or> hd line = CHR ''#'' then Some out
      else (case split_first (CHR ''='') line of
              None \<Rightarrow> Some out
            | Some (k, val) \<Rightarrow>
                (let key = skip_blanks (rtrim k) in
                 if list_ex is_ctrl val then None else manifest_key key val out)))"

function manifest_loop :: "buf \<Rightarrow> herald_manifest \<Rightarrow> herald_manifest option" where
  "manifest_loop b out =
     (if b = [] then Some out
      else (case manifest_line (line_of b) out of
              None \<Rightarrow> None
            | Some out' \<Rightarrow> manifest_loop (after_line b) out'))"
  by pat_completeness auto
termination
  by (relation "measure (\<lambda>(b, out). length b)") (auto simp: length_after_line)

declare manifest_loop.simps [simp del]

definition manifest_parse :: "buf \<Rightarrow> herald_manifest option" where
  "manifest_parse b =
     (case manifest_loop b manifest_zero of
        None \<Rightarrow> None
      | Some out \<Rightarrow>
          if m_id out = [] \<or> m_name out = [] \<or> m_version out = [] then None
          else if \<not> m_is_system out \<and> m_exec out = [] then None
          else Some out)"

section \<open>The invariant of an accepted manifest\<close>

definition clean :: "string \<Rightarrow> bool" where
  "clean s \<longleftrightarrow> list_all (\<lambda>c. \<not> is_ctrl c) s"

definition wf_bincap :: "herald_bincap \<Rightarrow> bool" where
  "wf_bincap bc \<longleftrightarrow> manifest_is_bare_name (bc_binary bc) \<and> nul \<notin> set (bc_binary bc) \<and>
     length (bc_binary bc) < 64 \<and> clean (bc_caps bc) \<and> length (bc_caps bc) < 256"

text \<open>What holds of the record while the loop fills it: fields may still be empty.\<close>

definition wf_fields :: "herald_manifest \<Rightarrow> bool" where
  "wf_fields m \<longleftrightarrow>
     (m_id m = [] \<or> manifest_is_bare_name (m_id m)) \<and> clean (m_id m) \<and> length (m_id m) < 64 \<and>
     clean (m_name m) \<and> length (m_name m) < 64 \<and>
     clean (m_version m) \<and> length (m_version m) < 32 \<and>
     (m_exec m = [] \<or> manifest_is_bare_name (m_exec m)) \<and> clean (m_exec m) \<and>
       length (m_exec m) < 64 \<and>
     clean (m_caps m) \<and> length (m_caps m) < 256 \<and>
     clean (m_depends m) \<and> length (m_depends m) < 256 \<and>
     clean (m_paths m) \<and> length (m_paths m) < 256 \<and>
     list_all wf_bincap (m_bincaps m) \<and> length (m_bincaps m) \<le> HERALD_MAX_BINCAPS"

definition wf_manifest :: "herald_manifest \<Rightarrow> bool" where
  "wf_manifest m \<longleftrightarrow> wf_fields m \<and> manifest_is_bare_name (m_id m) \<and> m_name m \<noteq> [] \<and>
     m_version m \<noteq> [] \<and> (m_is_system m \<or> manifest_is_bare_name (m_exec m))"

section \<open>Rendering a manifest and parsing it back\<close>

definition no_trail :: "string \<Rightarrow> bool" where
  "no_trail s \<longleftrightarrow> s = [] \<or> (last s \<noteq> cr \<and> last s \<noteq> space \<and> last s \<noteq> tab)"

text \<open>A key and value that one line of a manifest file carries unchanged.\<close>

definition line_ok :: "string \<Rightarrow> string \<Rightarrow> bool" where
  "line_ok k v \<longleftrightarrow> k \<noteq> [] \<and> hd k \<noteq> CHR ''#'' \<and> hd k \<noteq> space \<and> hd k \<noteq> tab \<and> no_trail k \<and>
     CHR ''='' \<notin> set k \<and> nul \<notin> set k \<and> newline \<notin> set k \<and> clean v \<and> no_trail v \<and>
     length k + length v < 511"

definition render_line :: "string \<times> string \<Rightarrow> buf" where
  "render_line kv = fst kv @ CHR ''='' # snd kv @ [newline]"

definition opt_line :: "string \<Rightarrow> string \<Rightarrow> (string \<times> string) list" where
  "opt_line k v = (if v = [] then [] else [(k, v)])"

definition class_line :: "bool \<Rightarrow> (string \<times> string) list" where
  "class_line s = (if s then [(''class'', ''system'')] else [])"

definition bincap_pair :: "herald_bincap \<Rightarrow> string \<times> string" where
  "bincap_pair bc = (''caps.'' @ bc_binary bc, bc_caps bc)"

definition manifest_pairs :: "herald_manifest \<Rightarrow> (string \<times> string) list" where
  "manifest_pairs m =
     [(''id'', m_id m), (''name'', m_name m), (''version'', m_version m)] @
     opt_line ''exec'' (m_exec m) @ class_line (m_is_system m) @
     opt_line ''caps'' (m_caps m) @ opt_line ''depends'' (m_depends m) @
     opt_line ''paths'' (m_paths m) @
     map bincap_pair (m_bincaps m)"

definition render_manifest :: "herald_manifest \<Rightarrow> buf" where
  "render_manifest m = concat (map render_line (manifest_pairs m))"

text \<open>The manifests a file can carry: no value may end in a blank, which the parser trims.\<close>

definition printable_bincap :: "herald_bincap \<Rightarrow> bool" where
  "printable_bincap bc \<longleftrightarrow> no_trail (bc_binary bc) \<and> no_trail (bc_caps bc) \<and>
     CHR ''='' \<notin> set (bc_binary bc) \<and> newline \<notin> set (bc_binary bc) \<and> nul \<notin> set (bc_binary bc)"

definition printable :: "herald_manifest \<Rightarrow> bool" where
  "printable m \<longleftrightarrow> no_trail (m_id m) \<and> no_trail (m_name m) \<and> no_trail (m_version m) \<and>
     no_trail (m_exec m) \<and> no_trail (m_caps m) \<and> no_trail (m_depends m) \<and> no_trail (m_paths m) \<and>
     list_all printable_bincap (m_bincaps m)"

fun apply_keys :: "(string \<times> string) list \<Rightarrow> herald_manifest \<Rightarrow> herald_manifest option" where
  "apply_keys [] out = Some out"
| "apply_keys ((k, v) # kvs) out =
     (case manifest_key k v out of None \<Rightarrow> None | Some out' \<Rightarrow> apply_keys kvs out')"

section \<open>Lemmas\<close>

lemma clean_no_nul: "clean s \<Longrightarrow> nul \<notin> set s"
  by (auto simp: clean_def list_all_iff)

lemma clean_bounded_copy: "clean s \<Longrightarrow> clean (bounded_copy n s)"
  using set_cstr[of "take (n - 1) s"]
  by (auto simp: clean_def list_all_iff bounded_copy_def dest!: in_set_takeD subsetD)

lemma length_bounded_copy: "0 < n \<Longrightarrow> length (bounded_copy n s) < n"
  using length_cstr[of "take (n - 1) s"] by (simp add: bounded_copy_def min_def split: if_splits)

lemma bounded_copy_id: "length s < n \<Longrightarrow> nul \<notin> set s \<Longrightarrow> bounded_copy n s = s"
  by (simp add: bounded_copy_def cstr_id)

lemma bounded_copy_take: "nul \<notin> set s \<Longrightarrow> bounded_copy n s = take (n - 1) s"
  unfolding bounded_copy_def by (rule cstr_id) (auto dest: in_set_takeD)

lemma nul_notin_bounded_copy [simp]: "nul \<notin> set (bounded_copy n s)"
  by (simp add: bounded_copy_def)

text \<open>Truncating a bare name leaves a bare name: only names of one or two bytes are special.\<close>

lemma bare_name_take:
  assumes "manifest_is_bare_name s" and "2 < n"
  shows "manifest_is_bare_name (take n s)"
proof (cases "length s \<le> n")
  case True
  with assms(1) show ?thesis by simp
next
  case False
  then have "length (take n s) = n" by simp
  then have "take n s \<noteq> t" if "length t \<le> 2" for t
    using that assms(2) by auto
  from this[of "[]"] this[of "''.''"] this[of "''..''"]
  have "take n s \<noteq> []" "take n s \<noteq> ''.''" "take n s \<noteq> ''..''"
    by simp_all
  with assms(1) show ?thesis
    by (auto simp: manifest_is_bare_name_def dest: in_set_takeD)
qed

lemma bare_name_bounded_copy:
  "manifest_is_bare_name s \<Longrightarrow> nul \<notin> set s \<Longrightarrow> 3 < n \<Longrightarrow> manifest_is_bare_name (bounded_copy n s)"
  by (simp add: bounded_copy_take bare_name_take)

lemma wf_fields_zero: "wf_fields manifest_zero"
  by (simp add: wf_fields_def manifest_zero_def clean_def HERALD_MAX_BINCAPS_def)

text \<open>Each assignment the key chain can make keeps the invariant.\<close>

lemma wf_fields_assign:
  assumes "wf_fields m" and "clean v"
  shows "manifest_is_bare_name v \<Longrightarrow> wf_fields (m\<lparr>m_id := bounded_copy 64 v\<rparr>)"
    and "wf_fields (m\<lparr>m_name := bounded_copy 64 v\<rparr>)"
    and "wf_fields (m\<lparr>m_version := bounded_copy 32 v\<rparr>)"
    and "manifest_is_bare_name v \<Longrightarrow> wf_fields (m\<lparr>m_exec := bounded_copy 64 v\<rparr>)"
    and "wf_fields (m\<lparr>m_caps := bounded_copy 256 v\<rparr>)"
    and "wf_fields (m\<lparr>m_depends := bounded_copy 256 v\<rparr>)"
    and "wf_fields (m\<lparr>m_paths := bounded_copy 256 v\<rparr>)"
    and "wf_fields (m\<lparr>m_is_system := s\<rparr>)"
    and "manifest_is_bare_name bin \<Longrightarrow> nul \<notin> set bin \<Longrightarrow> length (m_bincaps m) < HERALD_MAX_BINCAPS \<Longrightarrow>
      wf_fields (m\<lparr>m_bincaps := m_bincaps m @
        [\<lparr>bc_binary = bounded_copy 64 bin, bc_caps = bounded_copy 256 v\<rparr>]\<rparr>)"
  using assms clean_no_nul[OF assms(2)]
  by (simp_all add: wf_fields_def wf_bincap_def clean_bounded_copy length_bounded_copy
      bare_name_bounded_copy)

lemma Some_wf: "Some m = Some m' \<Longrightarrow> wf_fields m \<Longrightarrow> wf_fields m'"
  by simp

lemma manifest_key_wf:
  assumes "wf_fields out" and "clean val" and "nul \<notin> set key"
    and "manifest_key key val out = Some out'"
  shows "wf_fields out'"
proof -
  have k: "nul \<notin> set (drop 5 key)" using assms(3) by (meson in_set_dropD)
  note assign = wf_fields_assign[OF assms(1,2)]
  from assms(4) show ?thesis
    unfolding manifest_key_def Let_def
    by (elim if_SomeE conjE)
      ((erule Some_wf, (rule assms(1) | (rule assign; (assumption | rule k | simp only: not_not)?)))
        | simp only: option.distinct)+
qed

lemma nul_notin_rtrim: "nul \<notin> set s \<Longrightarrow> nul \<notin> set (rtrim s)"
  unfolding rtrim_def using set_rtrim_of by blast

lemma nul_notin_skip_blanks: "nul \<notin> set s \<Longrightarrow> nul \<notin> set (skip_blanks s)"
  unfolding skip_blanks_def by (meson set_dropWhileD)

lemma manifest_line_wf:
  assumes "wf_fields out" and "manifest_line raw out = Some out'"
  shows "wf_fields out'"
proof -
  let ?line = "rtrim (bounded_copy 512 raw)"
  have n: "nul \<notin> set ?line" by (simp add: nul_notin_rtrim)
  show ?thesis
  proof (cases "?line = [] \<or> hd ?line = CHR ''#'' \<or> split_first (CHR ''='') ?line = None")
    case True
    with assms show ?thesis by (auto simp: manifest_line_def Let_def split: if_splits)
  next
    case False
    then obtain k val where kv: "split_first (CHR ''='') ?line = Some (k, val)" by auto
    then have "set k \<subseteq> set ?line" by (auto simp: split_first_Some)
    with n have nk: "nul \<notin> set (skip_blanks (rtrim k))"
      by (meson nul_notin_rtrim nul_notin_skip_blanks subsetD)
    from False kv assms(2) have "\<not> list_ex is_ctrl val"
      and mk: "manifest_key (skip_blanks (rtrim k)) val out = Some out'"
      by (auto simp: manifest_line_def Let_def split: if_splits)
    then have "clean val" by (auto simp: clean_def list_ex_iff list_all_iff)
    with assms(1) nk mk show ?thesis by (auto intro: manifest_key_wf)
  qed
qed

lemma manifest_loop_wf:
  "wf_fields out \<Longrightarrow> manifest_loop b out = Some out' \<Longrightarrow> wf_fields out'"
proof (induction b out rule: manifest_loop.induct)
  case (1 b out)
  then show ?case
    by (auto simp: manifest_loop.simps[of b out] dest: manifest_line_wf
        split: if_splits option.splits)
qed




lemma rtrim_id: "no_trail s \<Longrightarrow> rtrim s = s"
  unfolding rtrim_def by (rule rtrim_of_id) (auto simp: no_trail_def)

lemma manifest_line_ok:
  assumes "line_ok k v"
  shows "manifest_line (k @ CHR ''='' # v) out = manifest_key k v out"
proof -
  let ?l = "k @ CHR ''='' # v"
  from assms have ne: "k \<noteq> []" "hd k \<noteq> CHR ''#''" and "CHR ''='' \<notin> set k" "nul \<notin> set k"
    and v: "clean v" "no_trail v" and k: "no_trail k" "hd k \<noteq> space" "hd k \<noteq> tab"
    and len: "length k + length v < 511"
    by (auto simp: line_ok_def)
  have "bounded_copy 512 ?l = ?l"
    using len \<open>nul \<notin> set k\<close> clean_no_nul[OF v(1)] by (intro bounded_copy_id) auto
  moreover have "rtrim ?l = ?l"
    using v(2) by (intro rtrim_id) (auto simp: no_trail_def)
  moreover have "skip_blanks k = k"
    using k ne by (cases k) (auto simp: skip_blanks_def)
  moreover have "\<not> list_ex is_ctrl v"
    using v(1) by (auto simp: clean_def list_ex_iff list_all_iff)
  ultimately show ?thesis
    using ne \<open>CHR ''='' \<notin> set k\<close>
    by (simp add: manifest_line_def Let_def split_first_append rtrim_id[OF k(1)])
qed

lemma manifest_loop_line:
  "newline \<notin> set l \<Longrightarrow> manifest_loop (l @ newline # r) out =
     (case manifest_line l out of None \<Rightarrow> None | Some out' \<Rightarrow> manifest_loop r out')"
  by (simp add: manifest_loop.simps[of "l @ newline # r"] line_of_append after_line_append
      split: option.split)

lemma manifest_loop_render:
  "list_all (\<lambda>(k, v). line_ok k v) kvs \<Longrightarrow>
   manifest_loop (concat (map render_line kvs)) out = apply_keys kvs out"
proof (induction kvs arbitrary: out)
  case Nil
  then show ?case by (simp add: manifest_loop.simps)
next
  case (Cons kv kvs)
  obtain k v where kv: "kv = (k, v)" by (cases kv)
  let ?l = "k @ CHR ''='' # v" and ?r = "concat (map render_line kvs)"
  from Cons.prems kv have ok: "line_ok k v" by simp
  then have nl: "newline \<notin> set ?l"
    by (auto simp: line_ok_def clean_def list_all_iff)
  have "manifest_loop (concat (map render_line (kv # kvs))) out = manifest_loop (?l @ newline # ?r) out"
    by (simp add: render_line_def kv)
  also have "\<dots> = (case manifest_key k v out of None \<Rightarrow> None | Some out' \<Rightarrow> manifest_loop ?r out')"
    by (simp only: manifest_loop_line[OF nl] manifest_line_ok[OF ok])
  also have "\<dots> = apply_keys (kv # kvs) out"
    using Cons by (simp add: kv split: option.split)
  finally show ?case .
qed

lemma apply_keys_append:
  "apply_keys (xs @ ys) out =
     (case apply_keys xs out of None \<Rightarrow> None | Some out' \<Rightarrow> apply_keys ys out')"
  by (induction xs out rule: apply_keys.induct) (auto split: option.split)

lemma manifest_key_bincap:
  assumes "wf_bincap bc" and "printable_bincap bc" and "length (m_bincaps out) < HERALD_MAX_BINCAPS"
  shows "manifest_key (''caps.'' @ bc_binary bc) (bc_caps bc) out =
     Some (out\<lparr>m_bincaps := m_bincaps out @ [bc]\<rparr>)"
  using assms clean_no_nul[of "bc_caps bc"]
  by (simp add: manifest_key_def wf_bincap_def printable_bincap_def bounded_copy_id)

lemma apply_keys_bincaps:
  "list_all wf_bincap bcs \<Longrightarrow> list_all printable_bincap bcs \<Longrightarrow>
   length (m_bincaps out) + length bcs \<le> HERALD_MAX_BINCAPS \<Longrightarrow>
   apply_keys (map bincap_pair bcs) out = Some (out\<lparr>m_bincaps := m_bincaps out @ bcs\<rparr>)"
  by (induction bcs arbitrary: out) (simp_all add: bincap_pair_def manifest_key_bincap del: append_Cons)

text \<open>What each line of the rendering contributes; an empty optional field has no line.\<close>

lemma apply_keys_fields:
  assumes "clean v" and "length v < 256"
  shows "manifest_is_bare_name v \<Longrightarrow> length v < 64 \<Longrightarrow>
      apply_keys [(''id'', v)] out = Some (out\<lparr>m_id := v\<rparr>)"
    and "length v < 64 \<Longrightarrow> apply_keys [(''name'', v)] out = Some (out\<lparr>m_name := v\<rparr>)"
    and "length v < 32 \<Longrightarrow> apply_keys [(''version'', v)] out = Some (out\<lparr>m_version := v\<rparr>)"
    and "v = [] \<or> manifest_is_bare_name v \<Longrightarrow> length v < 64 \<Longrightarrow> m_exec out = [] \<Longrightarrow>
      apply_keys (opt_line ''exec'' v) out = Some (out\<lparr>m_exec := v\<rparr>)"
    and "m_caps out = [] \<Longrightarrow> apply_keys (opt_line ''caps'' v) out = Some (out\<lparr>m_caps := v\<rparr>)"
    and "m_depends out = [] \<Longrightarrow>
      apply_keys (opt_line ''depends'' v) out = Some (out\<lparr>m_depends := v\<rparr>)"
    and "m_paths out = [] \<Longrightarrow> apply_keys (opt_line ''paths'' v) out = Some (out\<lparr>m_paths := v\<rparr>)"
  using assms bounded_copy_id[OF _ clean_no_nul[OF assms(1)]]
  by (auto simp: manifest_key_def opt_line_def)

lemma apply_keys_class:
  "\<not> m_is_system out \<Longrightarrow> apply_keys (class_line s) out = Some (out\<lparr>m_is_system := s\<rparr>)"
  by (simp add: manifest_key_def class_line_def)

lemma line_ok_keys:
  assumes "clean v" and "no_trail v" and "length v < 256"
  shows "line_ok ''id'' v" "line_ok ''name'' v" "line_ok ''version'' v" "line_ok ''exec'' v"
    "line_ok ''caps'' v" "line_ok ''depends'' v" "line_ok ''paths'' v" "line_ok ''class'' v"
  using assms by (simp_all add: line_ok_def no_trail_def[of "_ # _"])

lemma line_ok_bincap:
  "wf_bincap bc \<Longrightarrow> printable_bincap bc \<Longrightarrow> (case bincap_pair bc of (k, v) \<Rightarrow> line_ok k v)"
  by (auto simp: bincap_pair_def line_ok_def wf_bincap_def printable_bincap_def no_trail_def)

lemma line_ok_pairs:
  assumes "wf_manifest m" and "printable m"
  shows "list_all (\<lambda>(k, v). line_ok k v) (manifest_pairs m)"
proof -
  have "list_all (\<lambda>(k, v). line_ok k v) (map bincap_pair (m_bincaps m))"
    using assms line_ok_bincap
    by (fastforce simp: wf_manifest_def wf_fields_def printable_def list_all_iff)
  moreover have "clean ''system''" "no_trail ''system''"
    by (simp_all add: no_trail_def clean_def is_ctrl_def byte_of_def)
  ultimately show ?thesis
    using assms unfolding wf_manifest_def wf_fields_def printable_def
    by (simp add: manifest_pairs_def opt_line_def class_line_def line_ok_keys)
qed

text \<open>
  C6: rendering a well-formed manifest as key=value lines and parsing the text gives
  the same manifest back, all fields and every per-binary policy in order.
\<close>

theorem manifest_render_parse:
  assumes "wf_manifest m" and "printable m"
  shows "manifest_parse (render_manifest m) = Some m"
proof -
  have w: "wf_fields m" "manifest_is_bare_name (m_id m)" "m_name m \<noteq> []" "m_version m \<noteq> []"
     "m_is_system m \<or> manifest_is_bare_name (m_exec m)"
    using assms(1) by (auto simp: wf_manifest_def)
  have p: "manifest_pairs m = [(''id'', m_id m)] @ [(''name'', m_name m)] @ [(''version'', m_version m)] @
     opt_line ''exec'' (m_exec m) @ class_line (m_is_system m) @
     opt_line ''caps'' (m_caps m) @ opt_line ''depends'' (m_depends m) @
     opt_line ''paths'' (m_paths m) @ map bincap_pair (m_bincaps m)"
    by (simp add: manifest_pairs_def)
  have "apply_keys (manifest_pairs m) manifest_zero = Some m"
    using w assms(2) unfolding p
    by (simp add: apply_keys_append apply_keys_fields apply_keys_class apply_keys_bincaps manifest_zero_def
        wf_fields_def printable_def del: append_Cons apply_keys.simps)
  then show ?thesis
    using w manifest_loop_render[OF line_ok_pairs[OF assms], of manifest_zero]
    by (auto simp: manifest_parse_def render_manifest_def manifest_is_bare_name_def)
qed

theorem manifest_render_parse_witness:
  "manifest_parse (render_manifest \<lparr>m_id = ''calc'', m_name = ''Calculator'', m_version = ''1.2'',
     m_exec = ''calc'', m_is_system = False, m_caps = ''FB IPC'', m_depends = [], m_paths = [],
     m_bincaps = [\<lparr>bc_binary = ''calc-eng'', bc_caps = ''VFS_READ''\<rparr>]\<rparr>) =
   Some \<lparr>m_id = ''calc'', m_name = ''Calculator'', m_version = ''1.2'',
     m_exec = ''calc'', m_is_system = False, m_caps = ''FB IPC'', m_depends = [], m_paths = [],
     m_bincaps = [\<lparr>bc_binary = ''calc-eng'', bc_caps = ''VFS_READ''\<rparr>]\<rparr>"
  by (rule manifest_render_parse)
    (simp_all add: wf_manifest_def wf_fields_def wf_bincap_def printable_def printable_bincap_def
      no_trail_def clean_def is_ctrl_def byte_of_def manifest_is_bare_name_def HERALD_MAX_BINCAPS_def)

end
