(* ===== verification/Herald_Tar.thy ===== *)
theory Herald_Tar
  imports C_Prelude
begin

text \<open>
  The archive reader of herald, \<open>user/bin/herald/tar.c\<close>: octal header fields, path
  safety, the header block, and the walk over the archive in find mode
  (\<open>tar_find_mem\<close>).  A pointer \<open>base + off\<close> with the remaining length is the
  remaining list of bytes, so \<open>off + TAR_BLOCK <= len\<close> reads \<open>512 \<le> length rest\<close>.
  Sizes are \<open>unsigned long long\<close> in the source and \<open>64 word\<close> here, so that the padding
  computation wraps where the C code would.
\<close>

unbundle bit_operations_syntax

section \<open>Definitions\<close>

abbreviation TAR_BLOCK :: nat where "TAR_BLOCK \<equiv> 512"
abbreviation TAR_NAME :: nat where "TAR_NAME \<equiv> 100"
abbreviation TAR_PREFIX :: nat where "TAR_PREFIX \<equiv> 155"
abbreviation TAR_PATHMAX :: nat where "TAR_PATHMAX \<equiv> 257"

definition field :: "buf \<Rightarrow> nat \<Rightarrow> nat \<Rightarrow> buf" where
  "field hdr off n = take n (drop off hdr)"

fun oct_digits :: "buf \<Rightarrow> 64 word \<Rightarrow> 64 word option" where
  "oct_digits [] v = Some v"
| "oct_digits (c # cs) v =
     (if c = space \<or> c = nul then Some v
      else if byte_of c < 48 \<or> 55 < byte_of c then None
      else oct_digits cs (push_bit 3 v OR of_nat (byte_of c - 48)))"

definition oct_parse :: "buf \<Rightarrow> 64 word option" where
  "oct_parse f = oct_digits (dropWhile (\<lambda>c. c = space) f) 0"

definition block_is_zero :: "buf \<Rightarrow> bool" where
  "block_is_zero b \<longleftrightarrow> list_all (\<lambda>c. c = nul) (take TAR_BLOCK b)"

definition strip_dot_slash :: "string \<Rightarrow> string" where
  "strip_dot_slash p = (if take 2 p = ''./'' then drop 2 p else p)"

text \<open>The component scan of \<open>path_is_safe\<close>; \<open>p\<close> is at the first byte of a component.\<close>

function path_scan :: "string \<Rightarrow> bool" where
  "path_scan p =
     (if p = [] then True
      else if take 2 p = ''..'' \<and> (drop 2 p = [] \<or> hd (drop 2 p) = slash) then False
      else path_scan (dropWhile (\<lambda>c. c = slash) (dropWhile (\<lambda>c. c \<noteq> slash) p)))"
  by pat_completeness auto
termination
proof (relation "measure length", goal_cases)
  case (2 p)
  let ?q = "dropWhile (\<lambda>c. c \<noteq> slash) p"
  have "length (dropWhile (\<lambda>c. c = slash) ?q) \<le> length ?q" "length ?q \<le> length p"
    by (simp_all add: length_dropWhile_le)
  moreover have "length (dropWhile (\<lambda>c. c = slash) ?q) < length p"
  proof (cases p)
    case Nil
    with 2 show ?thesis by simp
  next
    case (Cons a r)
    have "length (dropWhile P r) \<le> length r" for P by (rule length_dropWhile_le)
    moreover have "length (dropWhile Q (dropWhile P r)) \<le> length r" for P Q
      by (meson calculation le_trans length_dropWhile_le)
    ultimately show ?thesis
      using Cons by (auto simp: less_Suc_eq_le)
  qed
  ultimately show ?case by simp
qed simp

declare path_scan.simps [simp del]

definition path_is_safe :: "string \<Rightarrow> bool" where
  "path_is_safe p \<longleftrightarrow> p \<noteq> [] \<and> hd p \<noteq> slash \<and> path_scan p"

definition build_path :: "buf \<Rightarrow> string option" where
  "build_path hdr =
     (let name = cstr (field hdr 0 TAR_NAME); prefix = cstr (field hdr 345 TAR_PREFIX) in
      if prefix \<noteq> [] then
        (if length prefix + 1 + length name + 1 > TAR_PATHMAX then None
         else Some (prefix @ slash # name))
      else (if length name + 1 > TAR_PATHMAX then None else Some name))"

definition str_starts_with :: "string \<Rightarrow> string \<Rightarrow> bool" where
  "str_starts_with s pre \<longleftrightarrow> take (length pre) s = pre"

definition strip_trailing_slash :: "string \<Rightarrow> string" where
  "strip_trailing_slash p = (if p \<noteq> [] \<and> last p = slash then butlast p else p)"

definition magic_ok :: "buf \<Rightarrow> bool" where
  "magic_ok hdr \<longleftrightarrow> field hdr 257 5 = ''ustar''"

datatype tar_error =
    Bad_magic | Bad_size | Bad_mode | Truncated | Path_too_long | Unsafe_path
  | Outside_prefixes | Target_too_long | Io_failed string

record tar_entry =
  te_type :: char
  te_path :: string
  te_mode :: "64 word"
  te_size :: "64 word"
  te_padded :: nat

text \<open>
  One header block of \<open>tar_walk\<close>: \<open>Inr None\<close> is the all-zero name field that ends
  the iteration, \<open>Inl\<close> the malformed archive.
\<close>

definition tar_padded :: "64 word \<Rightarrow> nat" where
  "tar_padded sz = unat (((sz + 511) div 512) * 512)"

definition tar_header :: "buf \<Rightarrow> tar_error + tar_entry option" where
  "tar_header rest =
     (let hdr = take TAR_BLOCK rest in
      if list_all (\<lambda>c. c = nul) (field hdr 0 TAR_NAME) then Inr None
      else if \<not> magic_ok hdr then Inl Bad_magic
      else (case oct_parse (field hdr 124 12) of None \<Rightarrow> Inl Bad_size
      | Some sz \<Rightarrow>
        (case oct_parse (field hdr 100 8) of None \<Rightarrow> Inl Bad_mode
        | Some mode \<Rightarrow>
           if tar_padded sz > length rest - TAR_BLOCK then Inl Truncated
           else (case build_path hdr of None \<Rightarrow> Inl Path_too_long
           | Some rawpath \<Rightarrow>
              Inr (Some \<lparr>te_type = hdr ! 156, te_path = strip_dot_slash rawpath,
                 te_mode = mode, te_size = sz, te_padded = tar_padded sz\<rparr>)))))"

definition handled_type :: "char \<Rightarrow> bool" where
  "handled_type t \<longleftrightarrow> t = CHR ''0'' \<or> t = nul \<or> t = CHR ''5''"

text \<open>
  \<open>tar_walk\<close> in find mode; the result is the entry's data, the bytes \<open>*fd\<close> points at
  cut at \<open>*fsz\<close>.
\<close>

function tar_find_walk :: "buf \<Rightarrow> nat \<Rightarrow> string \<Rightarrow> tar_error + buf option" where
  "tar_find_walk rest zero_run name =
     (if length rest < TAR_BLOCK then Inr None
      else if block_is_zero rest then
        (if zero_run + 1 \<ge> 2 then Inr None
         else tar_find_walk (drop TAR_BLOCK rest) (zero_run + 1) name)
      else (case tar_header rest of
              Inl e \<Rightarrow> Inl e
            | Inr None \<Rightarrow> Inr None
            | Inr (Some e) \<Rightarrow>
                if handled_type (te_type e) \<and> \<not> path_is_safe (te_path e) then Inl Unsafe_path
                else if handled_type (te_type e) \<and> te_type e \<noteq> CHR ''5'' \<and> te_path e = name
                then Inr (Some (take (unat (te_size e)) (drop TAR_BLOCK rest)))
                else tar_find_walk (drop (TAR_BLOCK + te_padded e) rest) 0 name))"
  by pat_completeness auto
termination
  by (relation "measure (\<lambda>(rest, z, n). length rest)") auto

declare tar_find_walk.simps [simp del]

definition tar_find_mem :: "buf \<Rightarrow> string \<Rightarrow> tar_error + buf option" where
  "tar_find_mem b name = tar_find_walk b 0 (strip_dot_slash name)"


subsection \<open>A ustar encoder\<close>

text \<open>
  The archives \<open>tar_find_mem\<close> is meant for, as the POSIX ustar format defines them:
  a 512-byte header, the data padded to a multiple of 512, and two zero blocks at the end.
\<close>

fun oct_enc :: "nat \<Rightarrow> nat \<Rightarrow> string" where
  "oct_enc 0 v = []"
| "oct_enc (Suc n) v = oct_enc n (v div 8) @ [char_of (48 + v mod 8)]"

definition pad :: "nat \<Rightarrow> string \<Rightarrow> buf" where
  "pad n s = s @ replicate (n - length s) nul"

definition ustar_header :: "string \<Rightarrow> nat \<Rightarrow> nat \<Rightarrow> buf" where
  "ustar_header name mode sz =
     pad 100 name @ oct_enc 7 mode @ nul # replicate 16 nul @ oct_enc 11 sz @ nul # replicate 20 nul @
     CHR ''0'' # replicate 100 nul @ ''ustar'' @ replicate 250 nul"

definition ustar_member :: "string \<times> buf \<Rightarrow> buf" where
  "ustar_member m = ustar_header (fst m) 420 (length (snd m)) @
     pad ((length (snd m) + 511) div 512 * 512) (snd m)"

definition ustar_archive :: "(string \<times> buf) list \<Rightarrow> buf" where
  "ustar_archive ms = concat (map ustar_member ms) @ replicate 1024 nul"

definition archivable :: "string \<times> buf \<Rightarrow> bool" where
  "archivable m \<longleftrightarrow> path_is_safe (fst m) \<and> length (fst m) \<le> 100 \<and> nul \<notin> set (fst m) \<and>
     strip_dot_slash (fst m) = fst m \<and> length (snd m) < 8 ^ 11"

section \<open>Properties\<close>

lemma unat_shift_or:
  fixes v :: "64 word"
  assumes "d < 8" and "unat v < 2 ^ 61"
  shows "unat (push_bit 3 v OR of_nat d) = 8 * unat v + d"
proof -
  have b: "\<not> bit (of_nat d :: 64 word) n" if "3 \<le> n" for n
  proof -
    have "d div 2 ^ n = 0"
      using assms(1) that power_increasing[of 3 n "2::nat"] by simp
    then have "\<not> bit d n" by (simp add: bit_iff_odd)
    moreover have "unat (of_nat d :: 64 word) = d" using assms(1) by (simp add: unat_of_nat)
    ultimately show ?thesis using bit_unsigned_iff[of "of_nat d :: 64 word" n]
      by (metis possible_bit_nat)
  qed
  have "push_bit 3 v AND of_nat d = 0"
    by (rule bit_eqI) (auto simp: bit_and_iff bit_push_bit_iff dest: b)
  then have "push_bit 3 v OR of_nat d = push_bit 3 v + of_nat d"
    by (simp add: disjunctive_add_eq_or)
  also have "\<dots> = of_nat (8 * unat v + d)"
    by (simp add: push_bit_eq_mult)
  finally have "unat (push_bit 3 v OR of_nat d) = unat (of_nat (8 * unat v + d) :: 64 word)"
    by (rule arg_cong)
  also have "\<dots> = (8 * unat v + d) mod 2 ^ 64"
    by (simp only: unat_of_nat) simp
  also have "\<dots> = 8 * unat v + d"
    using assms by (intro mod_less) simp
  finally show ?thesis .
qed


subsection \<open>Octal fields\<close>

lemma oct_digits_bound:
  "oct_digits cs v = Some w \<Longrightarrow> unat v < 8 ^ k \<Longrightarrow> k + length cs \<le> 20 \<Longrightarrow> unat w < 8 ^ (k + length cs)"
proof (induction cs v arbitrary: k rule: oct_digits.induct)
  case (1 v)
  then show ?case by simp
next
  case (2 c cs v)
  show ?case
  proof (cases "c = space \<or> c = nul")
    case True
    with 2 have "unat w < 8 ^ k" by auto
    also have "\<dots> \<le> 8 ^ (k + length (c # cs))" by (rule power_increasing) simp_all
    finally show ?thesis .
  next
    case False
    with 2 have d: "48 \<le> byte_of c" "byte_of c \<le> 55"
      and r: "oct_digits cs (push_bit 3 v OR of_nat (byte_of c - 48)) = Some w"
      by (auto split: if_splits)
    have "(8::nat) ^ k \<le> 8 ^ 19" using 2 by (intro power_increasing) auto
    then have "unat v < 2 ^ 61" using 2 by simp
    then have "unat (push_bit 3 v OR of_nat (byte_of c - 48)) = 8 * unat v + (byte_of c - 48)"
      using d by (intro unat_shift_or) auto
    also have "\<dots> < 8 ^ Suc k" using d 2 by simp
    finally have u: "unat (push_bit 3 v OR of_nat (byte_of c - 48)) < 8 ^ Suc k" .
    have "Suc k + length cs \<le> 20" using 2(4) by simp
    from 2(1)[OF False _ r u this] d show ?thesis by simp
  qed
qed

lemma oct_parse_bound:
  assumes "oct_parse f = Some w" and "length f \<le> 20"
  shows "unat w < 8 ^ length f"
proof -
  let ?g = "dropWhile (\<lambda>c. c = space) f"
  have l: "length ?g \<le> length f" by (rule length_dropWhile_le)
  from assms have "unat w < 8 ^ (0 + length ?g)"
    unfolding oct_parse_def using l by (intro oct_digits_bound[where v = 0]) auto
  also have "\<dots> \<le> 8 ^ length f" using l by (simp add: power_increasing)
  finally show ?thesis .
qed

lemma tar_padded_bound:
  assumes "unat sz < 2 ^ 63"
  shows "tar_padded sz = ((unat sz + 511) div 512) * 512"
proof -
  have s: "unat (sz + 511) = unat sz + 511"
    using assms by (simp add: unat_word_ariths)
  have "(unat sz + 511) div 512 * 512 \<le> unat sz + 511" by simp
  then have "(unat sz + 511) div 512 * 512 < 2 ^ 64" using assms by simp
  then show ?thesis
    by (simp add: tar_padded_def unat_word_ariths unat_div s)
qed

subsection \<open>Path safety\<close>

lemma dotdot_skip_slashes:
  "''..'' \<in> set (split_on slash (dropWhile (\<lambda>c. c = slash) r)) \<longleftrightarrow> ''..'' \<in> set (split_on slash r)"
  by (induction r) auto

lemma path_scan_Nil: "path_scan []"
  by (subst path_scan.simps) simp

lemma path_scan_iff:
  "(p \<noteq> [] \<Longrightarrow> hd p \<noteq> slash) \<Longrightarrow> path_scan p \<longleftrightarrow> ''..'' \<notin> set (split_on slash p)"
proof (induction p rule: path_scan.induct)
  case (1 p)
  show ?case
  proof (cases "split_first slash p")
    case None
    then have ns: "slash \<notin> set p" by (simp add: split_first_None)
    then have e: "dropWhile (\<lambda>c. c \<noteq> slash) p = []" by auto
    have "take 2 p = ''..'' \<and> (drop 2 p = [] \<or> hd (drop 2 p) = slash) \<longleftrightarrow> p = ''..''"
    proof (cases "drop 2 p = []")
      case True
      then show ?thesis by auto
    next
      case False
      then have "hd (drop 2 p) \<in> set p" by (meson hd_in_set in_set_dropD)
      then show ?thesis using ns False by auto
    qed
    then have "path_scan p \<longleftrightarrow> p \<noteq> ''..''"
      unfolding path_scan.simps[of p] e by (simp add: path_scan_Nil)
    then show ?thesis using ns by (auto simp: split_on_single)
  next
    case (Some cr)
    then obtain c r where p: "p = c @ slash # r" and nc: "slash \<notin> set c"
      by (cases cr) (auto simp: split_first_Some)
    let ?r = "dropWhile (\<lambda>c. c = slash) r"
    have d: "dropWhile (\<lambda>c. c = slash) (dropWhile (\<lambda>c. c \<noteq> slash) p) = ?r"
    proof -
      have "dropWhile (\<lambda>c. c \<noteq> slash) (c @ slash # r) = slash # r" using nc by (induction c) auto
      then show ?thesis by (simp add: p)
    qed
    have t: "take 2 p = ''..'' \<and> (drop 2 p = [] \<or> hd (drop 2 p) = slash) \<longleftrightarrow> c = ''..''"
    proof (cases c)
      case Nil
      then show ?thesis by (simp add: p)
    next
      case (Cons a c')
      show ?thesis
      proof (cases c')
        case Nil
        then show ?thesis using Cons by (simp add: p)
      next
        case (Cons b c'')
        then show ?thesis using nc \<open>c = a # c'\<close> by (cases c'') (auto simp: p)
      qed
    qed
    have s: "split_on slash p = c # split_on slash r"
      using nc by (simp add: p split_on_append split_on_single)
    have ne: "p \<noteq> []" by (simp add: p)
    show ?thesis
    proof (cases "c = ''..''")
      case True
      then show ?thesis using t ne by (simp add: path_scan.simps[of p] s)
    next
      case False
      have "path_scan ?r \<longleftrightarrow> ''..'' \<notin> set (split_on slash ?r)"
        using 1(1)[OF ne] t False hd_dropWhile[of "\<lambda>c. c = slash" r] by (simp add: d)
      then show ?thesis
        using False ne unfolding path_scan.simps[of p] t d s by (simp add: dotdot_skip_slashes)
    qed
  qed
qed


text \<open>
  C7: \<open>path_is_safe\<close> accepts exactly the non-empty relative paths none of whose
  \<open>/\<close>-separated components is \<open>..\<close>: the byte scan of the source is equivalent to the
  component-wise definition of an archive path that cannot climb.
\<close>

theorem path_is_safe_iff:
  "path_is_safe p \<longleftrightarrow> p \<noteq> [] \<and> hd p \<noteq> slash \<and> ''..'' \<notin> set (split_on slash p)"
  using path_scan_iff[of p] by (auto simp: path_is_safe_def)

lemma padded_ge: "n \<le> (n + 511) div 512 * 512" for n :: nat
proof -
  have "(n + 511) mod 512 < 512" by simp
  then show ?thesis using div_mult_mod_eq[of "n + 511" 512] by linarith
qed

lemma tar_header_bounds:
  assumes "tar_header rest = Inr (Some e)"
  shows "te_padded e = ((unat (te_size e) + 511) div 512) * 512"
    and "te_padded e \<le> length rest - TAR_BLOCK" and "unat (te_size e) < 8 ^ 12"
proof -
  from assms have o: "oct_parse (field (take 512 rest) 124 12) = Some (te_size e)"
    and p: "te_padded e = tar_padded (te_size e)" and le: "te_padded e \<le> length rest - TAR_BLOCK"
    by (auto simp: tar_header_def Let_def split: if_splits option.splits)
  have "length (field (take 512 rest) 124 12) \<le> 12" by (simp add: field_def)
  then have "unat (te_size e) < 8 ^ length (field (take 512 rest) 124 12)"
    by (intro oct_parse_bound[OF o]) simp
  also have "\<dots> \<le> 8 ^ 12" by (rule power_increasing) (simp_all add: field_def)
  finally show b: "unat (te_size e) < 8 ^ 12" .
  then show "te_padded e = ((unat (te_size e) + 511) div 512) * 512"
    by (simp add: p tar_padded_bound)
  show "te_padded e \<le> length rest - TAR_BLOCK" by (rule le)
qed

subsection \<open>Encoder\<close>

lemma length_oct_enc [simp]: "length (oct_enc n v) = n"
  by (induction n arbitrary: v) auto

lemma byte_of_char_of [simp]: "n < 256 \<Longrightarrow> byte_of (char_of n) = n"
  by (simp add: byte_of_def)

lemma oct_digit_step:
  assumes "d < 8" "x < 2 ^ 61"
  shows "push_bit 3 (of_nat x :: 64 word) OR of_nat d = of_nat (8 * x + d)"
proof -
  have "unat (of_nat x :: 64 word) = x" using assms(2) by (simp add: unat_of_nat)
  then have "unat (push_bit 3 (of_nat x :: 64 word) OR of_nat d) = 8 * x + d"
    using assms by (simp add: unat_shift_or)
  also have "\<dots> = unat (of_nat (8 * x + d) :: 64 word)"
    using assms by (simp only: unat_of_nat) simp
  finally show ?thesis by (simp only: word_unat_eq_iff)
qed

lemma oct_digits_enc:
  "v < 8 ^ n \<Longrightarrow> w * 8 ^ n + v < 8 ^ 20 \<Longrightarrow>
   oct_digits (oct_enc n v @ cs) (of_nat w) = oct_digits cs (of_nat (w * 8 ^ n + v))"
proof (induction n arbitrary: v cs)
  case 0
  then show ?case by simp
next
  case (Suc n)
  let ?d = "v mod 8" and ?x = "w * 8 ^ n + v div 8"
  have v: "v div 8 < 8 ^ n" using Suc.prems(1) by simp
  have x: "8 * ?x + ?d = w * 8 ^ Suc n + v" by simp
  then have "?x < 2 ^ 61" using Suc.prems(2) by simp
  then have s: "push_bit 3 (of_nat ?x :: 64 word) OR of_nat ?d = of_nat (w * 8 ^ Suc n + v)"
    using oct_digit_step[of ?d ?x] unfolding x by simp
  have c: "char_of (48 + ?d) \<noteq> space" "char_of (48 + ?d) \<noteq> nul"
    using byte_of_char_of[of "48 + ?d"] by (force simp: byte_of_def)+
  have "oct_digits (oct_enc (Suc n) v @ cs) (of_nat w)
      = oct_digits (char_of (48 + ?d) # cs) (of_nat ?x)"
    using Suc.IH[of "v div 8" "char_of (48 + ?d) # cs"] v x Suc.prems(2) by simp
  also have "\<dots> = oct_digits cs (of_nat (w * 8 ^ Suc n + v))"
  proof -
    have "byte_of (char_of (48 + ?d)) = 48 + ?d" "\<not> 7 < ?d" by (simp, presburger)
    then show ?thesis unfolding oct_digits.simps using c s by simp
  qed
  finally show ?case .
qed


lemma oct_parse_enc:
  assumes "v < 8 ^ n" "n \<le> 20" "0 < n"
  shows "oct_parse (oct_enc n v @ [nul]) = Some (of_nat v)"
proof -
  have h: "hd (oct_enc n v) \<noteq> space \<and> oct_enc n v \<noteq> []" if "0 < n" for n v
    using that
  proof (induction n arbitrary: v)
    case (Suc n)
    have "char_of (48 + v mod 8) \<noteq> space"
      using byte_of_char_of[of "48 + v mod 8"] by (force simp: byte_of_def)
    then show ?case using Suc.IH[of "v div 8"] by (cases "n = 0") simp_all
  qed simp
  have "dropWhile (\<lambda>c. c = space) (oct_enc n v @ [nul]) = oct_enc n v @ [nul]"
    using h[OF assms(3), of v] by (cases "oct_enc n v") simp_all
  moreover have "v < 8 ^ 20"
    using assms(1,2) power_increasing[of n 20 "8::nat"] by (simp add: less_le_trans)
  ultimately show ?thesis
    using oct_digits_enc[of v n 0 "[nul]"] assms(1) by (simp add: oct_parse_def)
qed

lemma length_pad [simp]: "length s \<le> n \<Longrightarrow> length (pad n s) = n"
  by (simp add: pad_def)

lemma cstr_pad: "nul \<notin> set s \<Longrightarrow> cstr (pad n s) = s"
proof -
  assume "nul \<notin> set s"
  then have "takeWhile (\<lambda>c. c \<noteq> nul) (s @ replicate k nul) = s" for k
    by (induction s) (simp_all, cases k, auto)
  then show ?thesis by (simp add: pad_def cstr_def)
qed

lemma length_ustar_header [simp]: "length n \<le> 100 \<Longrightarrow> length (ustar_header n m sz) = 512"
  by (simp add: ustar_header_def)

lemma ustar_header_fields:
  assumes "length n \<le> 100"
  shows "field (ustar_header n m sz) 0 100 = pad 100 n"
    and "field (ustar_header n m sz) 100 8 = oct_enc 7 m @ [nul]"
    and "field (ustar_header n m sz) 124 12 = oct_enc 11 sz @ [nul]"
    and "ustar_header n m sz ! 156 = CHR ''0''"
    and "field (ustar_header n m sz) 257 5 = ''ustar''"
    and "field (ustar_header n m sz) 345 155 = replicate 155 nul"
  using assms by (simp_all add: ustar_header_def field_def nth_append nth_Cons')

lemma tar_header_member:
  assumes "archivable m"
  shows "tar_header (ustar_member m @ rest) = Inr (Some
     \<lparr>te_type = CHR ''0'', te_path = fst m, te_mode = 420, te_size = of_nat (length (snd m)),
      te_padded = (length (snd m) + 511) div 512 * 512\<rparr>)"
proof -
  let ?h = "ustar_header (fst m) 420 (length (snd m))"
  let ?p = "(length (snd m) + 511) div 512 * 512"
  from assms have l: "length (fst m) \<le> 100" and sz: "length (snd m) < 8 ^ 11" and nn: "nul \<notin> set (fst m)"
    and ne: "fst m \<noteq> []" and s: "strip_dot_slash (fst m) = fst m"
    by (auto simp: archivable_def path_is_safe_def)
  have hdr: "take 512 (ustar_member m @ rest) = ?h"
    using l by (simp add: ustar_member_def)
  have nz: "\<not> list_all (\<lambda>c. c = nul) (pad 100 (fst m))"
    using ne nn by (cases "fst m") (auto simp: pad_def)
  have u: "unat (of_nat (length (snd m)) :: 64 word) = length (snd m)"
    using sz by (simp add: unat_of_nat)
  then have pd: "tar_padded (of_nat (length (snd m))) = ?p"
    using sz by (simp add: tar_padded_bound)
  have bp: "build_path ?h = Some (fst m)"
    using l nn by (simp add: build_path_def ustar_header_fields cstr_pad) (simp add: cstr_def)
  have lr: "length (ustar_member m @ rest) - 512 = ?p + length rest"
    using l padded_ge[of "length (snd m)"] by (simp add: ustar_member_def)
  show ?thesis
    unfolding tar_header_def Let_def hdr lr
    using l nz sz s oct_parse_enc[of "length (snd m)" 11] oct_parse_enc[of 420 7]
    by (simp add: ustar_header_fields magic_ok_def pd bp del: mult_le_mono)
qed

lemma ustar_member_parts:
  assumes "archivable m"
  shows "unat (of_nat (length (snd m)) :: 64 word) = length (snd m)"
    and "length (ustar_member m) = 512 + (length (snd m) + 511) div 512 * 512"
    and "\<not> block_is_zero (ustar_member m @ rest)"
    and "take (length (snd m)) (drop 512 (ustar_member m @ rest)) = snd m"
    and "drop (512 + (length (snd m) + 511) div 512 * 512) (ustar_member m @ rest) = rest"
proof -
  let ?p = "(length (snd m) + 511) div 512 * 512"
  from assms have l: "length (fst m) \<le> 100" and sz: "length (snd m) < 8 ^ 11" and nn: "nul \<notin> set (fst m)"
    and ne: "fst m \<noteq> []"
    by (auto simp: archivable_def path_is_safe_def)
  show "unat (of_nat (length (snd m)) :: 64 word) = length (snd m)" using sz by (simp add: unat_of_nat)
  show lm: "length (ustar_member m) = 512 + ?p"
    using l padded_ge[of "length (snd m)"] by (simp add: ustar_member_def)
  show "\<not> block_is_zero (ustar_member m @ rest)"
    using ne nn l by (cases "fst m") (auto simp: block_is_zero_def ustar_member_def ustar_header_def pad_def)
  show "take (length (snd m)) (drop 512 (ustar_member m @ rest)) = snd m"
    using l by (simp add: ustar_member_def pad_def)
  show "drop (512 + ?p) (ustar_member m @ rest) = rest" using lm by simp
qed

lemma tar_find_walk_member:
  assumes "archivable m"
  shows "tar_find_walk (ustar_member m @ rest) z name =
     (if fst m = name then Inr (Some (snd m)) else tar_find_walk rest 0 name)"
proof -
  have sf: "path_is_safe (fst m)" using assms by (simp add: archivable_def)
  have h: "handled_type CHR ''0''" by (simp add: handled_type_def)
  show ?thesis
    by (subst tar_find_walk.simps)
      (simp add: ustar_member_parts[OF assms] tar_header_member[OF assms] h sf del: drop_append take_append)
qed

lemma block_is_zero_replicate: "block_is_zero (replicate n nul)"
  by (simp add: block_is_zero_def list_all_iff)

lemma tar_find_walk_end: "tar_find_walk (replicate 1024 nul) z name = Inr None"
  by (subst tar_find_walk.simps, subst tar_find_walk.simps) (simp add: block_is_zero_replicate)

lemma tar_find_walk_bounds:
  "tar_find_walk rest z name = Inr (Some d) \<Longrightarrow>
   \<exists>off e. 512 dvd off \<and> tar_header (drop off rest) = Inr (Some e) \<and>
     off + 512 + unat (te_size e) \<le> length rest \<and> te_path e = name \<and> path_is_safe name \<and>
     d = take (unat (te_size e)) (drop (off + 512) rest)"
proof (induction rest z name rule: tar_find_walk.induct)
  case (1 rest z name)
  show ?case
  proof (cases "length rest < 512 \<or> block_is_zero rest")
    case True
    with 1(3) have z: "block_is_zero rest" "512 \<le> length rest" "\<not> z + 1 \<ge> 2"
      and w: "tar_find_walk (drop 512 rest) (z + 1) name = Inr (Some d)"
      by (auto simp: tar_find_walk.simps[of rest] split: if_splits)
    have "\<not> length rest < 512" using z(2) by simp
    from 1(1)[OF this z(1) z(3) w] obtain off e where "512 dvd off"
      "tar_header (drop off (drop 512 rest)) = Inr (Some e)"
      "off + 512 + unat (te_size e) \<le> length (drop 512 rest)" "te_path e = name" "path_is_safe name"
      "d = take (unat (te_size e)) (drop (off + 512) (drop 512 rest))"
      by blast
    then show ?thesis using z(2)
      by (intro exI[of _ "off + 512"] exI[of _ e]) (auto simp: add.commute)
  next
    case False
    then obtain e where h: "tar_header rest = Inr (Some e)"
      using 1(3) by (auto simp: tar_find_walk.simps[of rest] split: sum.splits option.splits)
    note b = tar_header_bounds[OF h]
    have l512: "512 \<le> length rest" using False by simp
    have len: "512 + unat (te_size e) \<le> length rest"
      using l512 b(1,2) padded_ge[of "unat (te_size e)"] by linarith
    show ?thesis
    proof (cases "handled_type (te_type e) \<and> te_type e \<noteq> CHR ''5'' \<and> te_path e = name")
      case True
      then have "path_is_safe name" "d = take (unat (te_size e)) (drop 512 rest)"
        using 1(3) False h by (auto simp: tar_find_walk.simps[of rest] split: if_splits)
      then show ?thesis using h len True by (intro exI[of _ 0] exI[of _ e]) simp
    next
      case nf: False
      then have s: "\<not> (handled_type (te_type e) \<and> \<not> path_is_safe (te_path e))"
        and w: "tar_find_walk (drop (512 + te_padded e) rest) 0 name = Inr (Some d)"
        using 1(3) False h by (auto simp: tar_find_walk.simps[of rest] split: if_splits)
      have p: "512 dvd te_padded e" "512 + te_padded e \<le> length rest"
        using b False by auto
      from False have "\<not> length rest < 512" "\<not> block_is_zero rest" by simp_all
      from 1(2)[OF this h refl s nf w] obtain off f where "512 dvd off"
        "tar_header (drop off (drop (512 + te_padded e) rest)) = Inr (Some f)"
        "off + 512 + unat (te_size f) \<le> length (drop (512 + te_padded e) rest)" "te_path f = name"
        "path_is_safe name" "d = take (unat (te_size f)) (drop (off + 512) (drop (512 + te_padded e) rest))"
        by blast
      then show ?thesis using p
        by (intro exI[of _ "off + (512 + te_padded e)"] exI[of _ f])
          (auto simp: ac_simps)
    qed
  qed
qed

text \<open>
  C8: every hit of \<open>tar_find_mem\<close> lies inside the archive: the returned data is the
  full \<open>size\<close> bytes after a header at a multiple of 512, the read ends within the buffer
  (the 64-bit padding computation cannot wrap around the bound check), and the matched path
  is safe.
\<close>

theorem tar_find_in_bounds:
  assumes "tar_find_mem b name = Inr (Some d)"
  shows "\<exists>off e. 512 dvd off \<and> tar_header (drop off b) = Inr (Some e) \<and>
     off + 512 + length d \<le> length b \<and> length d = unat (te_size e) \<and>
     te_path e = strip_dot_slash name \<and> path_is_safe (te_path e) \<and>
     d = take (length d) (drop (off + 512) b)"
proof -
  from tar_find_walk_bounds[OF assms[unfolded tar_find_mem_def]] obtain off e where
    w: "512 dvd off" "tar_header (drop off b) = Inr (Some e)"
      "off + 512 + unat (te_size e) \<le> length b" "te_path e = strip_dot_slash name"
      "path_is_safe (strip_dot_slash name)" "d = take (unat (te_size e)) (drop (off + 512) b)"
    by blast
  then have "length d = unat (te_size e)" by simp
  with w show ?thesis by (intro exI[of _ off] exI[of _ e]) simp
qed



lemma archivable_example: "archivable (''manifest'', ''id=x'')"
  by (simp add: archivable_def path_is_safe_def path_scan_iff strip_dot_slash_def)

lemma example_archive_find:
  "tar_find_mem (ustar_archive [(''manifest'', ''id=x'')]) ''./manifest'' = Inr (Some ''id=x'')"
proof -
  have "tar_find_walk (ustar_archive [(''manifest'', ''id=x'')]) 0 ''manifest'' = Inr (Some ''id=x'')"
    using tar_find_walk_member[OF archivable_example] by (simp add: ustar_archive_def)
  then show ?thesis by (simp add: tar_find_mem_def strip_dot_slash_def)
qed

theorem tar_find_in_bounds_witness:
  "\<exists>off e. 512 dvd off \<and>
     tar_header (drop off (ustar_archive [(''manifest'', ''id=x'')])) = Inr (Some e) \<and>
     off + 512 + length ''id=x'' \<le> length (ustar_archive [(''manifest'', ''id=x'')]) \<and>
     length ''id=x'' = unat (te_size e)"
  using tar_find_in_bounds[OF example_archive_find] by blast


end
