(* ===== verification/Posix.thy ===== *)
theory Posix
  imports C_Prelude "HOL-Library.AList"
begin

text \<open>
  The operating-system interface the programs run on: a file system and the system calls the
  sources make, as POSIX documents them.  A file system maps resolved paths (lists of component
  names) to nodes; it is an association list, so that a directory can be listed.  A program is
  a function of the world to a result or an error number and the next world.

  Failures are part of the world: a schedule gives, for each system call in turn, whether it is
  served, fails with \<open>EIO\<close> and no effect, or (for \<open>write\<close>) transfers fewer bytes.  A crash
  after \<open>k\<close> system calls is the schedule that fails everything from the \<open>k\<close>-th on, since
  nothing after that point reaches the disk; a theorem over all schedules therefore speaks of every
  crash point.  Effects are taken to be durable in the order they are made.

  The Hoare triples \<open>valid F P m Q E\<close> say that from a file system with \<open>P\<close> and under a
  schedule with faults in \<open>F\<close> only, the program \<open>m\<close> returns with \<open>Q\<close> or fails with \<open>E\<close>.
\<close>

section \<open>Definitions\<close>

subsection \<open>Paths\<close>

type_synonym fpath = "string list"

definition path_step :: "fpath \<Rightarrow> string \<Rightarrow> fpath" where
  "path_step acc c = (if c = [] \<or> c = ''.'' then acc else if c = ''..'' then butlast acc else acc @ [c])"

text \<open>The components a path string names; relative paths start at the root.\<close>

definition resolve :: "string \<Rightarrow> fpath" where
  "resolve s = foldl path_step [] (split_on slash s)"

definition valid_name :: "string \<Rightarrow> bool" where
  "valid_name n \<longleftrightarrow> n \<noteq> [] \<and> slash \<notin> set n \<and> nul \<notin> set n \<and> n \<noteq> ''.'' \<and> n \<noteq> ''..''"

subsection \<open>File systems\<close>

datatype node = Dir | Reg (content: buf) (fmode: nat) | Special

type_synonym fsys = "(fpath \<times> node) list"

datatype errno = ENOENT | EEXIST | ENOTDIR | EISDIR | ENOTEMPTY | EIO | EINVAL

definition wf_fs :: "fsys \<Rightarrow> bool" where
  "wf_fs s \<longleftrightarrow> map_of s [] = Some Dir \<and>
     (\<forall>(p, n) \<in> set s. list_all valid_name p \<and> (p \<noteq> [] \<longrightarrow> map_of s (butlast p) = Some Dir))"

definition file_at :: "fsys \<Rightarrow> fpath \<Rightarrow> buf option" where
  "file_at s p = (case map_of s p of Some (Reg c m) \<Rightarrow> Some c | _ \<Rightarrow> None)"

definition children :: "fsys \<Rightarrow> fpath \<Rightarrow> string list" where
  "children s p = map last (filter (\<lambda>q. q \<noteq> [] \<and> butlast q = p) (remdups (map fst s)))"

text \<open>The error of walking to the parent of a path: the first ancestor that is not a directory.\<close>

definition walk_err :: "fsys \<Rightarrow> fpath \<Rightarrow> errno option" where
  "walk_err s p =
     (case filter (\<lambda>q. map_of s q \<noteq> Some Dir) (map (\<lambda>n. take n p) [0..<length p]) of
        [] \<Rightarrow> None
      | q # qs \<Rightarrow> Some (if map_of s q = None then ENOENT else ENOTDIR))"

definition fs_find :: "string \<Rightarrow> fsys \<Rightarrow> errno + node" where
  "fs_find path s =
     (case walk_err s (resolve path) of
        Some e \<Rightarrow> Inl e
      | None \<Rightarrow> (case map_of s (resolve path) of
          None \<Rightarrow> Inl ENOENT
        | Some n \<Rightarrow> if path \<noteq> [] \<and> last path = slash \<and> n \<noteq> Dir then Inl ENOTDIR else Inr n))"

definition fs_lstat :: "string \<Rightarrow> fsys \<Rightarrow> (errno + node) \<times> fsys" where
  "fs_lstat path s = (fs_find path s, s)"

definition fs_mkdir :: "string \<Rightarrow> fsys \<Rightarrow> (errno + unit) \<times> fsys" where
  "fs_mkdir path s =
     (let p = resolve path in
      case walk_err s p of
        Some e \<Rightarrow> (Inl e, s)
      | None \<Rightarrow> if map_of s p \<noteq> None then (Inl EEXIST, s) else (Inr (), AList.update p Dir s))"

definition fs_unlink :: "string \<Rightarrow> fsys \<Rightarrow> (errno + unit) \<times> fsys" where
  "fs_unlink path s =
     (case fs_find path s of
        Inl e \<Rightarrow> (Inl e, s)
      | Inr Dir \<Rightarrow> (Inl EISDIR, s)
      | Inr _ \<Rightarrow> (Inr (), AList.delete (resolve path) s))"

definition fs_rmdir :: "string \<Rightarrow> fsys \<Rightarrow> (errno + unit) \<times> fsys" where
  "fs_rmdir path s =
     (case fs_find path s of
        Inl e \<Rightarrow> (Inl e, s)
      | Inr Dir \<Rightarrow> if resolve path = [] then (Inl EINVAL, s)
                else if children s (resolve path) \<noteq> [] then (Inl ENOTEMPTY, s)
                else (Inr (), AList.delete (resolve path) s)
      | Inr _ \<Rightarrow> (Inl ENOTDIR, s))"

text \<open>\<open>rename\<close> of a file; the sources never rename a directory.\<close>

definition fs_rename :: "string \<Rightarrow> string \<Rightarrow> fsys \<Rightarrow> (errno + unit) \<times> fsys" where
  "fs_rename src dst s =
     (case fs_find src s of
        Inl e \<Rightarrow> (Inl e, s)
      | Inr Dir \<Rightarrow> (Inl EINVAL, s)
      | Inr n \<Rightarrow>
         (case walk_err s (resolve dst) of
            Some e \<Rightarrow> (Inl e, s)
          | None \<Rightarrow>
             if map_of s (resolve dst) = Some Dir then (Inl EISDIR, s)
             else if dst \<noteq> [] \<and> last dst = slash then (Inl ENOTDIR, s)
             else if resolve src = resolve dst then (Inr (), s)
             else (Inr (), AList.update (resolve dst) n (AList.delete (resolve src) s))))"

text \<open>
  \<open>open (path, O_WRONLY | O_CREAT | O_TRUNC, mode)\<close>: an existing file is emptied and keeps its
  mode.  A descriptor is the resolved path of the file it is open on.  Opening a special file is
  refused: the sources open regular files only.
\<close>

definition fs_open_trunc :: "string \<Rightarrow> nat \<Rightarrow> fsys \<Rightarrow> (errno + fpath) \<times> fsys" where
  "fs_open_trunc path mode s =
     (let p = resolve path in
      case walk_err s p of
        Some e \<Rightarrow> (Inl e, s)
      | None \<Rightarrow> if path \<noteq> [] \<and> last path = slash then (Inl EISDIR, s) else
         (case map_of s p of
            None \<Rightarrow> (Inr p, AList.update p (Reg [] mode) s)
          | Some (Reg c m) \<Rightarrow> (Inr p, AList.update p (Reg [] m) s)
          | Some Dir \<Rightarrow> (Inl EISDIR, s)
          | Some Special \<Rightarrow> (Inl EINVAL, s)))"

text \<open>\<open>open (path, O_WRONLY | O_APPEND)\<close>.\<close>

definition fs_open_append :: "string \<Rightarrow> fsys \<Rightarrow> (errno + fpath) \<times> fsys" where
  "fs_open_append path s =
     (case fs_find path s of
        Inl e \<Rightarrow> (Inl e, s)
      | Inr Dir \<Rightarrow> (Inl EISDIR, s)
      | Inr Special \<Rightarrow> (Inl EINVAL, s)
      | Inr (Reg c m) \<Rightarrow> (Inr (resolve path), s))"

text \<open>\<open>open (path, O_RDONLY)\<close> or \<open>fopen (path, "r")\<close>, with the bytes and mode it gives access to.\<close>

definition fs_open_read :: "string \<Rightarrow> fsys \<Rightarrow> (errno + buf \<times> nat) \<times> fsys" where
  "fs_open_read path s =
     (case fs_find path s of
        Inl e \<Rightarrow> (Inl e, s)
      | Inr Dir \<Rightarrow> (Inl EISDIR, s)
      | Inr Special \<Rightarrow> (Inl EINVAL, s)
      | Inr (Reg c m) \<Rightarrow> (Inr (c, m), s))"

text \<open>\<open>opendir\<close>, with the names \<open>readdir\<close> will give.\<close>

definition fs_opendir :: "string \<Rightarrow> fsys \<Rightarrow> (errno + string list) \<times> fsys" where
  "fs_opendir path s =
     (case fs_find path s of
        Inl e \<Rightarrow> (Inl e, s)
      | Inr Dir \<Rightarrow> (Inr (children s (resolve path)), s)
      | Inr _ \<Rightarrow> (Inl ENOTDIR, s))"

text \<open>A write on a descriptor whose file has been unlinked changes nothing that has a name.\<close>

definition fs_append :: "fpath \<Rightarrow> buf \<Rightarrow> fsys \<Rightarrow> fsys" where
  "fs_append p d s =
     (case map_of s p of Some (Reg c m) \<Rightarrow> AList.update p (Reg (c @ d) m) s | _ \<Rightarrow> s)"

subsection \<open>Worlds and programs\<close>

datatype fault = NoFault | Fail | Short nat

record world =
  fs :: fsys
  sched :: "nat \<Rightarrow> fault"

type_synonym 'a io = "world \<Rightarrow> (errno + 'a) \<times> world"

definition ret :: "'a \<Rightarrow> 'a io" where
  "ret x w = (Inr x, w)"

definition throw :: "errno \<Rightarrow> 'a io" where
  "throw e w = (Inl e, w)"

text \<open>\<open>if (f () != 0) return -1; ...\<close>\<close>

definition andthen :: "'a io \<Rightarrow> ('a \<Rightarrow> 'b io) \<Rightarrow> 'b io" where
  "andthen m f w = (case m w of (Inl e, w1) \<Rightarrow> (Inl e, w1) | (Inr x, w1) \<Rightarrow> f x w1)"

text \<open>\<open>if (f () != 0 && errno ...)\<close>\<close>

definition handle :: "'a io \<Rightarrow> (errno \<Rightarrow> 'a io) \<Rightarrow> 'a io" where
  "handle m h w = (case m w of (Inl e, w1) \<Rightarrow> h e w1 | (Inr x, w1) \<Rightarrow> (Inr x, w1))"

definition ignore :: "'a io \<Rightarrow> unit io" where
  "ignore m w = (case m w of (r, w1) \<Rightarrow> (Inr (), w1))"

text \<open>Clean-up on failure: \<open>if (rc != 0) cleanup (); return rc;\<close>\<close>

definition on_fail :: "'a io \<Rightarrow> unit io \<Rightarrow> 'a io" where
  "on_fail m c = handle m (\<lambda>e. andthen (ignore c) (\<lambda>u. throw e))"

text \<open>\<open>if (!f) return errno == ENOENT ? ... : -1\<close>: a missing file is not a failure.\<close>

definition optional :: "'a io \<Rightarrow> 'a option io" where
  "optional m = handle (andthen m (\<lambda>x. ret (Some x))) (\<lambda>e. if e = ENOENT then ret None else throw e)"

definition succeeds :: "'a io \<Rightarrow> bool io" where
  "succeeds m = handle (andthen m (\<lambda>x. ret True)) (\<lambda>e. ret False)"

definition require :: "bool \<Rightarrow> unit io" where
  "require b = (if b then ret () else throw EINVAL)"

lemma andthen_cong [fundef_cong]:
  assumes "m w = m' w'" "\<And>x w1. m' w' = (Inr x, w1) \<Longrightarrow> f x w1 = f' x w1"
  shows "andthen m f w = andthen m' f' w'"
  using assms by (auto simp: andthen_def split: prod.split sum.split)

lemma handle_cong [fundef_cong]:
  assumes "m w = m' w'" "\<And>e w1. m' w' = (Inl e, w1) \<Longrightarrow> h e w1 = h' e w1"
  shows "handle m h w = handle m' h' w'"
  using assms by (auto simp: handle_def split: prod.split sum.split)

fun each :: "('a \<Rightarrow> unit io) \<Rightarrow> 'a list \<Rightarrow> unit io" where
  "each f [] = ret ()"
| "each f (x # xs) = andthen (f x) (\<lambda>u. each f xs)"

definition next_step :: "world \<Rightarrow> world" where
  "next_step w = w\<lparr>sched := \<lambda>n. sched w (Suc n)\<rparr>"

definition syscall :: "(fsys \<Rightarrow> (errno + 'a) \<times> fsys) \<Rightarrow> 'a io" where
  "syscall f w =
     (if sched w 0 = Fail then (Inl EIO, next_step w)
      else (case f (fs w) of (r, s) \<Rightarrow> (r, (next_step w)\<lparr>fs := s\<rparr>)))"

definition sys_write :: "fpath \<Rightarrow> buf \<Rightarrow> nat io" where
  "sys_write p d w =
     (case sched w 0 of
        Fail \<Rightarrow> (Inl EIO, next_step w)
      | NoFault \<Rightarrow> (Inr (length d), (next_step w)\<lparr>fs := fs_append p d (fs w)\<rparr>)
      | Short k \<Rightarrow> (Inr (min k (length d)), (next_step w)\<lparr>fs := fs_append p (take k d) (fs w)\<rparr>))"

abbreviation sys_lstat :: "string \<Rightarrow> node io" where "sys_lstat p \<equiv> syscall (fs_lstat p)"
abbreviation sys_mkdir :: "string \<Rightarrow> unit io" where "sys_mkdir p \<equiv> syscall (fs_mkdir p)"
abbreviation sys_unlink :: "string \<Rightarrow> unit io" where "sys_unlink p \<equiv> syscall (fs_unlink p)"
abbreviation sys_rmdir :: "string \<Rightarrow> unit io" where "sys_rmdir p \<equiv> syscall (fs_rmdir p)"
abbreviation sys_rename :: "string \<Rightarrow> string \<Rightarrow> unit io" where
  "sys_rename a b \<equiv> syscall (fs_rename a b)"
abbreviation sys_open_trunc :: "string \<Rightarrow> nat \<Rightarrow> fpath io" where
  "sys_open_trunc p m \<equiv> syscall (fs_open_trunc p m)"
abbreviation sys_open_append :: "string \<Rightarrow> fpath io" where
  "sys_open_append p \<equiv> syscall (fs_open_append p)"
abbreviation sys_open_read :: "string \<Rightarrow> (buf \<times> nat) io" where
  "sys_open_read p \<equiv> syscall (fs_open_read p)"
abbreviation sys_opendir :: "string \<Rightarrow> string list io" where
  "sys_opendir p \<equiv> syscall (fs_opendir p)"

text \<open>A call with no effect on the file system that may fail: \<open>fsync\<close>, \<open>close\<close>, \<open>read\<close>, \<open>fstat\<close>.\<close>

abbreviation sys_quiet :: "unit io" where "sys_quiet \<equiv> syscall (\<lambda>s. (Inr (), s))"

text \<open>\<open>write (fd, d, n) == n\<close>, a record written by a single call.\<close>

definition write_once :: "fpath \<Rightarrow> buf \<Rightarrow> unit io" where
  "write_once p d = andthen (sys_write p d) (\<lambda>n. require (n = length d))"

text \<open>The loop that writes a whole buffer; a transfer of no bytes is a failure.\<close>

function write_all :: "fpath \<Rightarrow> buf \<Rightarrow> world \<Rightarrow> (errno + unit) \<times> world" where
  "write_all p d w =
     (if d = [] then (Inr (), w)
      else (case sys_write p d w of
              (Inl e, w1) \<Rightarrow> (Inl e, w1)
            | (Inr n, w1) \<Rightarrow> if n = 0 then (Inl EIO, w1) else write_all p (drop n d) w1))"
  by pat_completeness auto
termination
  by (relation "measure (\<lambda>(p, d, w). length d)") auto

declare write_all.simps [simp del]

text \<open>A read loop with a buffer of \<open>n\<close> bytes: the chunks it gets.\<close>

function chunks :: "nat \<Rightarrow> buf \<Rightarrow> buf list" where
  "chunks n b = (if b = [] \<or> n = 0 then [] else take n b # chunks n (drop n b))"
  by pat_completeness auto
termination
  by (relation "measure (\<lambda>(n, b). length b)") auto

declare chunks.simps [simp del]

text \<open>The faults a schedule may hold; a fault-free world; the world after the faults are over.\<close>

definition within :: "fault set \<Rightarrow> world \<Rightarrow> bool" where
  "within F w \<longleftrightarrow> (\<forall>n. sched w n \<in> F)"

abbreviation no_faults :: "fault set" where "no_faults \<equiv> {NoFault}"
abbreviation whole_faults :: "fault set" where "whole_faults \<equiv> {NoFault, Fail}"

definition no_short :: "fault set \<Rightarrow> bool" where
  "no_short F \<longleftrightarrow> (\<forall>k. Short k \<notin> F)"

definition calmed :: "world \<Rightarrow> world" where
  "calmed w = w\<lparr>sched := \<lambda>n. NoFault\<rparr>"

text \<open>The schedule of a crash after \<open>k\<close> system calls.\<close>

definition crash_after :: "nat \<Rightarrow> nat \<Rightarrow> fault" where
  "crash_after k n = (if n < k then NoFault else Fail)"

definition valid ::
  "fault set \<Rightarrow> (fsys \<Rightarrow> bool) \<Rightarrow> 'a io \<Rightarrow> ('a \<Rightarrow> fsys \<Rightarrow> bool) \<Rightarrow> (errno \<Rightarrow> fsys \<Rightarrow> bool) \<Rightarrow> bool" where
  "valid F P m Q E \<longleftrightarrow>
     (\<forall>w. P (fs w) \<longrightarrow> within F w \<longrightarrow>
        (case m w of (r, w1) \<Rightarrow>
           within F w1 \<and> (case r of Inr x \<Rightarrow> Q x (fs w1) | Inl e \<Rightarrow> E e (fs w1))))"

section \<open>Hoare triples\<close>

named_theorems hoare "rules of the triples over programs"

lemma within_next_step [simp]: "within F w \<Longrightarrow> within F (next_step w)"
  by (simp add: within_def next_step_def)

lemma within_fs_update [simp]: "within F (w\<lparr>fs := s\<rparr>) = within F w"
  by (simp add: within_def)

lemma fs_next_step [simp]: "fs (next_step w) = fs w"
  by (simp add: next_step_def)

lemma within_calmed [simp]: "within no_faults (calmed w)" "fs (calmed w) = fs w"
  by (simp_all add: within_def calmed_def)

lemma no_short_sets [simp]: "no_short no_faults" "no_short whole_faults"
  by (simp_all add: no_short_def)

lemma validI:
  assumes "\<And>w r w1. P (fs w) \<Longrightarrow> within F w \<Longrightarrow> m w = (r, w1) \<Longrightarrow>
     within F w1 \<and> (case r of Inr x \<Rightarrow> Q x (fs w1) | Inl e \<Rightarrow> E e (fs w1))"
  shows "valid F P m Q E"
  using assms unfolding valid_def by (auto split: prod.split)

lemma valid_run:
  assumes "valid F P m Q E" "P (fs w)" "within F w" "m w = (r, w1)"
  shows "within F w1 \<and> (case r of Inr x \<Rightarrow> Q x (fs w1) | Inl e \<Rightarrow> E e (fs w1))"
proof -
  have "P (fs w) \<longrightarrow> within F w \<longrightarrow> (case m w of (r, w1) \<Rightarrow>
      within F w1 \<and> (case r of Inr x \<Rightarrow> Q x (fs w1) | Inl e \<Rightarrow> E e (fs w1)))"
    using assms(1) unfolding valid_def by (rule spec)
  then show ?thesis using assms(2-4) by auto
qed

lemma validD:
  assumes "valid F P m Q E" "P (fs w)" "within F w" "m w = (r, w1)"
  shows "within F w1" and "r = Inr x \<Longrightarrow> Q x (fs w1)" and "r = Inl e \<Longrightarrow> E e (fs w1)"
  using valid_run[OF assms] by auto

lemma valid_conseq:
  assumes v: "valid F P m Q E" and "\<And>s. P' s \<Longrightarrow> P s" "\<And>x s. Q x s \<Longrightarrow> Q' x s" "\<And>e s. E e s \<Longrightarrow> E' e s"
  shows "valid F P' m Q' E'"
proof (rule validI)
  fix w r w1
  assume "P' (fs w)" "within F w" "m w = (r, w1)"
  then show "within F w1 \<and> (case r of Inr x \<Rightarrow> Q' x (fs w1) | Inl e \<Rightarrow> E' e (fs w1))"
    using valid_run[OF v, of w r w1] assms(2-4) by (auto split: sum.splits)
qed

lemma valid_pre: "valid F P m Q E \<Longrightarrow> (\<And>s. P' s \<Longrightarrow> P s) \<Longrightarrow> valid F P' m Q E"
  by (erule valid_conseq)

lemma valid_pull: "(b \<Longrightarrow> valid F P m Q E) \<Longrightarrow> valid F (\<lambda>s. b \<and> P s) m Q E"
  by (rule validI) (auto dest: valid_run)

lemma valid_ex: "(\<And>x. valid F (P x) m Q E) \<Longrightarrow> valid F (\<lambda>s. \<exists>x. P x s) m Q E"
  by (rule validI) (blast dest: valid_run)

lemma valid_pointwise: "(\<And>s0. P s0 \<Longrightarrow> valid F (\<lambda>s. s = s0) m Q E) \<Longrightarrow> valid F P m Q E"
  by (rule validI) (drule_tac x = "fs w" in meta_spec, drule meta_mp, assumption, erule valid_run, auto)

lemma valid_conj:
  assumes "valid F P m Q E" "valid F P' m Q' E'"
  shows "valid F (\<lambda>s. P s \<and> P' s) m (\<lambda>x s. Q x s \<and> Q' x s) (\<lambda>e s. E e s \<and> E' e s)"
proof (rule validI)
  fix w r w1
  assume "P (fs w) \<and> P' (fs w)" "within F w" "m w = (r, w1)"
  then show "within F w1 \<and> (case r of Inr x \<Rightarrow> Q x (fs w1) \<and> Q' x (fs w1) | Inl e \<Rightarrow> E e (fs w1) \<and> E' e (fs w1))"
    using valid_run[OF assms(1), of w r w1] valid_run[OF assms(2), of w r w1] by (auto split: sum.splits)
qed

lemma valid_ret [hoare]: "(\<And>s. P s \<Longrightarrow> Q x s) \<Longrightarrow> valid F P (ret x) Q E"
  by (rule validI) (auto simp: ret_def)

lemma valid_throw [hoare]: "(\<And>s. P s \<Longrightarrow> E e s) \<Longrightarrow> valid F P (throw e) Q E"
  by (rule validI) (auto simp: throw_def)

lemma valid_andthen:
  assumes "valid F P m R E" "\<And>x. valid F (R x) (f x) Q E"
  shows "valid F P (andthen m f) Q E"
proof (rule validI)
  fix w r w1
  assume p: "P (fs w)" "within F w" and r: "andthen m f w = (r, w1)"
  obtain r0 w0 where m: "m w = (r0, w0)" by fastforce
  note d = validD[OF assms(1) p m]
  show "within F w1 \<and> (case r of Inr x \<Rightarrow> Q x (fs w1) | Inl e \<Rightarrow> E e (fs w1))"
  proof (cases r0)
    case (Inl e)
    then show ?thesis using d r m by (auto simp: andthen_def)
  next
    case (Inr x)
    then have "f x w0 = (r, w1)" "R x (fs w0)" using d r m by (auto simp: andthen_def)
    then show ?thesis
      using validD[OF assms(2)[of x], of w0 r w1] d(1) by (auto split: sum.split)
  qed
qed

lemma valid_handle:
  assumes "valid F P m Q R" "\<And>e. valid F (R e) (h e) Q E"
  shows "valid F P (handle m h) Q E"
proof (rule validI)
  fix w r w1
  assume p: "P (fs w)" "within F w" and r: "handle m h w = (r, w1)"
  obtain r0 w0 where m: "m w = (r0, w0)" by fastforce
  note d = validD[OF assms(1) p m]
  show "within F w1 \<and> (case r of Inr x \<Rightarrow> Q x (fs w1) | Inl e \<Rightarrow> E e (fs w1))"
  proof (cases r0)
    case (Inr x)
    then show ?thesis using d r m by (auto simp: handle_def)
  next
    case (Inl e)
    then have "h e w0 = (r, w1)" "R e (fs w0)" using d r m by (auto simp: handle_def)
    then show ?thesis
      using validD[OF assms(2)[of e], of w0 r w1] d(1) by (auto split: sum.split)
  qed
qed

lemma valid_ignore:
  assumes "valid F P m (\<lambda>_. Q) (\<lambda>_. Q)"
  shows "valid F P (ignore m) (\<lambda>_. Q) E"
proof (rule validI)
  fix w r w1
  assume p: "P (fs w)" "within F w" and r: "ignore m w = (r, w1)"
  then obtain r0 where "m w = (r0, w1)" "r = Inr ()"
    by (auto simp: ignore_def split: prod.splits)
  then show "within F w1 \<and> (case r of Inr x \<Rightarrow> Q (fs w1) | Inl e \<Rightarrow> E e (fs w1))"
    using valid_run[OF assms p, of r0 w1] by (auto split: sum.splits)
qed

lemma valid_on_fail:
  assumes "valid F P m Q R" "\<And>e. valid F (R e) cl (\<lambda>_. E e) (\<lambda>_. E e)"
  shows "valid F P (on_fail m cl) Q E"
  unfolding on_fail_def
  by (rule valid_handle[OF assms(1)], rule valid_andthen[OF valid_ignore[OF assms(2)]])
    (rule valid_throw)

lemma valid_require [hoare]:
  "(\<And>s. P s \<Longrightarrow> if b then Q () s else E EINVAL s) \<Longrightarrow> valid F P (require b) Q E"
  unfolding require_def by (auto intro: valid_ret valid_throw)

lemma valid_optional:
  assumes "valid F P m (\<lambda>x. Q (Some x)) (\<lambda>e s. if e = ENOENT then Q None s else E e s)"
  shows "valid F P (optional m) Q E"
  unfolding optional_def
proof (rule valid_handle)
  show "valid F P (andthen m (\<lambda>x. ret (Some x))) Q (\<lambda>e s. if e = ENOENT then Q None s else E e s)"
    by (rule valid_andthen[OF assms]) (rule valid_ret)
qed (auto intro: valid_ret valid_throw)

lemma valid_succeeds:
  assumes "valid F P m (\<lambda>x. Q True) (\<lambda>e. Q False)"
  shows "valid F P (succeeds m) Q E"
  unfolding succeeds_def
  by (rule valid_handle[where R = "\<lambda>_. Q False"], rule valid_andthen[OF assms]) (auto intro: valid_ret)

lemma valid_if:
  assumes "b \<Longrightarrow> valid F P m Q E" "\<not> b \<Longrightarrow> valid F P m' Q E"
  shows "valid F P (if b then m else m') Q E"
  using assms by auto

lemma valid_syscall:
  assumes "\<And>s. P s \<Longrightarrow> (case f s of (Inr x, s') \<Rightarrow> Q x s' | (Inl e, s') \<Rightarrow> E e s')"
    and "\<And>s. P s \<Longrightarrow> F = no_faults \<or> E EIO s"
  shows "valid F P (syscall f) Q E"
proof (rule validI)
  fix w r w1
  assume p: "P (fs w)" "within F w" and r: "syscall f w = (r, w1)"
  have k: "within F (next_step w)" "F = no_faults \<Longrightarrow> sched w 0 \<noteq> Fail"
    using p(2) by (simp, simp add: within_def)
  show "within F w1 \<and> (case r of Inr x \<Rightarrow> Q x (fs w1) | Inl e \<Rightarrow> E e (fs w1))"
    using r k assms(1)[OF p(1)] assms(2)[OF p(1)]
    by (auto simp: syscall_def split: if_splits prod.splits sum.splits)
qed

lemma valid_write:
  assumes "\<And>s k. P s \<Longrightarrow> k \<le> length d \<Longrightarrow> (no_short F \<Longrightarrow> k = length d) \<Longrightarrow> Q k (fs_append p (take k d) s)"
    and "\<And>s. P s \<Longrightarrow> F = no_faults \<or> E EIO s"
  shows "valid F P (sys_write p d) Q E"
proof (rule validI)
  fix w r w1
  assume p: "P (fs w)" "within F w" and r: "sys_write p d w = (r, w1)"
  have k: "within F (next_step w)" "sched w 0 \<in> F"
    using p(2) by (simp, simp add: within_def)
  show "within F w1 \<and> (case r of Inr x \<Rightarrow> Q x (fs w1) | Inl e \<Rightarrow> E e (fs w1))"
  proof (cases "sched w 0")
    case NoFault
    then show ?thesis using r k assms(1)[OF p(1), of "length d"] by (auto simp: sys_write_def)
  next
    case Fail
    then show ?thesis using r k assms(2)[OF p(1)] by (auto simp: sys_write_def)
  next
    case (Short n)
    then have "\<not> no_short F" using k by (auto simp: no_short_def)
    moreover have "take (min n (length d)) d = take n d" by (simp add: min_def)
    ultimately show ?thesis using Short r k(1) assms(1)[OF p(1), of "min n (length d)"] by (auto simp: sys_write_def)
  qed
qed

lemma valid_write_once:
  assumes "\<And>s k. P s \<Longrightarrow> k \<le> length d \<Longrightarrow> \<not> no_short F \<Longrightarrow> k \<noteq> length d \<Longrightarrow> E EINVAL (fs_append p (take k d) s)"
    and "\<And>s. P s \<Longrightarrow> Q () (fs_append p d s)" and "\<And>s. P s \<Longrightarrow> F = no_faults \<or> E EIO s"
  shows "valid F P (write_once p d) Q E"
  unfolding write_once_def
proof (rule valid_andthen)
  show "valid F P (sys_write p d) (\<lambda>k s. if k = length d then Q () s else E EINVAL s) E"
    using assms by (intro valid_write) auto
qed (rule valid_require, simp)

lemma write_all_unfold:
  "write_all p d = (if d = [] then ret () else
     andthen (sys_write p d) (\<lambda>n. if n = 0 then throw EIO else write_all p (drop n d)))"
proof
  show "write_all p d w = (if d = [] then ret () else
     andthen (sys_write p d) (\<lambda>n. if n = 0 then throw EIO else write_all p (drop n d))) w" for w
    by (subst write_all.simps) (auto simp: ret_def throw_def andthen_def split: prod.split sum.split)
qed

text \<open>\<open>A x\<close> is a property of the file system once \<open>x\<close> has been appended.\<close>

lemma valid_write_all:
  assumes A: "\<And>x y s. A x s \<Longrightarrow> A (x @ y) (fs_append p y s)"
  shows "valid F (A x) (write_all p d) (\<lambda>_. A (x @ d)) (\<lambda>_ s. F \<noteq> no_faults \<and> (\<exists>y. A y s))"
proof (induction d arbitrary: x rule: length_induct)
  case (1 d)
  show ?case
  proof (cases "d = []")
    case True
    then show ?thesis by (subst write_all_unfold) (auto intro: valid_ret)
  next
    case False
    let ?E = "\<lambda>_ s. F \<noteq> no_faults \<and> (\<exists>y. A y s)"
    have "valid F (A x) (sys_write p d)
        (\<lambda>n s. n \<le> length d \<and> (no_short F \<longrightarrow> n = length d) \<and> A (x @ take n d) s) ?E"
      using A by (intro valid_write) auto
    moreover have "valid F (\<lambda>s. n \<le> length d \<and> (no_short F \<longrightarrow> n = length d) \<and> A (x @ take n d) s)
        (if n = 0 then throw EIO else write_all p (drop n d)) (\<lambda>_. A (x @ d)) ?E" for n
    proof (cases "n = 0")
      case True
      then show ?thesis using False by (auto intro!: valid_throw)
    next
      case n: False
      then have "valid F (A (x @ take n d)) (write_all p (drop n d)) (\<lambda>_. A (x @ take n d @ drop n d)) ?E"
        using 1[rule_format, of "drop n d" "x @ take n d"] False by simp
      then show ?thesis using n by (auto elim: valid_pre)
    qed
    ultimately show ?thesis
      using False by (subst write_all_unfold) (auto intro: valid_andthen)
  qed
qed

lemma valid_each:
  assumes "\<And>ys x zs. xs = ys @ x # zs \<Longrightarrow> valid F (I ys) (f x) (\<lambda>_. I (ys @ [x])) E"
  shows "valid F (I []) (each f xs) (\<lambda>_. I xs) E"
proof -
  have "xs = ys @ zs \<Longrightarrow> valid F (I ys) (each f zs) (\<lambda>_. I xs) E" for ys zs
  proof (induction zs arbitrary: ys)
    case Nil
    then show ?case by (auto intro: valid_ret)
  next
    case (Cons z zs)
    then show ?case using assms[of ys z zs] Cons.IH[of "ys @ [z]"] by (auto intro: valid_andthen)
  qed
  from this[of "[]" xs] show ?thesis by simp
qed

section \<open>Facts about paths\<close>

lemma path_step_valid: "valid_name n \<Longrightarrow> path_step acc n = acc @ [n]"
  by (simp add: path_step_def valid_name_def)

lemma resolve_snoc_name: "valid_name n \<Longrightarrow> resolve (d @ slash # n) = resolve d @ [n]"
  by (simp add: resolve_def split_on_append split_on_single path_step_valid valid_name_def)

lemma foldl_path_step:
  "''..'' \<notin> set cs \<Longrightarrow> foldl path_step acc cs = acc @ foldl path_step [] cs"
  by (induction cs rule: rev_induct) (auto simp: path_step_def)

lemma resolve_join:
  "''..'' \<notin> set (split_on slash b) \<Longrightarrow> resolve (a @ slash # b) = resolve a @ resolve b"
  unfolding resolve_def split_on_append foldl_append by (rule foldl_path_step)

lemma resolve_slash [simp]: "resolve (slash # s) = resolve s"
  by (simp add: resolve_def path_step_def)

lemma resolve_name: "valid_name n \<Longrightarrow> resolve n = [n]"
  by (simp add: resolve_def split_on_single path_step_valid valid_name_def)

lemma resolve_valid:
  assumes "nul \<notin> set s"
  shows "list_all valid_name (resolve s)"
proof -
  have "\<forall>c \<in> set cs. nul \<notin> set c \<and> slash \<notin> set c \<Longrightarrow> list_all valid_name (foldl path_step [] cs)" for cs
    by (induction cs rule: rev_induct)
      (auto simp: path_step_def valid_name_def list_all_iff dest: in_set_butlastD)
  then show ?thesis
    using assms split_on_part[of _ slash s] set_split_on_part[of _ slash s] by (auto simp: resolve_def)
qed

section \<open>Facts about file systems\<close>

lemma map_of_key: "map_of s p \<noteq> None \<longleftrightarrow> p \<in> fst ` set s"
  by (simp add: map_of_eq_None_iff)

lemma wf_fsI:
  assumes "map_of s [] = Some Dir"
    and "\<And>p n. map_of s p = Some n \<Longrightarrow> list_all valid_name p"
    and "\<And>p n. map_of s p = Some n \<Longrightarrow> p \<noteq> [] \<Longrightarrow> map_of s (butlast p) = Some Dir"
  shows "wf_fs s"
proof -
  have "\<exists>n'. map_of s p = Some n'" if "(p, n) \<in> set s" for p n
    using that by (meson weak_map_of_SomeI)
  then show ?thesis using assms unfolding wf_fs_def by fast
qed

lemma wf_fsD:
  assumes "wf_fs s"
  shows "map_of s [] = Some Dir"
    and "map_of s p = Some n \<Longrightarrow> list_all valid_name p"
    and "map_of s p = Some n \<Longrightarrow> p \<noteq> [] \<Longrightarrow> map_of s (butlast p) = Some Dir"
  using assms by (auto simp: wf_fs_def dest: map_of_SomeD)

lemma wf_fs_ancestor:
  assumes "wf_fs s" "map_of s p = Some n" "strict_prefix q p"
  shows "map_of s q = Some Dir"
proof -
  have "map_of s p = Some n \<Longrightarrow> \<forall>q. strict_prefix q p \<longrightarrow> map_of s q = Some Dir" for p n
  proof (induction p arbitrary: n rule: rev_induct)
    case Nil
    then show ?case by simp
  next
    case (snoc x p)
    then have "map_of s p = Some Dir" using wf_fsD(3)[OF assms(1) snoc.prems] by simp
    then show ?case using snoc.IH by (auto simp: strict_prefix_def prefix_snoc)
  qed
  then show ?thesis using assms by blast
qed

lemma walk_err_None:
  "walk_err s p = None \<longleftrightarrow> (\<forall>q. strict_prefix q p \<longrightarrow> map_of s q = Some Dir)"
proof -
  have "walk_err s p = None \<longleftrightarrow>
      filter (\<lambda>q. map_of s q \<noteq> Some Dir) (map (\<lambda>n. take n p) [0..<length p]) = []"
    unfolding walk_err_def
    by (cases "filter (\<lambda>q. map_of s q \<noteq> Some Dir) (map (\<lambda>n. take n p) [0..<length p])") simp_all
  also have "\<dots> \<longleftrightarrow> (\<forall>n < length p. map_of s (take n p) = Some Dir)"
    by (auto simp: filter_empty_conv)
  also have "\<dots> \<longleftrightarrow> (\<forall>q. strict_prefix q p \<longrightarrow> map_of s q = Some Dir)"
  proof safe
    fix q assume h: "\<forall>n < length p. map_of s (take n p) = Some Dir" and q: "strict_prefix q p"
    then have "length q < length p" "take (length q) p = q"
      by (auto simp: prefix_length_less strict_prefix_def prefix_def)
    with h show "map_of s q = Some Dir" by metis
  next
    fix n assume h: "\<forall>q. strict_prefix q p \<longrightarrow> map_of s q = Some Dir" and n: "n < length p"
    then have "strict_prefix (take n p) p" by (auto simp: strict_prefix_def take_is_prefix)
    with h show "map_of s (take n p) = Some Dir" by blast
  qed
  finally show ?thesis .
qed

lemma walk_err_present: "wf_fs s \<Longrightarrow> map_of s p = Some n \<Longrightarrow> walk_err s p = None"
  using wf_fs_ancestor by (auto simp: walk_err_None)

lemma walk_err_Some:
  assumes "walk_err s p = Some e"
  shows "map_of s p = None \<or> \<not> wf_fs s" and "e = ENOENT \<or> e = ENOTDIR"
  using assms walk_err_present[of s p]
  by (fastforce, auto simp: walk_err_def split: list.splits if_splits)

lemma children_iff: "n \<in> set (children s p) \<longleftrightarrow> map_of s (p @ [n]) \<noteq> None"
proof -
  have "n \<in> set (children s p) \<longleftrightarrow> (\<exists>q \<in> fst ` set s. q \<noteq> [] \<and> butlast q = p \<and> last q = n)"
    by (auto simp: children_def)
  also have "\<dots> \<longleftrightarrow> p @ [n] \<in> fst ` set s"
    by (metis append_butlast_last_id butlast_snoc last_snoc snoc_eq_iff_butlast)
  finally show ?thesis unfolding map_of_key .
qed

lemma distinct_children: "distinct (children s p)"
  unfolding children_def distinct_map
  by (auto simp: inj_on_def intro!: distinct_filter) (metis append_butlast_last_id)

lemma map_of_update [simp]: "map_of (AList.update p n s) = (map_of s)(p \<mapsto> n)"
  by (rule update_conv')

lemma map_of_delete [simp]: "map_of (AList.delete p s) = (map_of s)(p := None)"
  by (rule delete_conv')

lemma wf_fs_update:
  assumes "wf_fs s" "p \<noteq> []" "list_all valid_name p" "map_of s (butlast p) = Some Dir"
    "map_of s p = Some Dir \<Longrightarrow> n = Dir"
  shows "wf_fs (AList.update p n s)"
proof (rule wf_fsI)
  show "map_of (AList.update p n s) [] = Some Dir"
    using assms(2) wf_fsD(1)[OF assms(1)] by simp
  fix q m assume q: "map_of (AList.update p n s) q = Some m"
  show "list_all valid_name q"
    using q assms(3) wf_fsD(2)[OF assms(1)] by (auto split: if_splits)
  assume "q \<noteq> []"
  then show "map_of (AList.update p n s) (butlast q) = Some Dir"
    using q assms(4,5) wf_fsD(3)[OF assms(1), of q] by (auto split: if_splits)
qed

lemma wf_fs_delete:
  assumes "wf_fs s" "p \<noteq> []" "children s p = [] \<or> map_of s p \<noteq> Some Dir"
  shows "wf_fs (AList.delete p s)"
proof (rule wf_fsI)
  show "map_of (AList.delete p s) [] = Some Dir"
    using assms(2) wf_fsD(1)[OF assms(1)] by simp
  fix q m assume q: "map_of (AList.delete p s) q = Some m"
  then have qs: "map_of s q = Some m" by (auto split: if_splits)
  then show "list_all valid_name q" by (rule wf_fsD(2)[OF assms(1)])
  assume ne: "q \<noteq> []"
  then have d: "map_of s (butlast q) = Some Dir" using qs by (rule wf_fsD(3)[OF assms(1), rotated])
  have "butlast q \<noteq> p"
  proof
    assume e: "butlast q = p"
    then have "last q \<in> set (children s p)" using qs ne by (auto simp: children_iff)
    then show False using assms(3) d e by auto
  qed
  then show "map_of (AList.delete p s) (butlast q) = Some Dir" using d by simp
qed

section \<open>More triples\<close>

lemma valid_quiet:
  assumes "\<And>s. P s \<Longrightarrow> Q () s" "\<And>s. P s \<Longrightarrow> F \<noteq> no_faults \<Longrightarrow> E EIO s"
  shows "valid F P sys_quiet Q E"
  using assms by (intro valid_syscall) auto

lemma valid_quiet_then:
  assumes "valid F P m Q E" "\<And>s. P s \<Longrightarrow> F \<noteq> no_faults \<Longrightarrow> E EIO s"
  shows "valid F P (andthen sys_quiet (\<lambda>u. m)) Q E"
  by (rule valid_andthen[OF valid_quiet, of P "\<lambda>_. P"]) (use assms in auto)

lemma valid_pure:
  "valid F P m Q E \<Longrightarrow> valid F (\<lambda>s. P s \<and> b) m (\<lambda>x s. Q x s \<and> b) (\<lambda>e s. E e s \<and> b)"
  by (cases b) (auto elim: valid_conseq simp: valid_def)

lemma quiet_call:
  assumes "\<And>s. snd (f s) = s"
  shows "valid F P (syscall f) (\<lambda>_. P) (\<lambda>_. P)"
proof (rule valid_syscall)
  fix s assume "P s"
  then show "case f s of (Inr x, s') \<Rightarrow> P s' | (Inl e, s') \<Rightarrow> P s'"
    using assms[of s] by (cases "f s"; cases "fst (f s)") auto
qed auto

lemma valid_optional_keep:
  "valid F P m (\<lambda>_. P) (\<lambda>_. P) \<Longrightarrow> valid F P (optional m) (\<lambda>_. P) (\<lambda>_. P)"
  by (rule valid_optional) (erule valid_conseq, auto)

lemma each_map: "each f (map g xs) = each (\<lambda>x. f (g x)) xs"
  by (induction xs) simp_all

lemma andthen_require_True [simp]: "andthen (require True) f = f ()"
  by (rule ext) (simp add: andthen_def require_def ret_def)

lemma andthen_require_False [simp]: "andthen (require False) f = throw EINVAL"
  by (rule ext) (simp add: andthen_def require_def throw_def)

section \<open>More on file systems\<close>

lemma fs_find_present:
  assumes "wf_fs s" "map_of s (resolve path) = Some n" "n = Dir \<or> last path \<noteq> slash"
  shows "fs_find path s = Inr n"
  using assms walk_err_present[OF assms(1,2)] by (auto simp: fs_find_def)

lemma fs_find_Inr: "fs_find path s = Inr n \<Longrightarrow> map_of s (resolve path) = Some n"
  by (auto simp: fs_find_def split: option.splits if_splits)

lemma walk_err_butlast: "walk_err s p = None \<Longrightarrow> p \<noteq> [] \<Longrightarrow> map_of s (butlast p) = Some Dir"
  unfolding walk_err_None
  by (metis append_butlast_last_id prefixI strict_prefixI append_self_conv not_Cons_self2)

lemma strict_prefix_snoc: "strict_prefix q (p @ [n]) \<longleftrightarrow> prefix q p"
  by (auto simp: strict_prefix_def prefix_snoc)

lemma concat_chunks: "0 < n \<Longrightarrow> concat (chunks n b) = b"
proof (induction n b rule: chunks.induct)
  case (1 n b)
  show ?case
  proof (cases "b = []")
    case False
    then have "chunks n b = take n b # chunks n (drop n b)" using 1(2) by (subst chunks.simps) simp
    then show ?thesis using 1 False by simp
  qed (subst chunks.simps, simp)
qed

lemma file_at_Some: "file_at s p = Some c \<longleftrightarrow> (\<exists>m. map_of s p = Some (Reg c m))"
  by (auto simp: file_at_def split: option.splits node.splits)

lemma strict_prefix_butlast: "p \<noteq> [] \<Longrightarrow> strict_prefix x p \<longleftrightarrow> prefix x (butlast p)"
  by (metis append_butlast_last_id strict_prefix_snoc)

lemma walk_err_ENOENT:
  assumes wf: "wf_fs s" and w: "walk_err s p = Some ENOENT" and x: "strict_prefix x p"
  shows "map_of s x = None \<or> map_of s x = Some Dir"
proof (rule ccontr)
  assume nd: "\<not> (map_of s x = None \<or> map_of s x = Some Dir)"
  let ?ts = "map (\<lambda>n. take n p) [0..<length p]"
  obtain q qs where f: "filter (\<lambda>q. map_of s q \<noteq> Some Dir) ?ts = q # qs" and q: "map_of s q = None"
    using w unfolding walk_err_def by (auto split: list.splits if_splits)
  then obtain us vs where ts: "?ts = us @ q # vs" and us: "\<forall>u \<in> set us. map_of s u = Some Dir"
    by (auto simp: filter_eq_Cons_iff)
  have k: "take (length x) p = x" "length x < length p"
    using x by (auto simp: strict_prefix_def prefix_def)
  have lu: "length us < length p" and qe: "q = take (length us) p"
  proof -
    have "length ?ts = length (us @ q # vs)" by (simp only: ts)
    then show "length us < length p" by simp
    have "?ts ! length us = q" by (simp only: ts) simp
    then show "q = take (length us) p" using \<open>length us < length p\<close> by simp
  qed
  show False
  proof (cases "length x < length us")
    case True
    have "?ts ! length x = us ! length x" by (simp only: ts) (simp add: True nth_append)
    then have "x = us ! length x" using k by simp
    then have "x \<in> set us" using True by (metis nth_mem)
    then show False using us nd by auto
  next
    case False
    then have "q = take (length us) x"
      using qe take_take[of "length us" "length x" p] unfolding k(1) by (simp add: min_absorb1)
    then have "prefix q x" by (simp add: take_is_prefix)
    then have "strict_prefix q x" using nd q by (auto simp: strict_prefix_def)
    then show False using wf_fs_ancestor[OF wf, of x] nd q by (cases "map_of s x") auto
  qed
qed

lemma file_at_append:
  "file_at s p = Some c \<Longrightarrow> file_at (fs_append p d s) p = Some (c @ d)"
  "x \<noteq> p \<Longrightarrow> map_of (fs_append p d s) x = map_of s x"
  by (auto simp: file_at_def fs_append_def split: option.splits node.splits)

end
