(* ===== verification/Herald_Txn.thy ===== *)
theory Herald_Txn
  imports Posix
begin

text \<open>
  The file transactions of herald, \<open>user/bin/herald/transaction.c\<close>, over the system calls of
  \<open>Posix\<close>.  A function of the source that returns 0 or -1 is a program that returns or fails;
  \<open>errno\<close> is the error of the call that failed.  Calls whose result the source ignores and that
  change nothing (\<open>close\<close> of a file read, \<open>closedir\<close>, \<open>sync\<close>) are left out, the
  interrupted calls the source retries are one call, and \<open>readdir\<close> and \<open>fgets\<close> give what
  was there when the directory or file was opened.
\<close>

section \<open>Definitions\<close>

definition HERALD_DB_DIR :: string where "HERALD_DB_DIR = ''/etc/aegis/herald''"
definition HERALD_DB_PATH :: string where "HERALD_DB_PATH = ''/etc/aegis/herald/db''"
definition HERALD_TXN_DIR :: string where "HERALD_TXN_DIR = ''/etc/aegis/herald/transaction''"
definition HERALD_TXN_STAGE :: string where "HERALD_TXN_STAGE = ''/etc/aegis/herald/transaction/stage''"
definition HERALD_UPDATE_PENDING :: string where "HERALD_UPDATE_PENDING = ''/etc/aegis/update/pending''"
definition TXN_BACKUP :: string where "TXN_BACKUP = ''/etc/aegis/herald/transaction/backup''"
definition TXN_STATE :: string where "TXN_STATE = ''/etc/aegis/herald/transaction/state''"
definition TXN_JOURNAL :: string where "TXN_JOURNAL = ''/etc/aegis/herald/transaction/journal''"
definition TXN_DELETE :: string where "TXN_DELETE = ''/etc/aegis/herald/transaction/delete''"
abbreviation TXN_PATH_MAX :: nat where "TXN_PATH_MAX \<equiv> 768"

text \<open>The prefixes of a path that end before a slash, the first byte aside.\<close>

definition slash_prefixes :: "string \<Rightarrow> string list" where
  "slash_prefixes s = map (\<lambda>i. take i s) (filter (\<lambda>i. s ! i = slash) [1..<length s])"

definition mkdir_one :: "string \<Rightarrow> unit io" where
  "mkdir_one p = handle (sys_mkdir p) (\<lambda>e. if e = EEXIST then ret () else throw e)"

definition mkdir_p :: "string \<Rightarrow> unit io" where
  "mkdir_p path =
     andthen (require (length path < TXN_PATH_MAX)) (\<lambda>u.
     andthen (each mkdir_one (slash_prefixes path)) (\<lambda>u.
     mkdir_one path))"

definition last_slash :: "string \<Rightarrow> nat option" where
  "last_slash s =
     (let r = dropWhile (\<lambda>c. c \<noteq> slash) (rev s) in if r = [] then None else Some (length r - 1))"

definition parent_dirs :: "string \<Rightarrow> unit io" where
  "parent_dirs path =
     andthen (require (length path < TXN_PATH_MAX)) (\<lambda>u.
     case last_slash path of
       None \<Rightarrow> ret ()
     | Some i \<Rightarrow> if i = 0 then ret () else mkdir_p (take i path))"

text \<open>The component loop of \<open>safe_rel\<close>; \<open>p\<close> is at the first byte of a component.\<close>

function safe_scan :: "string \<Rightarrow> bool" where
  "safe_scan p =
     (if p = [] then True
      else (let n = takeWhile (\<lambda>c. c \<noteq> slash) p; e = dropWhile (\<lambda>c. c \<noteq> slash) p in
        if n = [] \<or> n = ''.'' \<or> n = ''..'' then False
        else if e = [] then True
        else safe_scan (tl e)))"
  by pat_completeness auto
termination
proof (relation "measure length", goal_cases)
  case (2 p n e)
  then have "length e \<le> length p" "0 < length p"
    by (simp_all add: length_dropWhile_le)
  then have "length e - 1 < length p" by linarith
  then show ?case by simp
qed simp

declare safe_scan.simps [simp del]

definition safe_rel :: "string \<Rightarrow> bool" where
  "safe_rel path \<longleftrightarrow> path \<noteq> [] \<and> hd path \<noteq> slash \<and> safe_scan path"

definition txn_stage_path :: "nat \<Rightarrow> string \<Rightarrow> string option" where
  "txn_stage_path sz path =
     (if safe_rel path \<and> length (HERALD_TXN_STAGE @ slash # path) < sz
      then Some (HERALD_TXN_STAGE @ slash # path) else None)"

definition copy_loop :: "fpath \<Rightarrow> buf \<Rightarrow> unit io" where
  "copy_loop fd c =
     andthen (each (\<lambda>d. andthen sys_quiet (\<lambda>u. write_all fd d)) (chunks 16384 c)) (\<lambda>u. sys_quiet)"

definition copy_file :: "string \<Rightarrow> string \<Rightarrow> unit io" where
  "copy_file src dst =
     on_fail
       (andthen (sys_open_read src) (\<lambda>st.
        andthen sys_quiet (\<lambda>u.
        andthen (parent_dirs dst) (\<lambda>u.
        andthen (sys_open_trunc dst (snd st mod 512)) (\<lambda>out.
        andthen (copy_loop out (fst st)) (\<lambda>u.
        andthen sys_quiet (\<lambda>u. sys_quiet)))))))
       (sys_unlink dst)"

function remove_tree :: "string \<Rightarrow> world \<Rightarrow> (errno + unit) \<times> world"
  and remove_names :: "string \<Rightarrow> string list \<Rightarrow> world \<Rightarrow> (errno + unit) \<times> world" where
  "remove_tree path w =
     andthen (optional (sys_opendir path)) (\<lambda>d.
       case d of
         None \<Rightarrow> ret ()
       | Some names \<Rightarrow>
           andthen (remove_names path names) (\<lambda>u.
           andthen (optional (sys_rmdir path)) (\<lambda>u. ret ()))) w"
| "remove_names path [] w = (Inr (), w)"
| "remove_names path (n # ns) w =
     (if length (path @ slash # n) \<ge> TXN_PATH_MAX then (Inl EINVAL, w)
      else andthen (sys_lstat (path @ slash # n)) (\<lambda>st.
           andthen (if st = Dir then remove_tree (path @ slash # n) else sys_unlink (path @ slash # n))
             (\<lambda>u. remove_names path ns)) w)"
  by pat_completeness auto
termination
  by (relation "measures [\<lambda>x. case x of Inl (p, w) \<Rightarrow> TXN_PATH_MAX - length p
                                       | Inr (p, ns, w) \<Rightarrow> TXN_PATH_MAX - length p,
                          \<lambda>x. case x of Inl _ \<Rightarrow> 1 | Inr _ \<Rightarrow> 0,
                          \<lambda>x. case x of Inl _ \<Rightarrow> 0 | Inr (p, ns, w) \<Rightarrow> length ns]") auto

definition write_state :: "string \<Rightarrow> unit io" where
  "write_state state =
     andthen (mkdir_p HERALD_TXN_DIR) (\<lambda>u.
     andthen (sys_open_trunc (TXN_STATE @ ''.tmp'') 384) (\<lambda>fd.
     on_fail
       (andthen (write_once fd state) (\<lambda>u.
        andthen (write_once fd [newline]) (\<lambda>u.
        andthen sys_quiet (\<lambda>u.
        andthen sys_quiet (\<lambda>u.
        sys_rename (TXN_STATE @ ''.tmp'') TXN_STATE)))))
       (sys_unlink (TXN_STATE @ ''.tmp''))))"

definition journal_line :: "char \<Rightarrow> string \<Rightarrow> buf" where
  "journal_line op path = op # tab # path @ [newline]"

definition journal :: "fpath \<Rightarrow> char \<Rightarrow> string \<Rightarrow> unit io" where
  "journal fd op path =
     andthen (require (length (journal_line op path) < TXN_PATH_MAX + 4)) (\<lambda>u.
     andthen (write_once fd (journal_line op path)) (\<lambda>u. sys_quiet))"

definition is_reg :: "node \<Rightarrow> bool" where
  "is_reg n \<longleftrightarrow> (case n of Reg c m \<Rightarrow> True | _ \<Rightarrow> False)"

definition prepare_target :: "fpath \<Rightarrow> string \<Rightarrow> unit io" where
  "prepare_target jfd rel =
     andthen (require (safe_rel rel \<and> length (slash # rel) < TXN_PATH_MAX \<and>
       length (TXN_BACKUP @ slash # rel) < TXN_PATH_MAX)) (\<lambda>u.
     andthen (optional (sys_lstat (slash # rel))) (\<lambda>st.
     andthen (case st of
         Some n \<Rightarrow>
           andthen (require (is_reg n)) (\<lambda>u.
           andthen (copy_file (slash # rel) (TXN_BACKUP @ slash # rel)) (\<lambda>u.
           journal jfd (CHR ''R'') rel))
       | None \<Rightarrow> journal jfd (CHR ''N'') rel) (\<lambda>u.
     parent_dirs (slash # rel))))"

definition apply_delete :: "fpath \<Rightarrow> string \<Rightarrow> unit io" where
  "apply_delete jfd rel =
     andthen (require (safe_rel rel \<and> length (slash # rel) < TXN_PATH_MAX)) (\<lambda>u.
     andthen (optional (sys_lstat (slash # rel))) (\<lambda>st.
     case st of
       None \<Rightarrow> ret ()
     | Some n \<Rightarrow>
         andthen (require (is_reg n)) (\<lambda>u.
         andthen (prepare_target jfd rel) (\<lambda>u.
         sys_unlink (slash # rel)))))"

definition rel_join :: "string \<Rightarrow> string \<Rightarrow> string" where
  "rel_join relbase n = relbase @ (if relbase \<noteq> [] then ''/'' else []) @ n"

function apply_stage_dir :: "fpath \<Rightarrow> string \<Rightarrow> string \<Rightarrow> world \<Rightarrow> (errno + unit) \<times> world"
  and apply_stage_names :: "fpath \<Rightarrow> string \<Rightarrow> string \<Rightarrow> string list \<Rightarrow> world \<Rightarrow> (errno + unit) \<times> world" where
  "apply_stage_dir jfd dir relbase w =
     andthen (sys_opendir dir) (\<lambda>names. apply_stage_names jfd dir relbase names) w"
| "apply_stage_names jfd dir relbase [] w = (Inr (), w)"
| "apply_stage_names jfd dir relbase (n # ns) w =
     (if length (dir @ slash # n) \<ge> TXN_PATH_MAX \<or> length (rel_join relbase n) \<ge> TXN_PATH_MAX
      then (Inl EINVAL, w)
      else andthen (sys_lstat (dir @ slash # n)) (\<lambda>st.
           andthen
             (if st = Dir then apply_stage_dir jfd (dir @ slash # n) (rel_join relbase n)
              else andthen (require (is_reg st)) (\<lambda>u.
                   andthen (prepare_target jfd (rel_join relbase n)) (\<lambda>u.
                   andthen (require (length (slash # rel_join relbase n) < TXN_PATH_MAX)) (\<lambda>u.
                   sys_rename (dir @ slash # n) (slash # rel_join relbase n)))))
             (\<lambda>u. apply_stage_names jfd dir relbase ns)) w)"
  by pat_completeness auto
termination
  by (relation "measures [\<lambda>x. case x of Inl (j, p, r, w) \<Rightarrow> TXN_PATH_MAX - length p
                                       | Inr (j, p, r, ns, w) \<Rightarrow> TXN_PATH_MAX - length p,
                          \<lambda>x. case x of Inl _ \<Rightarrow> 1 | Inr _ \<Rightarrow> 0,
                          \<lambda>x. case x of Inl _ \<Rightarrow> 0 | Inr (j, p, r, ns, w) \<Rightarrow> length ns]") auto

text \<open>One line of the journal: operation, tab, path.\<close>

definition rollback_line :: "buf \<Rightarrow> unit io" where
  "rollback_line line =
     (let l = cstr line; rel = takeWhile (\<lambda>c. c \<noteq> newline) (drop 2 l) in
      andthen (require (length l \<ge> 2 \<and> (l ! 0 = CHR ''R'' \<or> l ! 0 = CHR ''N'') \<and> l ! 1 = tab \<and>
        safe_rel rel \<and> length (slash # rel) < TXN_PATH_MAX)) (\<lambda>u.
      if l ! 0 = CHR ''N'' then andthen (optional (sys_unlink (slash # rel))) (\<lambda>u. ret ())
      else
        andthen (require (length (TXN_BACKUP @ slash # rel) < TXN_PATH_MAX)) (\<lambda>u.
        andthen (parent_dirs (slash # rel)) (\<lambda>u.
        copy_file (TXN_BACKUP @ slash # rel) (slash # rel)))))"

definition rollback :: "unit io" where
  "rollback =
     andthen (optional (sys_open_read TXN_JOURNAL)) (\<lambda>f.
     case f of
       None \<Rightarrow> ret ()
     | Some st \<Rightarrow> each rollback_line (fgets_lines (TXN_PATH_MAX + 4) (fst st)))"

definition starts_with :: "string \<Rightarrow> string \<Rightarrow> bool" where
  "starts_with s p \<longleftrightarrow> take (length p) s = p"

text \<open>The result of \<open>txn_recover\<close>: \<open>True\<close> is the 1 of a pending kernel update, \<open>False\<close> the 0.\<close>

definition txn_recover :: "bool io" where
  "txn_recover =
     andthen (optional (sys_open_read TXN_STATE)) (\<lambda>f.
     case f of
       None \<Rightarrow> ret False
     | Some st \<Rightarrow>
         andthen (require (fst st \<noteq> [])) (\<lambda>u.
         let state = cstr (fst (fgets 32 (fst st))) in
         if starts_with state ''pending-kernel'' then ret True
         else
           andthen (if \<not> starts_with state ''committed'' then rollback
                    else andthen (optional (sys_unlink HERALD_UPDATE_PENDING)) (\<lambda>u. ret ())) (\<lambda>u.
           andthen (remove_tree HERALD_TXN_DIR) (\<lambda>u. ret False))))"

definition txn_finalize :: "unit io" where
  "txn_finalize =
     andthen (sys_open_read TXN_STATE) (\<lambda>st.
     andthen (require (fst st \<noteq> [])) (\<lambda>u.
     andthen (require (starts_with (cstr (fst (fgets 32 (fst st)))) ''pending-kernel'')) (\<lambda>u.
     andthen (write_state ''committed'') (\<lambda>u.
     andthen (optional (sys_unlink HERALD_UPDATE_PENDING)) (\<lambda>u.
     remove_tree HERALD_TXN_DIR)))))"

definition txn_rollback :: "unit io" where
  "txn_rollback = andthen rollback (\<lambda>u. remove_tree HERALD_TXN_DIR)"

definition txn_stage_existing :: "string \<Rightarrow> unit io" where
  "txn_stage_existing path =
     andthen (require (safe_rel path \<and> length (slash # path) < TXN_PATH_MAX)) (\<lambda>u.
     case txn_stage_path TXN_PATH_MAX path of
       None \<Rightarrow> throw EINVAL
     | Some dst \<Rightarrow>
         andthen (optional (sys_lstat (slash # path))) (\<lambda>st.
         case st of
           None \<Rightarrow> parent_dirs dst
         | Some n \<Rightarrow> andthen (require (is_reg n)) (\<lambda>u. copy_file (slash # path) dst)))"

definition create_empty :: "string \<Rightarrow> unit io" where
  "create_empty path =
     andthen (sys_open_trunc path 384) (\<lambda>fd. andthen sys_quiet (\<lambda>u. sys_quiet))"

definition txn_begin :: "unit io" where
  "txn_begin =
     andthen txn_recover (\<lambda>pending.
     andthen (require (\<not> pending)) (\<lambda>u.
     andthen (mkdir_p HERALD_TXN_STAGE) (\<lambda>u.
     andthen (mkdir_p TXN_BACKUP) (\<lambda>u.
     andthen (write_state ''prepared'') (\<lambda>u.
     andthen (create_empty TXN_JOURNAL) (\<lambda>u.
     andthen (create_empty TXN_DELETE) (\<lambda>u.
     txn_stage_existing (tl HERALD_DB_PATH))))))))"

definition txn_abort :: "unit io" where
  "txn_abort = ignore txn_recover"

definition owner_list :: "string \<Rightarrow> string" where
  "owner_list i = HERALD_DB_DIR @ ''/owners/'' @ i @ ''.list''"

definition txn_owner_open :: "string \<Rightarrow> fpath io" where
  "txn_owner_open i =
     andthen (require (i \<noteq> [] \<and> slash \<notin> set i \<and> length (owner_list i) < 160)) (\<lambda>u.
     case txn_stage_path TXN_PATH_MAX (tl (owner_list i)) of
       None \<Rightarrow> throw EINVAL
     | Some path \<Rightarrow> andthen (parent_dirs path) (\<lambda>u. sys_open_trunc path 420))"

definition txn_owner_add :: "fpath \<Rightarrow> string \<Rightarrow> unit io" where
  "txn_owner_add fd path =
     andthen (require (safe_rel path \<and> length path < TXN_PATH_MAX)) (\<lambda>u.
     andthen (write_once fd path) (\<lambda>u. write_once fd [newline]))"

text \<open>\<open>line[strcspn (line, "\r\n")] = 0\<close> on every line \<open>fgets\<close> gives.\<close>

definition cut_line :: "buf \<Rightarrow> string" where
  "cut_line l = takeWhile (\<lambda>c. c \<noteq> cr \<and> c \<noteq> newline) (cstr l)"

definition list_lines :: "buf \<Rightarrow> string list" where
  "list_lines c = map cut_line (fgets_lines TXN_PATH_MAX c)"

definition listed :: "buf \<Rightarrow> string \<Rightarrow> bool" where
  "listed c path \<longleftrightarrow> path \<in> set (list_lines c)"

definition queue_delete :: "string \<Rightarrow> unit io" where
  "queue_delete path =
     andthen (require (safe_rel path)) (\<lambda>u.
     andthen (sys_open_append TXN_DELETE) (\<lambda>fd.
     andthen (write_once fd path) (\<lambda>u.
     andthen (write_once fd [newline]) (\<lambda>u.
     andthen sys_quiet (\<lambda>u. sys_quiet)))))"

definition txn_remove_stale :: "string \<Rightarrow> string \<Rightarrow> unit io" where
  "txn_remove_stale i new_owner_path =
     andthen (require (slash \<notin> set i \<and> length (owner_list i) < TXN_PATH_MAX)) (\<lambda>u.
     andthen (optional (sys_open_read (owner_list i))) (\<lambda>old.
     case old of
       None \<Rightarrow> ret ()
     | Some f \<Rightarrow>
         andthen (sys_open_read new_owner_path) (\<lambda>nf.
         each (\<lambda>line. if line \<noteq> [] \<and> \<not> listed (fst nf) line then queue_delete line else ret ())
           (list_lines (fst f)))))"

definition txn_remove_owned :: "string \<Rightarrow> unit io" where
  "txn_remove_owned i =
     andthen (require (slash \<notin> set i \<and> length (owner_list i) < TXN_PATH_MAX)) (\<lambda>u.
     andthen (optional (sys_open_read (owner_list i))) (\<lambda>f.
     case f of
       None \<Rightarrow> ret ()
     | Some old \<Rightarrow>
         andthen (each (\<lambda>line. if line \<noteq> [] then queue_delete line else ret ())
           (list_lines (fst old))) (\<lambda>u.
         queue_delete (tl (owner_list i)))))"

text \<open>The deletions and the staged files applied to the root, between opening the journal and the commit mark.\<close>

definition commit_body :: "bool \<Rightarrow> fpath \<Rightarrow> unit io" where
  "commit_body pending jfd =
     andthen (sys_open_read TXN_DELETE) (\<lambda>df.
     andthen (each (\<lambda>line. if line \<noteq> [] then apply_delete jfd line else ret ())
       (list_lines (fst df))) (\<lambda>u.
     andthen (apply_stage_dir jfd HERALD_TXN_STAGE []) (\<lambda>u.
     write_state (if pending then ''pending-kernel'' else ''committed''))))"

definition txn_commit :: "unit io" where
  "txn_commit =
     andthen (succeeds (sys_lstat (HERALD_TXN_STAGE @ HERALD_UPDATE_PENDING))) (\<lambda>pending.
     andthen (write_state ''applying'') (\<lambda>u.
     andthen (sys_open_append TXN_JOURNAL) (\<lambda>jfd.
     andthen (on_fail (commit_body pending jfd) rollback) (\<lambda>u.
     if pending then ret () else ignore (remove_tree HERALD_TXN_DIR)))))"

section \<open>Relative paths\<close>

definition plain :: "string \<Rightarrow> bool" where
  "plain c \<longleftrightarrow> c \<noteq> [] \<and> c \<noteq> ''.'' \<and> c \<noteq> ''..''"

lemma safe_scan_iff:
  "safe_scan p \<longleftrightarrow> p = [] \<or> (list_all plain (butlast (split_on slash p)) \<and>
     (plain (last (split_on slash p)) \<or> (last (split_on slash p) = [] \<and> butlast (split_on slash p) \<noteq> [])))"
proof (induction p rule: safe_scan.induct)
  case (1 p)
  let ?n = "takeWhile (\<lambda>c. c \<noteq> slash) p" and ?e = "dropWhile (\<lambda>c. c \<noteq> slash) p"
  show ?case
  proof (cases "p = []")
    case True
    then show ?thesis by (subst safe_scan.simps) simp
  next
    case ne: False
    have u: "safe_scan p \<longleftrightarrow> plain ?n \<and> (?e = [] \<or> safe_scan (tl ?e))"
    proof -
      have i: "(if b then False else if c then True else x) \<longleftrightarrow> \<not> b \<and> (c \<or> x)" for b c x by simp
      show ?thesis
        unfolding safe_scan.simps[of p] Let_def plain_def by (simp only: ne if_False i) blast
    qed
    show ?thesis
    proof (cases "?e = []")
      case True
      then have "split_on slash p = [?n]" by (subst split_on_Cons_takeWhile) (simp only: refl if_True)
      then show ?thesis using u True ne by (simp add: plain_def)
    next
      case e: False
      then have s: "split_on slash p = ?n # split_on slash (tl ?e)"
        by (subst split_on_Cons_takeWhile) (simp only: if_False)
      show ?thesis
      proof (cases "plain ?n")
        case False
        then show ?thesis using u s ne by simp
      next
        case True
        then have nb: "\<not> (?n = [] \<or> ?n = ''.'' \<or> ?n = ''..'')" unfolding plain_def by blast
        have "safe_scan (tl ?e) \<longleftrightarrow> tl ?e = [] \<or> (list_all plain (butlast (split_on slash (tl ?e))) \<and>
          (plain (last (split_on slash (tl ?e))) \<or>
            (last (split_on slash (tl ?e)) = [] \<and> butlast (split_on slash (tl ?e)) \<noteq> [])))"
          by (rule 1[OF ne refl refl nb e])
        then show ?thesis using u s ne e True split_on_eq_empty[of slash "tl ?e"]
          by (cases "tl ?e = []") auto
      qed
    qed
  qed
qed

text \<open>A relative path the transaction handles: its components are its resolved path.\<close>

definition good_rel :: "string \<Rightarrow> bool" where
  "good_rel rel \<longleftrightarrow> safe_rel rel \<and> last rel \<noteq> slash \<and> nul \<notin> set rel"

lemma resolve_plain:
  "list_all plain (split_on slash s) \<Longrightarrow> resolve s = split_on slash s"
proof -
  have "list_all plain cs \<Longrightarrow> foldl path_step acc cs = acc @ cs" for acc cs
    by (induction cs arbitrary: acc) (auto simp: path_step_def plain_def)
  from this[of "split_on slash s" "[]"] show "list_all plain (split_on slash s) \<Longrightarrow> ?thesis"
    by (simp add: resolve_def)
qed

lemma good_rel_split:
  assumes "good_rel rel"
  shows "list_all plain (split_on slash rel)"
proof -
  have r: "rel \<noteq> []" "last rel \<noteq> slash" "safe_scan rel" using assms by (auto simp: good_rel_def safe_rel_def)
  then have "list_all plain (butlast (split_on slash rel))" "plain (last (split_on slash rel))"
    using safe_scan_iff[of rel] last_split_on[of rel slash] by auto
  then have "list_all plain (butlast (split_on slash rel) @ [last (split_on slash rel)])"
    by (simp del: append_butlast_last_id)
  then show ?thesis by (simp only: append_butlast_last_id[OF split_on_not_Nil])
qed

lemma good_rel_resolve:
  assumes "good_rel rel"
  shows "resolve rel = split_on slash rel" "resolve rel \<noteq> []" "list_all valid_name (resolve rel)"
    "''..'' \<notin> set (split_on slash rel)"
proof -
  note g = good_rel_split[OF assms]
  show r: "resolve rel = split_on slash rel" by (rule resolve_plain[OF g])
  then show "resolve rel \<noteq> []" by simp
  show "list_all valid_name (resolve rel)" using assms by (intro resolve_valid) (simp add: good_rel_def)
  show "''..'' \<notin> set (split_on slash rel)" using g by (auto simp: list_all_iff plain_def)
qed

lemma good_rel_join:
  "good_rel rel \<Longrightarrow> resolve (a @ slash # rel) = resolve a @ resolve rel"
  by (rule resolve_join) (rule good_rel_resolve)

lemma split_last_slash:
  assumes "last_slash s = Some i"
  shows "i < length s" "s ! i = slash" "s = take i s @ slash # drop (Suc i) s" "slash \<notin> set (drop (Suc i) s)"
proof -
  have "slash \<in> set s"
    using assms dropWhile_neq_all[of slash "rev s"] by (auto simp: last_slash_def Let_def split: if_splits)
  then obtain a b where s: "s = a @ slash # b" "slash \<notin> set b" by (meson split_list_last)
  then have "dropWhile (\<lambda>c. c \<noteq> slash) (rev s) = slash # rev a"
    using dropWhile_neq_append[of slash "rev b" "rev a"] by simp
  then have "i = length a" using assms by (simp add: last_slash_def)
  then show "i < length s" "s ! i = slash" "s = take i s @ slash # drop (Suc i) s"
    "slash \<notin> set (drop (Suc i) s)"
    using s by simp_all
qed

end
