(* ===== verification/Herald_Txn_Steps.thy ===== *)
theory Herald_Txn_Steps
  imports Herald_Txn
begin

text \<open>
  Triples of the steps of \<open>transaction.c\<close> that know nothing of a transaction: making the
  directories of a path (\<open>mkdir_p\<close>, \<open>parent_dirs\<close>), copying a file (\<open>copy_file\<close>) and removing a
  tree (\<open>remove_tree\<close>).  Each triple says what the step changes when it returns and when it
  fails, under every schedule of faults, and when a fault-free run cannot fail.
\<close>

section \<open>Creating directories\<close>

text \<open>\<open>s\<close> is \<open>s0\<close> with directories added at some paths of \<open>A\<close>.\<close>

definition grown :: "fpath set \<Rightarrow> fsys \<Rightarrow> fsys \<Rightarrow> bool" where
  "grown A s0 s \<longleftrightarrow> wf_fs s \<and>
     (\<forall>p. map_of s p = map_of s0 p \<or> (map_of s0 p = None \<and> map_of s p = Some Dir \<and> p \<in> A))"

lemma grown_refl: "wf_fs s \<Longrightarrow> grown A s s"
  by (simp add: grown_def)

lemma grown_wf: "grown A s0 s \<Longrightarrow> wf_fs s"
  by (simp add: grown_def)

lemma grown_cases:
  assumes "grown A s0 s"
  obtains "map_of s p = map_of s0 p" | "map_of s0 p = None" "map_of s p = Some Dir" "p \<in> A"
  using conjunct2[OF assms[unfolded grown_def], THEN spec, of p] that by argo

lemma grown_mono: "grown A s0 s \<Longrightarrow> A \<subseteq> B \<Longrightarrow> grown B s0 s"
  unfolding grown_def by (meson subsetD)

lemma grown_dir: "grown A s0 s \<Longrightarrow> map_of s0 p = Some n \<Longrightarrow> map_of s p = Some n"
  unfolding grown_def by (metis option.distinct(1))

lemma grown_mkdir:
  assumes "grown A s0 s" "walk_err s p = None" "map_of s p = None" "list_all valid_name p" "p \<in> A"
  shows "grown A s0 (AList.update p Dir s)"
proof -
  have ne: "p \<noteq> []" using assms(3) wf_fsD(1)[OF grown_wf[OF assms(1)]] by auto
  have w: "wf_fs (AList.update p Dir s)"
    using wf_fs_update[OF grown_wf[OF assms(1)] ne assms(4) walk_err_butlast[OF assms(2) ne]] by simp
  moreover have "map_of s0 p = None"
    using assms(1,3) unfolding grown_def by (metis option.distinct(1))
  ultimately show ?thesis
    using assms(1,5) unfolding grown_def by (auto simp: fun_upd_def)
qed

text \<open>The state after the directories up to \<open>y\<close> were made, when nothing but directories is in the way.\<close>

definition dirs_upto :: "fsys \<Rightarrow> string \<Rightarrow> bool" where
  "dirs_upto s y \<longleftrightarrow> (\<forall>q. prefix q (resolve y) \<longrightarrow> map_of s q = Some Dir)"

definition clear_upto :: "fsys \<Rightarrow> fpath \<Rightarrow> bool" where
  "clear_upto s p \<longleftrightarrow> (\<forall>q. prefix q p \<longrightarrow> map_of s q = None \<or> map_of s q = Some Dir)"

lemma clear_upto_grown: "clear_upto s0 p \<Longrightarrow> grown A s0 s \<Longrightarrow> clear_upto s p"
  unfolding clear_upto_def grown_def by metis

lemma mkdir_one_triple:
  assumes "nul \<notin> set y" "resolve y \<in> A" and K: "K \<Longrightarrow> clear_upto s0 (resolve y)"
    and B: "\<And>q. strict_prefix q (resolve y) \<Longrightarrow> q = [] \<or> (\<exists>z \<in> Y. prefix q (resolve z))"
  shows "valid F (\<lambda>s. grown A s0 s \<and> (K \<longrightarrow> (\<forall>z \<in> Y. dirs_upto s z)))
     (mkdir_one y)
     (\<lambda>_ s. grown A s0 s \<and> (K \<longrightarrow> (\<forall>z \<in> insert y Y. dirs_upto s z)))
     (\<lambda>_ s. grown A s0 s \<and> (F = no_faults \<longrightarrow> \<not> K))"
  (is "valid F ?P _ ?Q ?E")
  unfolding mkdir_one_def
proof (rule valid_handle)
  let ?R = "\<lambda>e s. if e = EEXIST then ?Q () s else ?E e s"
  show "valid F ?P (sys_mkdir y) ?Q ?R"
  proof (rule valid_syscall)
    fix s assume p: "?P s"
    then have g: "grown A s0 s" by simp
    have w: "K \<Longrightarrow> strict_prefix q (resolve y) \<Longrightarrow> map_of s q = Some Dir" for q
      using p B[of q] wf_fsD(1)[OF grown_wf[OF g]] by (auto simp: dirs_upto_def)
    show "case fs_mkdir y s of (Inr x, s') \<Rightarrow> ?Q x s' | (Inl e, s') \<Rightarrow> ?R e s'"
    proof (cases "walk_err s (resolve y)")
      case (Some e)
      then have "e \<noteq> EEXIST" "\<not> K"
        using walk_err_Some(2)[OF Some] walk_err_None[of s "resolve y"] w by auto
      then show ?thesis using Some g by (simp add: fs_mkdir_def)
    next
      case None
      show ?thesis
      proof (cases "map_of s (resolve y)")
        case None': None
        have "grown A s0 (AList.update (resolve y) Dir s)"
          using grown_mkdir[OF g None None' resolve_valid[OF assms(1)] assms(2)] .
        moreover have "dirs_upto (AList.update (resolve y) Dir s) y"
          using None walk_err_None[of s "resolve y"] by (auto simp: dirs_upto_def strict_prefix_def)
        moreover have "dirs_upto s z \<Longrightarrow> dirs_upto (AList.update (resolve y) Dir s) z" for z
          by (simp add: dirs_upto_def)
        ultimately show ?thesis using None None' p by (simp add: fs_mkdir_def)
      next
        case (Some n)
        have "dirs_upto s y" if c: K
        proof -
          have "map_of s (resolve y) = Some Dir"
            using clear_upto_grown[OF K[OF c] g] Some by (auto simp: clear_upto_def)
          then show ?thesis using w[OF c] by (auto simp: dirs_upto_def strict_prefix_def)
        qed
        then show ?thesis using None Some p by (simp add: fs_mkdir_def)
      qed
    qed
    show "F = no_faults \<or> ?R EIO s" using g by simp
  qed
qed (auto intro!: valid_ret valid_throw)

lemma filter_upt_before:
  assumes "filter P [1..<n] = as @ i # bs" "1 \<le> k" "k < i" "P k"
  shows "k \<in> set as"
proof -
  have i: "i \<in> set (filter P [1..<n])" using assms(1) by simp
  then have "k \<in> set (filter P [1..<n])" using assms(2-4) by simp
  then have "k \<in> set (as @ i # bs)" by (simp only: assms(1))
  then have "k \<in> set as \<or> k = i \<or> k \<in> set bs" by auto
  moreover have "sorted (as @ i # bs)" by (metis assms(1) sorted_upt sorted_wrt_filter)
  then have "\<forall>b \<in> set bs. i \<le> b" by (simp add: sorted_append)
  ultimately show ?thesis using assms(3) by auto
qed

lemma strict_prefix_resolve_last:
  assumes "slash \<notin> set n" "strict_prefix q (resolve (d @ slash # n))" "n \<noteq> ''..''"
  shows "prefix q (resolve d)"
proof -
  have "resolve (d @ slash # n) = path_step (resolve d) n"
    using assms(1) by (simp add: resolve_def split_on_append split_on_single)
  then show ?thesis
    using assms(2,3) by (auto simp: path_step_def strict_prefix_def prefix_snoc split: if_splits)
qed

lemma mkdir_list:
  assumes "path \<noteq> []"
  shows "slash_prefixes path @ [path] =
     map (\<lambda>i. take i path) (filter (\<lambda>i. i = length path \<or> path ! i = slash) [1..<Suc (length path)])"
proof -
  have "filter (\<lambda>i. i = length path \<or> path ! i = slash) [1..<length path] = filter (\<lambda>i. path ! i = slash) [1..<length path]"
    by (rule filter_cong) auto
  moreover have "1 \<le> length path" using assms by (cases path) auto
  ultimately show ?thesis by (simp add: slash_prefixes_def del: upt_Suc) (simp add: upt_Suc)
qed

lemma resolve_single: "slash \<notin> set n \<Longrightarrow> n \<noteq> ''..'' \<Longrightarrow> strict_prefix q (resolve n) \<Longrightarrow> q = []"
  by (auto simp: resolve_def split_on_single path_step_def strict_prefix_def prefix_Cons split: if_splits)

lemma mkdir_order:
  assumes dd: "''..'' \<notin> set (split_on slash path)"
    and l: "slash_prefixes path @ [path] = ys @ y # zs" and q: "strict_prefix q (resolve y)"
  shows "q = [] \<or> (\<exists>z \<in> set ys. prefix q (resolve z))"
proof (cases "path = []")
  case True
  then have "y = []" using l by (auto simp: slash_prefixes_def Cons_eq_append_conv)
  then show ?thesis using q resolve_single[of "[]" q] by simp
next
  case False
  let ?P = "\<lambda>i. i = length path \<or> path ! i = slash"
  obtain as i bs where f: "filter ?P [1..<Suc (length path)] = as @ i # bs"
    and ys: "ys = map (\<lambda>i. take i path) as" and y: "y = take i path"
    using l unfolding mkdir_list[OF False] by (auto simp: map_eq_append_conv map_eq_Cons_conv)
  have i: "1 \<le> i" "i \<le> length path" "?P i"
  proof -
    have "i \<in> set (filter ?P [1..<Suc (length path)])" by (simp only: f) simp
    then show "1 \<le> i" "i \<le> length path" "?P i" by auto
  qed
  then obtain r where r: "path = y \<and> r = [] \<or> path = y @ slash # r"
    using y by (metis append_Nil2 id_take_nth_drop le_neq_implies_less take_all_iff nat_le_linear)
  show ?thesis
  proof (cases "slash \<in> set y")
    case False
    then have "y \<in> set (split_on slash path)" using r by (auto simp: split_on_append split_on_single)
    then show ?thesis using resolve_single[OF False _ q] dd by auto
  next
    case True
    then obtain d n where dn: "y = d @ slash # n" "slash \<notin> set n" by (meson split_list_last)
    then have "n \<in> set (split_on slash path)" using r by (auto simp: split_on_append split_on_single)
    then have n: "n \<noteq> ''..''" using dd by auto
    show ?thesis
    proof (cases "d = []")
      case True
      then show ?thesis using resolve_single[OF dn(2) n] q dn(1) by simp
    next
      case False
      have "length y = i" using y i(2) by simp
      then have k: "length d < i" "path ! length d = slash" "take (length d) path = d"
        using r dn y i(2) by (auto simp: nth_append)
      then have "length d \<in> set as"
        using False by (intro filter_upt_before[OF f]) (auto simp: Suc_le_eq)
      then have "d \<in> set ys" using k(3) ys by force
      then show ?thesis using strict_prefix_resolve_last[OF dn(2) _ n] q dn(1) by blast
    qed
  qed
qed

lemma prefix_resolve:
  assumes "''..'' \<notin> set (split_on slash path)" "path = y \<or> path = y @ slash # r"
  shows "prefix (resolve y) (resolve path)"
  using assms by (auto simp: resolve_join split_on_append)

lemma slash_prefixes_member:
  assumes "y \<in> set (slash_prefixes path)"
  shows "\<exists>r. path = y @ slash # r"
  using assms by (auto simp: slash_prefixes_def) (metis id_take_nth_drop)

definition made_dirs :: "string \<Rightarrow> fsys \<Rightarrow> fsys \<Rightarrow> bool" where
  "made_dirs path s0 s \<longleftrightarrow> grown {q. prefix q (resolve path)} s0 s"

lemma mkdir_p_triple:
  assumes nn: "nul \<notin> set path" and dd: "''..'' \<notin> set (split_on slash path)" and wf: "wf_fs s0"
  shows "valid F (\<lambda>s. s = s0) (mkdir_p path)
     (\<lambda>_ s. made_dirs path s0 s \<and> (clear_upto s0 (resolve path) \<longrightarrow> dirs_upto s path))
     (\<lambda>_ s. made_dirs path s0 s \<and>
        (F = no_faults \<longrightarrow> \<not> (length path < TXN_PATH_MAX \<and> clear_upto s0 (resolve path))))"
proof -
  let ?K = "clear_upto s0 (resolve path)" and ?A = "{q. prefix q (resolve path)}"
  let ?I = "\<lambda>ys s. grown ?A s0 s \<and> (?K \<longrightarrow> (\<forall>z \<in> set ys. dirs_upto s z))"
  let ?E = "\<lambda>_ s. grown ?A s0 s \<and> (F = no_faults \<longrightarrow> \<not> ?K)"
  have one: "valid F (?I ys) (mkdir_one y) (\<lambda>_. ?I (ys @ [y])) ?E"
    if l: "slash_prefixes path @ [path] = ys @ y # zs" for ys y zs
  proof -
    have "y \<in> set (slash_prefixes path @ [path])" by (simp only: l) simp
    then obtain r where r: "path = y \<or> path = y @ slash # r" using slash_prefixes_member by force
    then have p: "prefix (resolve y) (resolve path)" by (rule prefix_resolve[OF dd])
    have k: "?K \<Longrightarrow> clear_upto s0 (resolve y)"
      using p prefix_order.trans unfolding clear_upto_def by blast
    have "nul \<notin> set y" using r nn by auto
    from mkdir_one_triple[where A = ?A and F = F and K = ?K and Y = "set ys",
        OF this _ k mkdir_order[OF dd l]] p
    show ?thesis by simp
  qed
  have "valid F (?I []) (each mkdir_one (slash_prefixes path)) (\<lambda>_. ?I (slash_prefixes path)) ?E"
  proof (rule valid_each)
    fix ys x zs assume "slash_prefixes path = ys @ x # zs"
    then show "valid F (?I ys) (mkdir_one x) (\<lambda>_. ?I (ys @ [x])) ?E" by (intro one[of _ _ "zs @ [path]"]) simp
  qed
  moreover have "valid F (?I (slash_prefixes path)) (mkdir_one path) (\<lambda>_. ?I (slash_prefixes path @ [path])) ?E"
    by (rule one) simp
  ultimately have m: "valid F (?I []) (andthen (each mkdir_one (slash_prefixes path)) (\<lambda>u. mkdir_one path))
      (\<lambda>_. ?I (slash_prefixes path @ [path])) ?E"
    by (rule valid_andthen)
  show ?thesis
    unfolding mkdir_p_def
  proof (rule valid_andthen)
    show "valid F (\<lambda>s. s = s0) (require (length path < TXN_PATH_MAX)) (\<lambda>_ s. s = s0 \<and> length path < TXN_PATH_MAX)
       (\<lambda>_ s. made_dirs path s0 s \<and>
        (F = no_faults \<longrightarrow> \<not> (length path < TXN_PATH_MAX \<and> clear_upto s0 (resolve path))))"
      using grown_refl[OF wf] by (intro valid_require) (auto simp: made_dirs_def)
    show "valid F (\<lambda>s. s = s0 \<and> length path < TXN_PATH_MAX)
       (andthen (each mkdir_one (slash_prefixes path)) (\<lambda>u. mkdir_one path))
       (\<lambda>_ s. made_dirs path s0 s \<and> (clear_upto s0 (resolve path) \<longrightarrow> dirs_upto s path))
       (\<lambda>_ s. made_dirs path s0 s \<and>
        (F = no_faults \<longrightarrow> \<not> (length path < TXN_PATH_MAX \<and> clear_upto s0 (resolve path))))" for x :: unit
      using grown_refl[OF wf] by (intro valid_conseq[OF m]) (auto simp: made_dirs_def)
  qed
qed

lemma walk_err_clear:
  assumes "clear_upto s (butlast p)" "p \<noteq> []" "walk_err s p = Some e"
  shows "e = ENOENT"
proof -
  have "strict_prefix (take n p) p" if "n < length p" for n
    using that by (auto simp: strict_prefix_def take_is_prefix)
  then have "map_of s (take n p) = None \<or> map_of s (take n p) = Some Dir" if "n < length p" for n
    using assms(1,2) that by (simp add: clear_upto_def strict_prefix_butlast)
  then have "\<forall>q \<in> set (filter (\<lambda>q. map_of s q \<noteq> Some Dir) (map (\<lambda>n. take n p) [0..<length p])). map_of s q = None"
    by fastforce
  then show ?thesis using assms(3) unfolding walk_err_def
    by (cases "filter (\<lambda>q. map_of s q \<noteq> Some Dir) (map (\<lambda>n. take n p) [0..<length p])") auto
qed

section \<open>Making the parents of a file\<close>

text \<open>A path string with a proper last component.\<close>

definition file_path :: "string \<Rightarrow> bool" where
  "file_path path \<longleftrightarrow> (\<exists>d n. path = d @ slash # n \<and> valid_name n) \<and> nul \<notin> set path \<and>
     ''..'' \<notin> set (split_on slash path)"

lemma file_path_last: "file_path path \<Longrightarrow> path \<noteq> [] \<and> last path \<noteq> slash"
  by (auto simp: file_path_def valid_name_def) (metis last_in_set)

lemma file_path_resolve:
  assumes "file_path path"
  shows "resolve path \<noteq> []" "list_all valid_name (resolve path)"
  using assms resolve_valid[of path] by (auto simp: file_path_def resolve_snoc_name)

lemma last_slash_append: "slash \<notin> set n \<Longrightarrow> last_slash (d @ slash # n) = Some (length d)"
  using dropWhile_neq_append[of slash "rev n" "rev d"] by (simp add: last_slash_def)

lemma parent_dirs_triple:
  assumes fp: "file_path path" and wf: "wf_fs s0"
  defines "p \<equiv> resolve path"
  shows "valid F (\<lambda>s. s = s0) (parent_dirs path)
     (\<lambda>_ s. grown {q. strict_prefix q p} s0 s \<and> (clear_upto s0 (butlast p) \<longrightarrow> walk_err s p = None))
     (\<lambda>_ s. grown {q. strict_prefix q p} s0 s \<and>
        (F = no_faults \<longrightarrow> \<not> (length path < TXN_PATH_MAX \<and> clear_upto s0 (butlast p))))"
    (is "valid F _ _ ?Q ?E")
proof -
  obtain d n where path: "path = d @ slash # n" and n: "valid_name n" and nn: "nul \<notin> set path"
    and dd: "''..'' \<notin> set (split_on slash path)"
    using fp by (auto simp: file_path_def)
  have p: "p = resolve d @ [n]" using n by (simp add: p_def path resolve_snoc_name)
  have ls: "last_slash path = Some (length d)"
    using n by (simp add: path last_slash_append valid_name_def)
  have g0: "grown {q. strict_prefix q p} s0 s0" by (rule grown_refl[OF wf])
  show ?thesis
    unfolding parent_dirs_def
  proof (rule valid_andthen)
    show "valid F (\<lambda>s. s = s0) (require (length path < TXN_PATH_MAX))
       (\<lambda>_ s. length path < TXN_PATH_MAX \<and> s = s0) ?E"
      using g0 by (intro valid_require) auto
    show "valid F (\<lambda>s. length path < TXN_PATH_MAX \<and> s = s0)
       (case last_slash path of None \<Rightarrow> ret () | Some i \<Rightarrow> if i = 0 then ret () else mkdir_p (take i path)) ?Q ?E"
      for u :: unit
    proof (cases "d = []")
      case True
      then have "p = [n]" using p by (simp add: resolve_def path_step_def)
      then have "walk_err s0 p = None"
        using wf_fsD(1)[OF wf] by (auto simp: walk_err_None strict_prefix_def prefix_Cons)
      then show ?thesis using True ls g0 by (auto intro!: valid_ret)
    next
      case False
      have "nul \<notin> set d" "''..'' \<notin> set (split_on slash d)" using nn dd by (auto simp: path split_on_append)
      note m = mkdir_p_triple[OF this wf, of F]
      have t: "take (length d) path = d" by (simp add: path)
      have e: "{q. strict_prefix q p} = {q. prefix q (resolve d)}" by (simp add: p strict_prefix_snoc)
      have "valid F (\<lambda>s. length path < TXN_PATH_MAX \<and> s = s0) (mkdir_p d) ?Q ?E"
        unfolding e using p path
        by (intro valid_pull valid_conseq[OF m])
          (auto simp: made_dirs_def dirs_upto_def walk_err_None strict_prefix_snoc)
      then show ?thesis using False by (simp add: ls t)
    qed
  qed
qed

section \<open>Copying a file\<close>

definition reg_or_none :: "node option \<Rightarrow> bool" where
  "reg_or_none n \<longleftrightarrow> (case n of None \<Rightarrow> True | Some (Reg c m) \<Rightarrow> True | _ \<Rightarrow> False)"

lemma reg_or_none_simps [simp]: "reg_or_none None" "reg_or_none (Some (Reg c m))"
  "\<not> reg_or_none (Some Dir)" "\<not> reg_or_none (Some Special)"
  by (simp_all add: reg_or_none_def)

text \<open>
  \<open>s\<close> is \<open>s0\<close> but for the file at \<open>p\<close>, which may have been written or removed, and for directories
  made above it.
\<close>

definition touched :: "fpath \<Rightarrow> fsys \<Rightarrow> fsys \<Rightarrow> bool" where
  "touched p s0 s \<longleftrightarrow> wf_fs s \<and>
     (\<forall>x. x \<noteq> p \<longrightarrow> map_of s x = map_of s0 x \<or>
        (map_of s0 x = None \<and> map_of s x = Some Dir \<and> strict_prefix x p)) \<and>
     (map_of s p = map_of s0 p \<or> reg_or_none (map_of s p))"

lemma touched_refl: "wf_fs s \<Longrightarrow> touched p s s"
  by (simp add: touched_def)

lemma touched_wf: "touched p s0 s \<Longrightarrow> wf_fs s"
  by (simp add: touched_def)

lemma touched_other:
  assumes "touched p s0 s" "x \<noteq> p"
  shows "map_of s x = map_of s0 x \<or> (map_of s0 x = None \<and> map_of s x = Some Dir \<and> strict_prefix x p)"
  using assms by (simp add: touched_def)

lemma touched_at: "touched p s0 s \<Longrightarrow> map_of s p = map_of s0 p \<or> reg_or_none (map_of s p)"
  by (simp add: touched_def)

lemma touched_grown: "grown {q. strict_prefix q p} s0 s \<Longrightarrow> touched p s0 s"
  unfolding touched_def grown_def by auto

text \<open>A file outside the tree a step touches keeps its contents.\<close>

lemma touched_file_at: "touched p s s' \<Longrightarrow> x \<noteq> p \<Longrightarrow> file_at s' x = file_at s x"
  using touched_other[of p s s' x] by (auto simp: file_at_def)

lemma touched_set:
  assumes t: "touched p s0 s" and p: "p \<noteq> []" "list_all valid_name p" "walk_err s p = None"
    "map_of s p \<noteq> Some Dir"
  shows "touched p s0 (AList.update p (Reg c m) s)"
proof -
  have "wf_fs (AList.update p (Reg c m) s)"
    using wf_fs_update[OF touched_wf[OF t] p(1,2) walk_err_butlast[OF p(3,1)]] p(4) by simp
  then show ?thesis using t by (simp add: touched_def)
qed

lemma touched_unset:
  assumes t: "touched p s0 s" and p: "p \<noteq> []" "map_of s p \<noteq> Some Dir"
  shows "touched p s0 (AList.delete p s)"
proof -
  have "wf_fs (AList.delete p s)" using wf_fs_delete[OF touched_wf[OF t] p(1)] p(2) by simp
  then show ?thesis using t by (simp add: touched_def)
qed

lemma touched_append:
  assumes t: "touched p s0 s" and "p \<noteq> []"
  shows "touched p s0 (fs_append p d s)"
proof (cases "map_of s p")
  case (Some n)
  show ?thesis
  proof (cases n)
    case (Reg c m)
    then have s: "map_of s p = Some (Reg c m)" using Some by simp
    have "list_all valid_name p" "walk_err s p = None"
      using wf_fsD(2)[OF touched_wf[OF t] s] walk_err_present[OF touched_wf[OF t] s] by auto
    then have "touched p s0 (AList.update p (Reg (c @ d) m) s)"
      using touched_set[OF t assms(2)] s by simp
    then show ?thesis using s by (simp add: fs_append_def)
  qed (use Some t in \<open>simp_all add: fs_append_def\<close>)
qed (use t in \<open>simp add: fs_append_def\<close>)

text \<open>The file at \<open>p\<close> holds \<open>x\<close>; nothing else differs from \<open>s0\<close> but directories above \<open>p\<close>.\<close>

definition holds_at :: "fpath \<Rightarrow> fsys \<Rightarrow> nat \<Rightarrow> buf \<Rightarrow> fsys \<Rightarrow> bool" where
  "holds_at p s0 m x s \<longleftrightarrow> touched p s0 s \<and> map_of s p = Some (Reg x m)"

lemma holds_at_append: "p \<noteq> [] \<Longrightarrow> holds_at p s0 m x s \<Longrightarrow> holds_at p s0 m (x @ y) (fs_append p y s)"
  using touched_append[of p s0 s y] by (simp add: holds_at_def) (simp add: fs_append_def)

lemma copy_loop_triple:
  assumes "p \<noteq> []"
  shows "valid F (holds_at p s0 m []) (copy_loop p c) (\<lambda>_. holds_at p s0 m c)
     (\<lambda>_ s. F \<noteq> no_faults \<and> touched p s0 s)"
proof -
  let ?E = "\<lambda>_ s. F \<noteq> no_faults \<and> touched p s0 s"
  let ?I = "\<lambda>ds. holds_at p s0 m (concat ds)"
  have "valid F (?I []) (each (\<lambda>d. andthen sys_quiet (\<lambda>u. write_all p d)) (chunks 16384 c))
      (\<lambda>_. ?I (chunks 16384 c)) ?E"
  proof (rule valid_each)
    fix ds d zs
    have "valid F (?I ds) (write_all p d) (\<lambda>_. holds_at p s0 m (concat ds @ d))
        (\<lambda>_ s. F \<noteq> no_faults \<and> (\<exists>y. holds_at p s0 m y s))"
      by (rule valid_write_all) (rule holds_at_append[OF assms])
    then have "valid F (?I ds) (write_all p d) (\<lambda>_. ?I (ds @ [d])) ?E"
      by (rule valid_conseq) (auto simp: holds_at_def)
    then show "valid F (?I ds) (andthen sys_quiet (\<lambda>u. write_all p d)) (\<lambda>_. ?I (ds @ [d])) ?E"
      by (intro valid_andthen[OF valid_quiet]) (auto simp: holds_at_def)
  qed
  then show ?thesis
    unfolding copy_loop_def
    by (intro valid_andthen[rotated] valid_quiet) (auto simp: concat_chunks holds_at_def)
qed

lemma open_read_triple:
  assumes "wf_fs s0" "last src \<noteq> slash"
  shows "valid F (\<lambda>s. s = s0) (sys_open_read src)
     (\<lambda>st s. s = s0 \<and> map_of s0 (resolve src) = Some (Reg (fst st) (snd st)))
     (\<lambda>_ s. s = s0 \<and> (F = no_faults \<longrightarrow> \<not> (\<exists>c m. map_of s0 (resolve src) = Some (Reg c m))))"
proof (rule valid_syscall)
  show "case fs_open_read src s of
      (Inr st, s') \<Rightarrow> s' = s0 \<and> map_of s0 (resolve src) = Some (Reg (fst st) (snd st))
    | (Inl e, s') \<Rightarrow> s' = s0 \<and> (F = no_faults \<longrightarrow> \<not> (\<exists>c m. map_of s0 (resolve src) = Some (Reg c m)))"
    if "s = s0" for s
  proof (cases "fs_find src s0")
    case (Inl e)
    have "map_of s0 (resolve src) \<noteq> Some (Reg c m)" for c m
      using fs_find_present[OF assms(1), of src "Reg c m"] assms(2) Inl by auto
    then show ?thesis using that Inl by (simp add: fs_open_read_def)
  next
    case (Inr n)
    then show ?thesis using that fs_find_Inr[OF Inr] by (cases n) (simp_all add: fs_open_read_def)
  qed
qed auto

definition copy_ok :: "fsys \<Rightarrow> string \<Rightarrow> string \<Rightarrow> bool" where
  "copy_ok s0 src dst \<longleftrightarrow> (\<exists>c m. map_of s0 (resolve src) = Some (Reg c m)) \<and> length dst < TXN_PATH_MAX \<and>
     clear_upto s0 (butlast (resolve dst)) \<and> reg_or_none (map_of s0 (resolve dst))"

definition copy_mode :: "fsys \<Rightarrow> fpath \<Rightarrow> nat \<Rightarrow> nat" where
  "copy_mode s0 p m = (case map_of s0 p of Some (Reg c k) \<Rightarrow> k | _ \<Rightarrow> m mod 512)"

lemma unlink_touched:
  assumes "p \<noteq> []" "resolve dst = p"
  shows "valid F (\<lambda>s. touched p s0 s) (sys_unlink dst) (\<lambda>_ s. touched p s0 s) (\<lambda>_ s. touched p s0 s)"
proof (rule valid_syscall)
  fix s assume t: "touched p s0 s"
  show "case fs_unlink dst s of (Inr x, s') \<Rightarrow> touched p s0 s' | (Inl e, s') \<Rightarrow> touched p s0 s'"
    using t touched_unset[OF t assms(1)] assms(2) fs_find_Inr[of dst s]
    by (auto simp: fs_unlink_def split: sum.splits node.splits)
qed auto

lemma open_trunc_triple:
  assumes dst: "file_path dst" and p: "p = resolve dst"
  shows "valid F (\<lambda>s. touched p s0 s \<and> map_of s p = map_of s0 p \<and> (K \<longrightarrow> walk_err s p = None))
     (sys_open_trunc dst m0)
     (\<lambda>fd s. fd = p \<and> (\<exists>m. (m = (case map_of s0 p of Some (Reg c k) \<Rightarrow> k | _ \<Rightarrow> m0)) \<and> holds_at p s0 m [] s))
     (\<lambda>_ s. touched p s0 s \<and> (F = no_faults \<longrightarrow> \<not> (K \<and> reg_or_none (map_of s0 p))))"
  (is "valid F ?P _ ?Q ?E")
proof (rule valid_syscall)
  fix s assume h: "?P s"
  note v = file_path_resolve[OF dst, folded p] and l = file_path_last[OF dst]
  show "case fs_open_trunc dst m0 s of (Inr x, s') \<Rightarrow> ?Q x s' | (Inl e, s') \<Rightarrow> ?E e s'"
  proof (cases "walk_err s p")
    case (Some e)
    then show ?thesis using h by (auto simp: fs_open_trunc_def p[symmetric] Let_def)
  next
    case None
    show ?thesis
    proof (cases "map_of s0 p")
      case None': None
      then show ?thesis using h None l touched_set[OF _ v None, of s0 "[]" m0]
        by (auto simp: fs_open_trunc_def p[symmetric] Let_def holds_at_def)
    next
      case (Some n)
      then show ?thesis using h None l touched_set[OF _ v None, of s0 "[]" "fmode n"]
        by (cases n) (auto simp: fs_open_trunc_def p[symmetric] Let_def holds_at_def)
    qed
  qed
qed auto

lemma copy_file_triple:
  assumes wf: "wf_fs s0" and src: "last src \<noteq> slash" and dst: "file_path dst" and p: "p = resolve dst"
  shows "valid F (\<lambda>s. s = s0) (copy_file src dst)
     (\<lambda>_ s. \<exists>c m. map_of s0 (resolve src) = Some (Reg c m) \<and> holds_at p s0 (copy_mode s0 p m) c s)
     (\<lambda>_ s. touched p s0 s \<and> (F = no_faults \<longrightarrow> \<not> copy_ok s0 src dst))"
  unfolding copy_file_def
proof (rule valid_on_fail)
  let ?E = "\<lambda>_ s. touched p s0 s \<and> (F = no_faults \<longrightarrow> \<not> copy_ok s0 src dst)"
  let ?K = "length dst < TXN_PATH_MAX \<and> clear_upto s0 (butlast p)"
  have pne: "p \<noteq> []" using file_path_resolve(1)[OF dst] p by simp
  show "valid F (\<lambda>s. touched p s0 s \<and> (F = no_faults \<longrightarrow> \<not> copy_ok s0 src dst)) (sys_unlink dst)
     (\<lambda>_. ?E e) (\<lambda>_. ?E e)" for e
    by (rule valid_pure[OF unlink_touched[OF pne p[symmetric]]])
  have body: "valid F (\<lambda>s. s = s0)
      (andthen sys_quiet (\<lambda>u. andthen (parent_dirs dst) (\<lambda>u.
        andthen (sys_open_trunc dst (m mod 512)) (\<lambda>out.
        andthen (copy_loop out c) (\<lambda>u. andthen sys_quiet (\<lambda>u. sys_quiet))))))
      (\<lambda>_ s. holds_at p s0 (copy_mode s0 p m) c s) ?E"
    if r: "map_of s0 (resolve src) = Some (Reg c m)" for c m
  proof -
    have k: "copy_ok s0 src dst \<longleftrightarrow> ?K \<and> reg_or_none (map_of s0 p)"
      using r by (auto simp: copy_ok_def p)
    have tail: "valid F (holds_at p s0 k c) (andthen sys_quiet (\<lambda>u. sys_quiet)) (\<lambda>_. holds_at p s0 k c) ?E" for k
      by (intro valid_andthen[where R = "\<lambda>_. holds_at p s0 k c"] valid_quiet) (auto simp: holds_at_def)
    have loop: "valid F (holds_at p s0 k []) (andthen (copy_loop p c) (\<lambda>u. andthen sys_quiet (\<lambda>u. sys_quiet)))
        (\<lambda>_. holds_at p s0 k c) ?E" for k
      by (rule valid_andthen[OF _ tail]) (rule valid_conseq[OF copy_loop_triple[OF pne]], auto)
    have op: "valid F (\<lambda>s. touched p s0 s \<and> map_of s p = map_of s0 p \<and> (?K \<longrightarrow> walk_err s p = None))
        (andthen (sys_open_trunc dst (m mod 512)) (\<lambda>out. andthen (copy_loop out c) (\<lambda>u. andthen sys_quiet (\<lambda>u. sys_quiet))))
        (\<lambda>_ s. holds_at p s0 (copy_mode s0 p m) c s) ?E"
    proof (rule valid_andthen)
      show "valid F (\<lambda>s. touched p s0 s \<and> map_of s p = map_of s0 p \<and> (?K \<longrightarrow> walk_err s p = None))
        (sys_open_trunc dst (m mod 512)) (\<lambda>fd s. fd = p \<and> holds_at p s0 (copy_mode s0 p m) [] s) ?E"
        by (rule valid_conseq[OF open_trunc_triple[OF dst p, where K = ?K]]) (auto simp: k copy_mode_def)
      show "valid F (\<lambda>s. fd = p \<and> holds_at p s0 (copy_mode s0 p m) [] s)
         (andthen (copy_loop fd c) (\<lambda>u. andthen sys_quiet (\<lambda>u. sys_quiet)))
         (\<lambda>_ s. holds_at p s0 (copy_mode s0 p m) c s) ?E" for fd
        by (rule valid_pull) (use loop in simp)
    qed
    have "valid F (\<lambda>s. s = s0) (andthen (parent_dirs dst) (\<lambda>u.
        andthen (sys_open_trunc dst (m mod 512)) (\<lambda>out. andthen (copy_loop out c) (\<lambda>u. andthen sys_quiet (\<lambda>u. sys_quiet)))))
        (\<lambda>_ s. holds_at p s0 (copy_mode s0 p m) c s) ?E"
    proof (rule valid_andthen[OF _ op])
      show "valid F (\<lambda>s. s = s0) (parent_dirs dst)
         (\<lambda>_ s. touched p s0 s \<and> map_of s p = map_of s0 p \<and> (?K \<longrightarrow> walk_err s p = None)) ?E"
        by (rule valid_conseq[OF parent_dirs_triple[OF dst wf]])
          (auto simp: p[symmetric] k touched_grown elim: grown_cases[where p = p])
    qed
    then show ?thesis by (rule valid_quiet_then) (auto simp: touched_refl[OF wf])
  qed
  show "valid F (\<lambda>s. s = s0)
      (andthen (sys_open_read src) (\<lambda>st. andthen sys_quiet (\<lambda>u. andthen (parent_dirs dst) (\<lambda>u.
        andthen (sys_open_trunc dst (snd st mod 512)) (\<lambda>out.
        andthen (copy_loop out (fst st)) (\<lambda>u. andthen sys_quiet (\<lambda>u. sys_quiet)))))))
      (\<lambda>_ s. \<exists>c m. map_of s0 (resolve src) = Some (Reg c m) \<and> holds_at p s0 (copy_mode s0 p m) c s) ?E"
  proof (rule valid_andthen)
    show "valid F (\<lambda>s. s = s0) (sys_open_read src)
       (\<lambda>st s. map_of s0 (resolve src) = Some (Reg (fst st) (snd st)) \<and> s = s0) ?E"
      by (rule valid_conseq[OF open_read_triple[OF wf src]]) (auto simp: touched_refl[OF wf] copy_ok_def)
  qed (auto intro!: valid_pull intro: valid_conseq[OF body])
qed

section \<open>Removing the transaction directory\<close>

lemma remove_tree_io:
  "remove_tree path =
     andthen (optional (sys_opendir path)) (\<lambda>d.
       case d of None \<Rightarrow> ret ()
       | Some names \<Rightarrow> andthen (remove_names path names) (\<lambda>u. andthen (optional (sys_rmdir path)) (\<lambda>u. ret ())))"
  by (rule ext) simp

lemma remove_names_io:
  "remove_names path [] = ret ()"
  "remove_names path (n # ns) =
     (if length (path @ slash # n) \<ge> TXN_PATH_MAX then throw EINVAL
      else andthen (sys_lstat (path @ slash # n)) (\<lambda>st.
           andthen (if st = Dir then remove_tree (path @ slash # n) else sys_unlink (path @ slash # n))
             (\<lambda>u. remove_names path ns)))"
  by (rule ext, simp add: ret_def throw_def)+

declare remove_tree.simps [simp del] remove_names.simps [simp del]

text \<open>\<open>s\<close> is \<open>s1\<close> without some nodes at or below \<open>r\<close>.\<close>

definition shrunk :: "fpath \<Rightarrow> fsys \<Rightarrow> fsys \<Rightarrow> bool" where
  "shrunk r s1 s \<longleftrightarrow> wf_fs s \<and> (\<forall>x. map_of s x = map_of s1 x \<or> (prefix r x \<and> map_of s x = None))"

lemma shrunk_refl: "wf_fs s \<Longrightarrow> shrunk r s s"
  by (simp add: shrunk_def)

lemma shrunk_delete:
  assumes "shrunk r s1 s" "prefix r p" "p \<noteq> []" "children s p = [] \<or> map_of s p \<noteq> Some Dir"
  shows "shrunk r s1 (AList.delete p s)"
  using assms wf_fs_delete[of s p] by (auto simp: shrunk_def)

lemma unlink_shrunk:
  assumes "prefix r (resolve path)" "r \<noteq> []"
  shows "valid F (shrunk r s1) (sys_unlink path) (\<lambda>_. shrunk r s1) (\<lambda>_. shrunk r s1)"
proof (rule valid_syscall)
  fix s assume sh: "shrunk r s1 s"
  have "resolve path \<noteq> []" using assms by auto
  then show "case fs_unlink path s of (Inr x, s') \<Rightarrow> shrunk r s1 s' | (Inl e, s') \<Rightarrow> shrunk r s1 s'"
    using sh shrunk_delete[OF sh assms(1)] fs_find_Inr[of path s]
    by (cases "fs_find path s") (auto simp: fs_unlink_def split: node.splits)
qed auto

lemma rmdir_shrunk:
  assumes "prefix r (resolve path)" "r \<noteq> []"
  shows "valid F (shrunk r s1) (sys_rmdir path) (\<lambda>_. shrunk r s1) (\<lambda>_. shrunk r s1)"
proof (rule valid_syscall)
  fix s assume sh: "shrunk r s1 s"
  have "resolve path \<noteq> []" using assms by auto
  then show "case fs_rmdir path s of (Inr x, s') \<Rightarrow> shrunk r s1 s' | (Inl e, s') \<Rightarrow> shrunk r s1 s'"
    using sh shrunk_delete[OF sh assms(1)]
    by (cases "fs_find path s") (auto simp: fs_rmdir_def split: node.splits)
qed auto

lemma remove_tree_triple:
  assumes r: "r \<noteq> []"
  shows "prefix r (resolve path) \<Longrightarrow>
     valid F (shrunk r s1) (remove_tree path) (\<lambda>_. shrunk r s1) (\<lambda>_. shrunk r s1)"
proof (induction "TXN_PATH_MAX - length path" arbitrary: path rule: less_induct)
  case less
  let ?K = "shrunk r s1"
  have names: "\<forall>n \<in> set ns. valid_name n \<Longrightarrow> valid F ?K (remove_names path ns) (\<lambda>_. ?K) (\<lambda>_. ?K)" for ns
  proof (induction ns)
    case Nil
    then show ?case by (simp add: remove_names_io valid_ret)
  next
    case (Cons n ns)
    let ?c = "path @ slash # n"
    have p: "prefix r (resolve ?c)" using Cons.prems less.prems by (simp add: resolve_snoc_name)
    show ?case
    proof (cases "length ?c \<ge> TXN_PATH_MAX")
      case True
      then show ?thesis by (simp add: remove_names_io valid_throw)
    next
      case False
      then have "valid F ?K (remove_tree ?c) (\<lambda>_. ?K) (\<lambda>_. ?K)" by (intro less.hyps p) simp
      then have one: "valid F ?K (if st = Dir then remove_tree ?c else sys_unlink ?c) (\<lambda>_. ?K) (\<lambda>_. ?K)" for st
        using unlink_shrunk[OF p r] by simp
      have "valid F ?K (sys_lstat ?c) (\<lambda>_. ?K) (\<lambda>_. ?K)" by (rule quiet_call) (simp add: fs_lstat_def)
      then show ?thesis unfolding remove_names_io using False Cons.IH Cons.prems
        by (simp only: if_False) (rule valid_andthen, assumption, rule valid_andthen[OF one], simp)
    qed
  qed
  show ?case
    unfolding remove_tree_io
  proof (rule valid_andthen[OF valid_optional])
    show "valid F ?K (sys_opendir path)
       (\<lambda>x s. (\<forall>ns. Some x = Some ns \<longrightarrow> (\<forall>n \<in> set ns. valid_name n)) \<and> ?K s)
       (\<lambda>e s. if e = ENOENT then (\<forall>ns. None = Some ns \<longrightarrow> (\<forall>n \<in> set ns. valid_name n)) \<and> ?K s else ?K s)"
    proof (rule valid_syscall)
      fix s assume k: "?K s"
      then have wf: "wf_fs s" by (simp add: shrunk_def)
      have v: "\<forall>n \<in> set (children s (resolve path)). valid_name n"
        using wf_fsD(2)[OF wf] by (fastforce simp: children_iff list_all_iff)
      show "case fs_opendir path s of
          (Inr x, s') \<Rightarrow> (\<forall>ns. Some x = Some ns \<longrightarrow> (\<forall>n \<in> set ns. valid_name n)) \<and> ?K s'
        | (Inl e, s') \<Rightarrow> if e = ENOENT then (\<forall>ns. None = Some ns \<longrightarrow> (\<forall>n \<in> set ns. valid_name n)) \<and> ?K s' else ?K s'"
        using k v by (cases "fs_find path s") (auto simp: fs_opendir_def split: node.splits)
    qed auto
    show "valid F (\<lambda>s. (\<forall>ns. d = Some ns \<longrightarrow> (\<forall>n \<in> set ns. valid_name n)) \<and> ?K s)
       (case d of None \<Rightarrow> ret ()
        | Some names \<Rightarrow> andthen (remove_names path names) (\<lambda>u. andthen (optional (sys_rmdir path)) (\<lambda>u. ret ())))
       (\<lambda>_. ?K) (\<lambda>_. ?K)" for d
    proof (rule valid_pull, cases d)
      case None
      then show "valid F ?K (case d of None \<Rightarrow> ret ()
        | Some names \<Rightarrow> andthen (remove_names path names) (\<lambda>u. andthen (optional (sys_rmdir path)) (\<lambda>u. ret ())))
       (\<lambda>_. ?K) (\<lambda>_. ?K)" by (simp add: valid_ret)
    next
      case (Some ns)
      assume v: "\<forall>ns. d = Some ns \<longrightarrow> (\<forall>n \<in> set ns. valid_name n)"
      have "valid F ?K (andthen (optional (sys_rmdir path)) (\<lambda>u. ret ())) (\<lambda>_. ?K) (\<lambda>_. ?K)"
        by (rule valid_andthen[OF valid_optional_keep[OF rmdir_shrunk[OF less.prems r]]]) (rule valid_ret)
      then have "valid F ?K (andthen (remove_names path ns) (\<lambda>u. andthen (optional (sys_rmdir path)) (\<lambda>u. ret ())))
          (\<lambda>_. ?K) (\<lambda>_. ?K)"
        using names[of ns] v Some by (blast intro: valid_andthen)
      then show "valid F ?K (case d of None \<Rightarrow> ret ()
        | Some names \<Rightarrow> andthen (remove_names path names) (\<lambda>u. andthen (optional (sys_rmdir path)) (\<lambda>u. ret ())))
       (\<lambda>_. ?K) (\<lambda>_. ?K)" using Some by simp
    qed
  qed
qed

end
