(* ===== verification/Herald_Txn_Atomic.thy ===== *)
theory Herald_Txn_Atomic
  imports Herald_Txn_Steps
begin

text \<open>
  Crash atomicity of the transactions of \<open>transaction.c\<close>.  The invariant \<open>core\<close> relates every
  state of a commit to the state \<open>s0\<close> it started from: the journal names each live path that may
  differ, with a backup where a file was there before.  It is kept by every step under every schedule
  of failing calls, and it is what a rollback needs to restore the old contents; the commit mark,
  a single rename, switches from one side to the other.
\<close>

section \<open>The invariant of a commit\<close>

definition txnp :: fpath where "txnp = [''etc'', ''aegis'', ''herald'', ''transaction'']"
abbreviation stagep :: fpath where "stagep \<equiv> txnp @ [''stage'']"
abbreviation bakp :: fpath where "bakp \<equiv> txnp @ [''backup'']"
abbreviation journalp :: fpath where "journalp \<equiv> txnp @ [''journal'']"
abbreviation statep :: fpath where "statep \<equiv> txnp @ [''state'']"
abbreviation deletep :: fpath where "deletep \<equiv> txnp @ [''delete'']"

lemmas txn_path_defs = HERALD_DB_DIR_def HERALD_DB_PATH_def HERALD_TXN_DIR_def HERALD_TXN_STAGE_def
  HERALD_UPDATE_PENDING_def TXN_BACKUP_def TXN_STATE_def TXN_JOURNAL_def TXN_DELETE_def

lemma resolve_txn_paths [simp]:
  "resolve HERALD_TXN_DIR = txnp" "resolve HERALD_TXN_STAGE = stagep" "resolve TXN_BACKUP = bakp"
  "resolve TXN_JOURNAL = journalp" "resolve TXN_STATE = statep" "resolve TXN_DELETE = deletep"
  by (simp_all add: resolve_def path_step_def txnp_def txn_path_defs)

lemma txn_paths_plain [simp]:
  "nul \<notin> set HERALD_TXN_DIR" "nul \<notin> set HERALD_TXN_STAGE" "nul \<notin> set TXN_BACKUP"
  "''..'' \<notin> set (split_on slash HERALD_TXN_DIR)" "''..'' \<notin> set (split_on slash HERALD_TXN_STAGE)"
  "''..'' \<notin> set (split_on slash TXN_BACKUP)"
  "last TXN_JOURNAL \<noteq> slash" "last TXN_STATE \<noteq> slash" "last TXN_DELETE \<noteq> slash"
  "length TXN_BACKUP = 36" "length HERALD_TXN_DIR = 29" "length HERALD_TXN_STAGE = 35"
  by (simp_all add: txn_path_defs)

text \<open>The files to install and to delete, and the paths of the root they are for.\<close>

definition staged :: "fsys \<Rightarrow> fpath set" where
  "staged s0 = {p. \<exists>c m. map_of s0 (stagep @ p) = Some (Reg c m)}"

definition deletions :: "fsys \<Rightarrow> fpath set" where
  "deletions s0 = (case file_at s0 deletep of None \<Rightarrow> {}
     | Some c \<Rightarrow> resolve ` {l \<in> set (list_lines c). l \<noteq> []})"

abbreviation targets :: "fsys \<Rightarrow> fpath set" where
  "targets s0 \<equiv> staged s0 \<union> deletions s0"

text \<open>
  The transactions the guarantee is for: targets outside the transaction directory, no file
  both deleted and staged (nor a deleted file the parent of a staged one), no newline in a staged name.
\<close>

definition txn_clean :: "fsys \<Rightarrow> bool" where
  "txn_clean s0 \<longleftrightarrow> wf_fs s0 \<and> (\<forall>p \<in> targets s0. \<not> prefix txnp p) \<and>
     (\<forall>d \<in> deletions s0. \<forall>p \<in> staged s0. \<not> prefix d p) \<and>
     (\<forall>p \<in> staged s0. \<forall>n \<in> set p. newline \<notin> set n)"

type_synonym jentry = "char \<times> string"

definition journal_bytes :: "jentry list \<Rightarrow> buf" where
  "journal_bytes es = concat (map (\<lambda>e. journal_line (fst e) (snd e)) es)"

definition journaled :: "jentry list \<Rightarrow> fpath set" where
  "journaled es = (\<lambda>e. resolve (snd e)) ` set es"

definition entry_ok :: "fsys \<Rightarrow> fsys \<Rightarrow> jentry \<Rightarrow> bool" where
  "entry_ok s0 s e \<longleftrightarrow>
     good_rel (snd e) \<and> newline \<notin> set (snd e) \<and> length (TXN_BACKUP @ slash # snd e) < TXN_PATH_MAX \<and>
     resolve (snd e) \<in> targets s0 \<and>
     (fst e = CHR ''R'' \<and> (\<exists>c m. map_of s0 (resolve (snd e)) = Some (Reg c m) \<and>
                            file_at s (bakp @ resolve (snd e)) = Some c) \<or>
      fst e = CHR ''N'' \<and> resolve (snd e) \<in> staged s0 \<and> clear_upto s0 (butlast (resolve (snd e))) \<and>
        map_of s0 (resolve (snd e)) = None)"

text \<open>
  What every state of a commit keeps: the journal names each live path that may differ from \<open>s0\<close>,
  with a backup where it was a file.
\<close>

definition live_ok :: "fsys \<Rightarrow> jentry list \<Rightarrow> fsys \<Rightarrow> fpath \<Rightarrow> bool" where
  "live_ok s0 es s x \<longleftrightarrow>
     (if x \<in> journaled es then reg_or_none (map_of s x)
      else map_of s x = map_of s0 x \<or>
        (map_of s0 x = None \<and> map_of s x = Some Dir \<and> x \<notin> targets s0))"

definition core :: "fsys \<Rightarrow> jentry list \<Rightarrow> fsys \<Rightarrow> bool" where
  "core s0 es s \<longleftrightarrow> wf_fs s \<and> file_at s journalp = Some (journal_bytes es) \<and>
     (\<forall>e \<in> set es. entry_ok s0 s e) \<and> (\<forall>x. \<not> prefix txnp x \<longrightarrow> live_ok s0 es s x)"

lemma coreD:
  assumes "core s0 es s"
  shows "wf_fs s" "file_at s journalp = Some (journal_bytes es)" "\<And>e. e \<in> set es \<Longrightarrow> entry_ok s0 s e"
    "\<And>x. \<not> prefix txnp x \<Longrightarrow> live_ok s0 es s x"
  using assms by (auto simp: core_def)

lemma journal_dir:
  assumes "core s0 es s" "prefix x txnp"
  shows "map_of s x = Some Dir"
proof -
  obtain m where "map_of s journalp = Some (Reg (journal_bytes es) m)"
    using coreD(2)[OF assms(1)] by (auto simp: file_at_Some)
  moreover have "strict_prefix x journalp"
    using assms(2) by (simp add: strict_prefix_snoc)
  ultimately show ?thesis using wf_fs_ancestor[OF coreD(1)[OF assms(1)]] by blast
qed

lemma staged_ancestor:
  assumes "wf_fs s0" "p \<in> staged s0" "strict_prefix x p"
  shows "x \<notin> staged s0"
proof
  assume "x \<in> staged s0"
  then obtain c m where x: "map_of s0 (stagep @ x) = Some (Reg c m)" by (auto simp: staged_def)
  obtain c' m' where p: "map_of s0 (stagep @ p) = Some (Reg c' m')" using assms(2) by (auto simp: staged_def)
  have "strict_prefix (stagep @ x) (stagep @ p)" using assms(3) by (auto simp: strict_prefix_def)
  from wf_fs_ancestor[OF assms(1) p this] x show False by simp
qed

lemma entry_ok_target: "entry_ok s0 s e \<Longrightarrow> resolve (snd e) \<in> targets s0"
  by (simp add: entry_ok_def)

lemma journaled_ok:
  assumes "core s0 es s" "x \<in> journaled es"
  shows "x \<in> targets s0" "map_of s0 x = None \<and> x \<in> staged s0 \<or> (\<exists>c m. map_of s0 x = Some (Reg c m))"
  using assms coreD(3)[OF assms(1)] by (auto simp: journaled_def entry_ok_def)

text \<open>No directory above a target in the journal is missing or itself a target.\<close>

lemma above_journaled:
  assumes cl: "txn_clean s0" and c: "core s0 es s" and p: "p \<in> journaled es \<or> p \<in> staged s0"
    and x: "strict_prefix x p" "map_of s x = None" "\<not> prefix txnp x"
  shows "map_of s0 x = None" "x \<notin> targets s0" "x \<notin> journaled es"
proof -
  have wf: "wf_fs s0" using cl by (simp add: txn_clean_def)
  have l: "live_ok s0 es s x" by (rule coreD(4)[OF c x(3)])
  show 1: "x \<notin> targets s0"
  proof (cases "p \<in> staged s0")
    case True
    then show ?thesis
      using staged_ancestor[OF wf True x(1)] cl x(1) by (auto simp: txn_clean_def strict_prefix_def)
  next
    case False
    then obtain k m where "map_of s0 p = Some (Reg k m)" using journaled_ok(2)[OF c] p by blast
    then have d: "map_of s0 x = Some Dir" using wf_fs_ancestor[OF wf _ x(1)] by blast
    then have "x \<notin> journaled es" using journaled_ok(2)[OF c, of x] by auto
    then show ?thesis using l x(2) d by (auto simp: live_ok_def)
  qed
  then show 2: "x \<notin> journaled es" using journaled_ok(1)[OF c] by blast
  show "map_of s0 x = None" using l 2 x(2) by (auto simp: live_ok_def)
qed

lemma touched_keeps_file:
  assumes "touched p s s'" "x \<noteq> p" "map_of s x = Some n"
  shows "map_of s' x = Some n"
  using touched_other[OF assms(1,2)] assms(3) by auto

lemma entry_ok_keeps:
  assumes "entry_ok s0 s e" "\<And>c. file_at s (bakp @ resolve (snd e)) = Some c \<Longrightarrow> file_at s' (bakp @ resolve (snd e)) = Some c"
  shows "entry_ok s0 s' e"
  using assms unfolding entry_ok_def by blast

lemma live_ok_same: "map_of s' x = map_of s x \<Longrightarrow> live_ok s0 es s' x \<longleftrightarrow> live_ok s0 es s x"
  by (simp only: live_ok_def)

text \<open>Writing or removing a journaled live file.\<close>

lemma core_touched:
  assumes cl: "txn_clean s0" and c: "core s0 es s" and t: "touched p s s'" and p: "p \<in> journaled es"
  shows "core s0 es s'"
proof -
  have np: "\<not> prefix txnp p" using journaled_ok(1)[OF c p] cl by (auto simp: txn_clean_def)
  have keep: "file_at s x = Some k \<Longrightarrow> prefix txnp x \<Longrightarrow> file_at s' x = Some k" for x k
    using touched_keeps_file[OF t, of x] np by (auto simp: file_at_Some)
  have "live_ok s0 es s' x" if x: "\<not> prefix txnp x" for x
  proof (cases "x = p")
    case True
    then show ?thesis using coreD(4)[OF c np] p touched_at[OF t] by (auto simp: live_ok_def)
  next
    case False
    consider "map_of s' x = map_of s x" | "map_of s x = None" "map_of s' x = Some Dir" "strict_prefix x p"
      using touched_other[OF t False] by argo
    then show ?thesis
    proof cases
      case 1
      then show ?thesis using coreD(4)[OF c x] live_ok_same by blast
    next
      case 2
      then show ?thesis using above_journaled[OF cl c disjI1[OF p] 2(3,1) x] by (simp add: live_ok_def)
    qed
  qed
  moreover have "entry_ok s0 s' e" if "e \<in> set es" for e
    using coreD(3)[OF c that] by (rule entry_ok_keeps) (rule keep, auto)
  ultimately show ?thesis
    using keep[OF coreD(2)[OF c]] touched_wf[OF t] by (auto simp: core_def)
qed

text \<open>Writing a backup.\<close>

lemma core_backup:
  assumes c: "core s0 es s" and t: "touched (bakp @ p) s s'" and p: "p \<notin> journaled es"
  shows "core s0 es s'"
proof -
  have keep: "file_at s x = Some k \<Longrightarrow> x \<noteq> bakp @ p \<Longrightarrow> file_at s' x = Some k" for x k
    using touched_keeps_file[OF t, of x] by (auto simp: file_at_Some)
  have "live_ok s0 es s' x" if x: "\<not> prefix txnp x" for x
  proof -
    have "x \<noteq> bakp @ p" using x by (auto simp: prefix_def)
    moreover have "map_of s x = Some Dir" if "strict_prefix x (bakp @ p)"
    proof -
      have "prefix x txnp \<or> prefix txnp x"
        using that by (intro prefix_same_cases[of x "bakp @ p"]) (auto simp: strict_prefix_def prefix_def)
      then show ?thesis using x journal_dir[OF c] by blast
    qed
    ultimately have "map_of s' x = map_of s x" using touched_other[OF t, of x] by auto
    then show ?thesis using coreD(4)[OF c x] live_ok_same by blast
  qed
  moreover have "entry_ok s0 s' e" if "e \<in> set es" for e
    using coreD(3)[OF c that] by (rule entry_ok_keeps) (rule keep, use p that in \<open>auto simp: journaled_def\<close>)
  ultimately show ?thesis
    using keep[OF coreD(2)[OF c]] touched_wf[OF t] by (auto simp: core_def)
qed

text \<open>A new line of the journal.\<close>

lemma core_journal:
  assumes c: "core s0 es s" and e: "entry_ok s0 s e" and r: "reg_or_none (map_of s (resolve (snd e)))"
  shows "core s0 (es @ [e]) (fs_append journalp (journal_line (fst e) (snd e)) s)"
proof -
  let ?s = "fs_append journalp (journal_line (fst e) (snd e)) s"
  have j: "journaled (es @ [e]) = insert (resolve (snd e)) (journaled es)" by (auto simp: journaled_def)
  have same: "map_of ?s x = map_of s x" if "x \<noteq> journalp" for x using file_at_append(2)[OF that] .
  have "wf_fs ?s" using touched_append[OF touched_refl[OF coreD(1)[OF c]], of journalp] by (simp add: touched_def)
  moreover have "file_at ?s journalp = Some (journal_bytes (es @ [e]))"
    using file_at_append(1)[OF coreD(2)[OF c]] by (simp add: journal_bytes_def)
  moreover have "entry_ok s0 ?s e'" if "e' \<in> set (es @ [e])" for e'
  proof -
    have "entry_ok s0 s e'" using that e coreD(3)[OF c, of e'] by (cases "e' = e") simp_all
    then show ?thesis by (rule entry_ok_keeps) (simp add: file_at_def same)
  qed
  moreover have "live_ok s0 (es @ [e]) ?s x" if x: "\<not> prefix txnp x" for x
  proof -
    have "x \<noteq> journalp" using x by (auto simp: prefix_def)
    then show ?thesis using coreD(4)[OF c x] same r by (auto simp: live_ok_def j)
  qed
  ultimately show ?thesis by (auto simp: core_def)
qed

section \<open>Rolling back\<close>

lemma good_rel_file_path:
  assumes g: "good_rel rel" and a: "nul \<notin> set a" "''..'' \<notin> set (split_on slash a)"
  shows "file_path (a @ slash # rel)"
proof -
  obtain d n where dn: "slash # rel = d @ slash # n" "slash \<notin> set n"
    using split_list_last[of slash "slash # rel"] by auto
  have "split_on slash (slash # rel) = split_on slash d @ [n]"
    unfolding dn(1) using dn(2) by (simp add: split_on_append split_on_single)
  then have "n = last (split_on slash (slash # rel))" by simp
  then have "n = last (split_on slash rel)" by simp
  then have "n \<in> set (resolve rel)" using good_rel_resolve(1,2)[OF g] by simp
  then have "valid_name n" using good_rel_resolve(3)[OF g] by (simp add: list_all_iff)
  moreover have "a @ slash # rel = (a @ d) @ slash # n" using dn(1) by simp
  moreover have "nul \<notin> set (a @ slash # rel)" using g a by (simp add: good_rel_def)
  moreover have "''..'' \<notin> set (split_on slash (a @ slash # rel))"
    using good_rel_resolve(4)[OF g] a by (simp add: split_on_append)
  ultimately show ?thesis unfolding file_path_def by blast
qed

lemma good_rel_paths:
  assumes "good_rel rel"
  shows "file_path (slash # rel)" "file_path (TXN_BACKUP @ slash # rel)"
    "resolve (TXN_BACKUP @ slash # rel) = bakp @ resolve rel"
  using good_rel_file_path[OF assms, of "[]"] good_rel_file_path[OF assms, of TXN_BACKUP]
    good_rel_join[OF assms, of TXN_BACKUP] resolve_txn_paths(3)
  by simp_all

lemma rollback_line_entry:
  assumes e: "entry_ok s0 s (opc, rel)"
  shows "rollback_line (journal_line opc rel) =
     (if opc = CHR ''N'' then andthen (optional (sys_unlink (slash # rel))) (\<lambda>u. ret ())
      else andthen (parent_dirs (slash # rel)) (\<lambda>u. copy_file (TXN_BACKUP @ slash # rel) (slash # rel)))"
proof -
  have r: "good_rel rel" "newline \<notin> set rel" "length (TXN_BACKUP @ slash # rel) < TXN_PATH_MAX"
    "opc = CHR ''R'' \<or> opc = CHR ''N''"
    using e by (auto simp: entry_ok_def)
  have "nul \<notin> set (journal_line opc rel)" using r by (auto simp: journal_line_def good_rel_def)
  then have c: "cstr (journal_line opc rel) = opc # tab # rel @ [newline]"
    by (simp add: cstr_id) (simp add: journal_line_def)
  have t: "takeWhile (\<lambda>c. c \<noteq> newline) (drop 2 (opc # tab # rel @ [newline])) = rel"
    using takeWhile_neq_append[OF r(2), of "[]"] by simp
  have s: "safe_rel rel" "length (slash # rel) < TXN_PATH_MAX" using r by (simp_all add: good_rel_def)
  show ?thesis
    unfolding rollback_line_def c Let_def t using r s by auto
qed

lemma clear_now:
  assumes cl: "txn_clean s0" and c: "core s0 es s" and p: "p \<in> staged s0" "p \<noteq> []"
    and cu: "clear_upto s0 (butlast p)"
  shows "clear_upto s (butlast p)"
  unfolding clear_upto_def
proof (intro allI impI)
  fix x assume "prefix x (butlast p)"
  then have x: "strict_prefix x p" using p by (simp add: strict_prefix_butlast)
  have wf: "wf_fs s0" using cl by (simp add: txn_clean_def)
  have "x \<notin> targets s0"
    using staged_ancestor[OF wf p(1) x] cl x p(1) by (auto simp: txn_clean_def strict_prefix_def)
  then have "x \<notin> journaled es" using journaled_ok(1)[OF c] by blast
  moreover have "\<not> prefix txnp x"
    using cl p(1) x by (auto simp: txn_clean_def strict_prefix_def dest: prefix_order.trans)
  ultimately show "map_of s x = None \<or> map_of s x = Some Dir"
    using coreD(4)[OF c, of x] cu \<open>prefix x (butlast p)\<close> by (auto simp: live_ok_def clear_upto_def)
qed

lemma clear_file:
  assumes cl: "txn_clean s0" and c: "core s0 es s" and p: "map_of s0 p = Some (Reg k m)" "\<not> prefix txnp p"
  shows "clear_upto s (butlast p)"
  unfolding clear_upto_def
proof (intro allI impI)
  fix x assume "prefix x (butlast p)"
  have wf: "wf_fs s0" using cl by (simp add: txn_clean_def)
  have "p \<noteq> []" using p wf_fsD(1)[OF wf] by auto
  then have x: "strict_prefix x p" using \<open>prefix x (butlast p)\<close> by (simp add: strict_prefix_butlast)
  then have d: "map_of s0 x = Some Dir" using wf_fs_ancestor[OF wf p(1)] by blast
  then have "x \<notin> journaled es" using journaled_ok(2)[OF c, of x] by auto
  moreover have "\<not> prefix txnp x" using p(2) x by (auto simp: strict_prefix_def dest: prefix_order.trans)
  ultimately show "map_of s x = None \<or> map_of s x = Some Dir"
    using coreD(4)[OF c, of x] d by (auto simp: live_ok_def)
qed

definition restored :: "fsys \<Rightarrow> jentry list \<Rightarrow> buf \<Rightarrow> fpath set \<Rightarrow> fsys \<Rightarrow> bool" where
  "restored s0 es st D s \<longleftrightarrow> core s0 es s \<and> file_at s statep = Some st \<and> (\<forall>x \<in> D. file_at s x = file_at s0 x)"

lemma restored_touched:
  assumes "txn_clean s0" "restored s0 es st D s" "touched p s s'" "p \<in> journaled es"
  shows "restored s0 es st (D - {p}) s'"
proof -
  have c: "core s0 es s" using assms(2) by (simp add: restored_def)
  have "\<not> prefix txnp p" using journaled_ok(1)[OF c assms(4)] assms(1) by (auto simp: txn_clean_def)
  then have "statep \<noteq> p" by (auto simp: prefix_def)
  then show ?thesis
    using assms(2) core_touched[OF assms(1) c assms(3,4)] touched_file_at[OF assms(3)]
    by (auto simp: restored_def)
qed

lemma unlink_new_triple:
  assumes cl: "txn_clean s0" and r: "restored s0 es st D s1" and e: "(CHR ''N'', rel) \<in> set es"
  defines "p \<equiv> resolve rel"
  shows "valid F (\<lambda>s. s = s1) (andthen (optional (sys_unlink (slash # rel))) (\<lambda>u. ret ()))
     (\<lambda>_. restored s0 es st (insert p D)) (\<lambda>_ s. restored s0 es st {} s \<and> F \<noteq> no_faults)"
proof (rule valid_andthen[OF valid_optional])
  have c: "core s0 es s1" using r by (simp add: restored_def)
  have ok: "good_rel rel" "p \<in> staged s0" "clear_upto s0 (butlast p)" "map_of s0 p = None"
    using coreD(3)[OF c e] by (auto simp: entry_ok_def p_def)
  have pj: "p \<in> journaled es" using e by (force simp: journaled_def p_def)
  have pne: "p \<noteq> []" using good_rel_resolve(2)[OF ok(1)] by (simp add: p_def)
  have np: "\<not> prefix txnp p" using ok(2) cl by (auto simp: txn_clean_def)
  have reg: "reg_or_none (map_of s1 p)" using coreD(4)[OF c np] pj by (simp add: live_ok_def)
  have old: "file_at s0 p = None" using ok(4) by (simp add: file_at_def)
  have gone: "restored s0 es st (insert p D) s1" if "map_of s1 p = None"
    using r that old by (simp add: restored_def file_at_def)
  have l: "last (slash # rel) \<noteq> slash" using file_path_last[OF good_rel_paths(1)[OF ok(1)]] by simp
  show "valid F (\<lambda>s. s = s1) (sys_unlink (slash # rel)) (\<lambda>x. (\<lambda>_. restored s0 es st (insert p D)) (Some x))
      (\<lambda>e s. if e = ENOENT then restored s0 es st (insert p D) s
             else restored s0 es st {} s \<and> F \<noteq> no_faults)"
  proof (rule valid_syscall)
    fix s assume s: "s = s1"
    show "case fs_unlink (slash # rel) s of (Inr x, s') \<Rightarrow> restored s0 es st (insert p D) s'
        | (Inl e, s') \<Rightarrow> if e = ENOENT then restored s0 es st (insert p D) s'
             else restored s0 es st {} s' \<and> F \<noteq> no_faults"
    proof (cases "map_of s1 p")
      case None
      have "fs_find (slash # rel) s1 = Inl ENOENT"
        using None walk_err_clear[OF clear_now[OF cl c ok(2) pne ok(3)] pne]
        by (auto simp: fs_find_def p_def split: option.splits)
      then show ?thesis using gone[OF None] s by (simp add: fs_unlink_def)
    next
      case (Some n)
      then obtain k m where n: "n = Reg k m" using reg by (cases n) auto
      have "fs_find (slash # rel) s1 = Inr n"
        using Some l by (intro fs_find_present[OF coreD(1)[OF c]]) (simp_all add: p_def)
      then have "fs_unlink (slash # rel) s1 = (Inr (), AList.delete p s1)"
        by (simp add: fs_unlink_def n p_def)
      moreover have t: "touched p s1 (AList.delete p s1)"
        using touched_unset[OF touched_refl[OF coreD(1)[OF c]] pne] Some n by simp
      moreover have "file_at (AList.delete p s1) p = file_at s0 p" using old by (simp add: file_at_def)
      ultimately show ?thesis
        using restored_touched[OF cl r t pj] s by (auto simp: restored_def)
    qed
  next
    show "F = no_faults \<or> (if EIO = ENOENT then restored s0 es st (insert p D) s
             else restored s0 es st {} s \<and> F \<noteq> no_faults)" if "s = s1" for s
      using that r by (auto simp: restored_def)
  qed
qed (rule valid_ret, simp)

lemma restored_mono: "restored s0 es st D s \<Longrightarrow> D' \<subseteq> D \<Longrightarrow> restored s0 es st D' s"
  by (auto simp: restored_def)

lemma restored_empty: "restored s0 es st D s \<Longrightarrow> restored s0 es st {} s"
  by (simp add: restored_def)

lemma restore_old_triple:
  assumes cl: "txn_clean s0" and r: "restored s0 es st D s1" and e: "(CHR ''R'', rel) \<in> set es"
  defines "p \<equiv> resolve rel"
  shows "valid F (\<lambda>s. s = s1)
     (andthen (parent_dirs (slash # rel)) (\<lambda>u. copy_file (TXN_BACKUP @ slash # rel) (slash # rel)))
     (\<lambda>_. restored s0 es st (insert p D)) (\<lambda>_ s. restored s0 es st {} s \<and> F \<noteq> no_faults)"
proof (rule valid_andthen)
  have c: "core s0 es s1" using r by (simp add: restored_def)
  obtain k m where ok: "good_rel rel" "length (TXN_BACKUP @ slash # rel) < TXN_PATH_MAX"
    "map_of s0 p = Some (Reg k m)" "p \<in> targets s0"
    using coreD(3)[OF c e] by (auto simp: entry_ok_def p_def)
  have pj: "p \<in> journaled es" using e by (force simp: journaled_def p_def)
  have np: "\<not> prefix txnp p" using ok(4) cl by (auto simp: txn_clean_def)
  note fp = good_rel_paths[OF ok(1)]
  have rp: "resolve (slash # rel) = p" by (simp add: p_def)
  have len: "length (slash # rel) < TXN_PATH_MAX" using ok(2) by simp
  show "valid F (\<lambda>s. s = s1) (parent_dirs (slash # rel)) (\<lambda>_. restored s0 es st (D - {p}))
     (\<lambda>_ s. restored s0 es st {} s \<and> F \<noteq> no_faults)"
  proof (rule valid_conseq[OF parent_dirs_triple[OF fp(1) coreD(1)[OF c]]])
    fix s assume g: "grown {q. strict_prefix q (resolve (slash # rel))} s1 s \<and>
        (clear_upto s1 (butlast (resolve (slash # rel))) \<longrightarrow> walk_err s (resolve (slash # rel)) = None)"
    then show "restored s0 es st (D - {p}) s"
      using restored_touched[OF cl r touched_grown pj] rp by simp
  next
    fix s assume g: "grown {q. strict_prefix q (resolve (slash # rel))} s1 s \<and>
      (F = no_faults \<longrightarrow> \<not> (length (slash # rel) < TXN_PATH_MAX \<and> clear_upto s1 (butlast (resolve (slash # rel)))))"
    then have "restored s0 es st (D - {p}) s" using restored_touched[OF cl r touched_grown pj] rp by simp
    then show "restored s0 es st {} s \<and> F \<noteq> no_faults"
      using restored_empty g rp len clear_file[OF cl c ok(3) np] by metis
  qed simp
  show "valid F (restored s0 es st (D - {p})) (copy_file (TXN_BACKUP @ slash # rel) (slash # rel))
     (\<lambda>_. restored s0 es st (insert p D)) (\<lambda>_ s. restored s0 es st {} s \<and> F \<noteq> no_faults)" for u :: unit
  proof (rule valid_pointwise)
    fix s2 assume r2: "restored s0 es st (D - {p}) s2"
    then have c2: "core s0 es s2" by (simp add: restored_def)
    obtain k' m' where b: "map_of s2 (bakp @ p) = Some (Reg k' m')" "file_at s0 p = Some k'"
      using coreD(3)[OF c2 e] by (auto simp: entry_ok_def p_def file_at_Some)
    have ok2: "copy_ok s2 (TXN_BACKUP @ slash # rel) (slash # rel)"
      unfolding copy_ok_def fp(3) rp
      using b len clear_file[OF cl c2 ok(3) np] coreD(4)[OF c2 np] pj by (simp add: p_def live_ok_def)
    have l: "last (TXN_BACKUP @ slash # rel) \<noteq> slash" using file_path_last[OF fp(2)] by simp
    show "valid F (\<lambda>s. s = s2) (copy_file (TXN_BACKUP @ slash # rel) (slash # rel))
       (\<lambda>_. restored s0 es st (insert p D)) (\<lambda>_ s. restored s0 es st {} s \<and> F \<noteq> no_faults)"
    proof (rule valid_conseq[OF copy_file_triple[OF coreD(1)[OF c2] l fp(1) refl]])
      fix s assume "\<exists>c m. map_of s2 (resolve (TXN_BACKUP @ slash # rel)) = Some (Reg c m) \<and>
          holds_at (resolve (slash # rel)) s2 (copy_mode s2 (resolve (slash # rel)) m) c s"
      then obtain m where h: "holds_at p s2 m k' s"
        unfolding fp(3) rp using b by (auto simp: p_def)
      then have t: "touched p s2 s" and k: "file_at s p = file_at s0 p" using b by (auto simp: holds_at_def file_at_def)
      from restored_touched[OF cl r2 t pj] k show "restored s0 es st (insert p D) s"
        by (auto simp: restored_def)
    next
      fix s assume "touched (resolve (slash # rel)) s2 s \<and>
         (F = no_faults \<longrightarrow> \<not> copy_ok s2 (TXN_BACKUP @ slash # rel) (slash # rel))"
      then show "restored s0 es st {} s \<and> F \<noteq> no_faults"
        using restored_empty[OF restored_touched[OF cl r2 _ pj]] ok2 rp by metis
    qed simp
  qed
qed

lemma rollback_line_triple:
  assumes cl: "txn_clean s0" and e: "e \<in> set es"
  shows "valid F (restored s0 es st D) (rollback_line (journal_line (fst e) (snd e)))
     (\<lambda>_. restored s0 es st (insert (resolve (snd e)) D)) (\<lambda>_ s. restored s0 es st {} s \<and> F \<noteq> no_faults)"
proof (rule valid_pointwise)
  fix s1 assume r: "restored s0 es st D s1"
  obtain opc rel where [simp]: "e = (opc, rel)" by (cases e)
  have ek: "entry_ok s0 s1 (opc, rel)" using r coreD(3)[of s0 es s1] e by (auto simp: restored_def)
  then have o: "opc = CHR ''R'' \<or> opc = CHR ''N''" by (auto simp: entry_ok_def)
  note eq = rollback_line_entry[OF ek]
  show "valid F (\<lambda>s. s = s1) (rollback_line (journal_line (fst e) (snd e)))
     (\<lambda>_. restored s0 es st (insert (resolve (snd e)) D)) (\<lambda>_ s. restored s0 es st {} s \<and> F \<noteq> no_faults)"
    using o unlink_new_triple[OF cl r, of rel F] restore_old_triple[OF cl r, of rel F] e
    by (auto simp: eq)
qed

lemma journal_lines:
  assumes "core s0 es s"
  shows "fgets_lines (TXN_PATH_MAX + 4) (journal_bytes es) = map (\<lambda>e. journal_line (fst e) (snd e)) es"
proof -
  let ?l = "\<lambda>e :: jentry. fst e # tab # snd e"
  have jl: "(\<lambda>e. journal_line (fst e) (snd e)) = (\<lambda>e. ?l e @ [newline])"
    by (rule ext) (simp add: journal_line_def)
  have "newline \<notin> set l \<and> length l + 1 < TXN_PATH_MAX + 4" if l: "l \<in> set (map ?l es)" for l
  proof -
    obtain e where e: "e \<in> set es" "l = ?l e" using l by auto
    have "newline \<notin> set (snd e)" "length (TXN_BACKUP @ slash # snd e) < TXN_PATH_MAX"
      "fst e = CHR ''R'' \<or> fst e = CHR ''N''"
      using coreD(3)[OF assms e(1)] by (auto simp: entry_ok_def)
    then show ?thesis using e(2) by auto
  qed
  then show ?thesis
    using fgets_lines_concat[of "map ?l es" "TXN_PATH_MAX + 4"]
    unfolding journal_bytes_def jl by (simp add: comp_def)
qed

lemma rollback_triple:
  assumes cl: "txn_clean s0"
  shows "valid F (restored s0 es st {}) rollback
     (\<lambda>_. restored s0 es st (journaled es)) (\<lambda>_ s. restored s0 es st {} s \<and> F \<noteq> no_faults)"
proof (rule valid_pointwise)
  fix s1 assume r: "restored s0 es st {} s1"
  then have c: "core s0 es s1" by (simp add: restored_def)
  obtain m where j: "map_of s1 journalp = Some (Reg (journal_bytes es) m)"
    using coreD(2)[OF c] by (auto simp: file_at_Some)
  let ?E = "\<lambda>_ s. restored s0 es st {} s \<and> F \<noteq> no_faults"
  have "fs_find TXN_JOURNAL s1 = Inr (Reg (journal_bytes es) m)"
    using j by (intro fs_find_present[OF coreD(1)[OF c]]) simp_all
  then have op: "fs_open_read TXN_JOURNAL s1 = (Inr (journal_bytes es, m), s1)"
    by (simp add: fs_open_read_def)
  have lines: "valid F (restored s0 es st {}) (each rollback_line (fgets_lines (TXN_PATH_MAX + 4) (journal_bytes es)))
      (\<lambda>_. restored s0 es st (journaled es)) ?E"
  proof -
    have "valid F (restored s0 es st (journaled [])) (each (\<lambda>e. rollback_line (journal_line (fst e) (snd e))) es)
        (\<lambda>_. restored s0 es st (journaled es)) ?E"
    proof (rule valid_each)
      fix ys e zs assume "es = ys @ e # zs"
      moreover have "journaled (ys @ [e]) = insert (resolve (snd e)) (journaled ys)"
        by (simp add: journaled_def)
      ultimately show "valid F (restored s0 es st (journaled ys)) (rollback_line (journal_line (fst e) (snd e)))
          (\<lambda>_. restored s0 es st (journaled (ys @ [e]))) ?E"
        using rollback_line_triple[OF cl, of e es F st "journaled ys"] by simp
    qed
    then show ?thesis unfolding journal_lines[OF c] each_map by (simp add: journaled_def)
  qed
  show "valid F (\<lambda>s. s = s1) rollback (\<lambda>_. restored s0 es st (journaled es)) ?E"
    unfolding rollback_def
  proof (rule valid_andthen[OF valid_optional])
    show "valid F (\<lambda>s. s = s1) (sys_open_read TXN_JOURNAL)
       (\<lambda>x. (\<lambda>f s. \<exists>st'. f = Some st' \<and> fst st' = journal_bytes es \<and> restored s0 es st {} s) (Some x))
       (\<lambda>e s. if e = ENOENT then (\<exists>st'. None = Some st' \<and> fst st' = journal_bytes es \<and> restored s0 es st {} s)
              else ?E e s)"
      using r by (intro valid_syscall) (auto simp: op)
    show "valid F (\<lambda>s. \<exists>st'. f = Some st' \<and> fst st' = journal_bytes es \<and> restored s0 es st {} s)
       (case f of None \<Rightarrow> ret () | Some st \<Rightarrow> each rollback_line (fgets_lines (TXN_PATH_MAX + 4) (fst st)))
       (\<lambda>_. restored s0 es st (journaled es)) ?E" for f :: "(buf \<times> nat) option"
    proof (rule valid_ex, rule valid_pull, rule valid_pull)
      fix st' :: "buf \<times> nat" assume f: "f = Some st'" "fst st' = journal_bytes es"
      show "valid F (restored s0 es st {})
        (case f of None \<Rightarrow> ret () | Some st \<Rightarrow> each rollback_line (fgets_lines (TXN_PATH_MAX + 4) (fst st)))
       (\<lambda>_. restored s0 es st (journaled es)) ?E"
        using lines by (simp add: f)
    qed
  qed
qed

text \<open>After a complete rollback every live file has its old contents.\<close>

lemma restored_old:
  assumes cl: "txn_clean s0" and r: "restored s0 es st (journaled es) s" and x: "\<not> prefix txnp x"
  shows "file_at s x = file_at s0 x"
proof (cases "x \<in> journaled es")
  case True
  then show ?thesis using r by (simp add: restored_def)
next
  case False
  then have "map_of s x = map_of s0 x \<or> (map_of s0 x = None \<and> map_of s x = Some Dir)"
    using coreD(4)[of s0 es s x] r x by (auto simp: restored_def live_ok_def)
  then show ?thesis by (auto simp: file_at_def)
qed

section \<open>Preparing and applying a change\<close>

lemma journal_triple:
  assumes "no_short F"
  shows "valid F (\<lambda>s. s = s1) (journal journalp opc rel)
     (\<lambda>_ s. s = fs_append journalp (journal_line opc rel) s1)
     (\<lambda>_ s. s = s1 \<or> s = fs_append journalp (journal_line opc rel) s1)"
  unfolding journal_def
  by (rule valid_andthen[where R = "\<lambda>_ s. s = s1"], rule valid_require, simp,
      rule valid_andthen[where R = "\<lambda>_ s. s = fs_append journalp (journal_line opc rel) s1"],
      rule valid_write_once)
    (use assms in \<open>auto intro!: valid_quiet\<close>)

definition framed :: "fpath \<Rightarrow> fsys \<Rightarrow> fsys \<Rightarrow> bool" where
  "framed p s1 s \<longleftrightarrow>
     (\<forall>x. \<not> prefix txnp x \<longrightarrow> map_of s x = map_of s1 x \<or>
        (map_of s1 x = None \<and> map_of s x = Some Dir \<and> strict_prefix x p)) \<and>
     (\<forall>x. map_of s (stagep @ x) = map_of s1 (stagep @ x))"

definition aborted :: "fsys \<Rightarrow> buf \<Rightarrow> fsys \<Rightarrow> bool" where
  "aborted s0 st s \<longleftrightarrow> (\<exists>es. restored s0 es st {} s)"

lemma abortedI: "restored s0 es st D s \<Longrightarrow> aborted s0 st s"
  unfolding aborted_def by (auto dest: restored_empty)

text \<open>The state in which the journal entry of \<open>rel\<close> has been made.\<close>

definition prepared :: "fsys \<Rightarrow> jentry list \<Rightarrow> buf \<Rightarrow> string \<Rightarrow> fsys \<Rightarrow> fsys \<Rightarrow> bool" where
  "prepared s0 es st rel s1 s \<longleftrightarrow>
     (\<exists>opc. restored s0 (es @ [(opc, rel)]) st {} s) \<and> framed (resolve rel) s1 s"

lemma journal_entry_triple:
  assumes F: "no_short F" and r: "restored s0 es st {} s2" and e: "entry_ok s0 s2 (opc, rel)"
    and rn: "reg_or_none (map_of s2 (resolve rel))" and fr: "framed (resolve rel) s1 s2"
  shows "valid F (\<lambda>s. s = s2) (journal journalp opc rel) (\<lambda>_. prepared s0 es st rel s1) (\<lambda>_. aborted s0 st)"
proof -
  let ?s = "fs_append journalp (journal_line opc rel) s2"
  have c: "core s0 es s2" using r by (simp add: restored_def)
  have same: "map_of ?s x = map_of s2 x" if "x \<noteq> journalp" for x by (rule file_at_append(2)[OF that])
  have "restored s0 (es @ [(opc, rel)]) st {} ?s"
    using core_journal[OF c e] rn r by (simp add: restored_def file_at_def same)
  moreover have "framed (resolve rel) s1 ?s"
    using fr unfolding framed_def by (auto simp: same prefix_def)
  ultimately show ?thesis
    by (intro valid_conseq[OF journal_triple[OF F]]) (use r in \<open>auto simp: prepared_def intro: abortedI\<close>)
qed

lemma parent_prepared_triple:
  assumes cl: "txn_clean s0" and g: "good_rel rel"
  shows "valid F (prepared s0 es st rel s1) (parent_dirs (slash # rel)) (\<lambda>_. prepared s0 es st rel s1)
     (\<lambda>_. aborted s0 st)"
proof (rule valid_pointwise)
  fix s2 assume "prepared s0 es st rel s1 s2"
  then obtain opc where r: "restored s0 (es @ [(opc, rel)]) st {} s2" and fr: "framed (resolve rel) s1 s2"
    by (auto simp: prepared_def)
  have pj: "resolve rel \<in> journaled (es @ [(opc, rel)])" by (simp add: journaled_def)
  have c: "core s0 (es @ [(opc, rel)]) s2" using r by (simp add: restored_def)
  have np: "\<not> prefix txnp (resolve rel)"
    using journaled_ok(1)[OF c pj] cl by (auto simp: txn_clean_def)
  have gr: "restored s0 (es @ [(opc, rel)]) st {} s \<and> framed (resolve rel) s1 s"
    if gw: "grown {q. strict_prefix q (resolve rel)} s2 s" for s
  proof -
    have t: "touched (resolve rel) s2 s" by (rule touched_grown[OF gw])
    have "framed (resolve rel) s1 s"
      unfolding framed_def
    proof (intro conjI allI impI)
      fix x
      show "\<not> prefix txnp x \<Longrightarrow> map_of s x = map_of s1 x \<or>
          (map_of s1 x = None \<and> map_of s x = Some Dir \<and> strict_prefix x (resolve rel))"
        using fr grown_cases[OF gw, of x] unfolding framed_def by (metis mem_Collect_eq)
      have "\<not> strict_prefix (stagep @ x) (resolve rel)"
        using np by (auto simp: strict_prefix_def prefix_def)
      then show "map_of s (stagep @ x) = map_of s1 (stagep @ x)"
        using fr grown_cases[OF gw, of "stagep @ x"] unfolding framed_def by (metis mem_Collect_eq)
    qed
    then show ?thesis using restored_touched[OF cl r t pj] by simp
  qed
  show "valid F (\<lambda>s. s = s2) (parent_dirs (slash # rel)) (\<lambda>_. prepared s0 es st rel s1) (\<lambda>_. aborted s0 st)"
    by (rule valid_conseq[OF parent_dirs_triple[OF good_rel_paths(1)[OF g] coreD(1)[OF c]]])
      (use gr in \<open>auto simp: prepared_def intro: abortedI\<close>)
qed

text \<open>Where a path the transaction has not changed yet comes from.\<close>

lemma unprepared_same:
  assumes "core s0 es s" "p \<in> targets s0" "p \<notin> journaled es" "\<not> prefix txnp p"
  shows "map_of s p = map_of s0 p"
  using coreD(4)[OF assms(1,4)] assms(2,3) by (auto simp: live_ok_def)

lemma new_entry:
  assumes cl: "txn_clean s0" and c: "core s0 es s" and p: "p = resolve rel" "p \<in> staged s0" "p \<notin> journaled es"
    and g: "good_rel rel" "newline \<notin> set rel" "length (TXN_BACKUP @ slash # rel) < TXN_PATH_MAX"
    and f: "fs_find (slash # rel) s = Inl ENOENT"
  shows "entry_ok s0 s (CHR ''N'', rel)" "map_of s p = None"
proof -
  have wf: "wf_fs s0" and np: "\<not> prefix txnp p" using cl p(2) by (auto simp: txn_clean_def)
  have pne: "p \<noteq> []" using good_rel_resolve(2)[OF g(1)] p(1) by simp
  have w: "walk_err s p = Some ENOENT \<or> walk_err s p = None \<and> map_of s p = None"
    using f p(1) by (auto simp: fs_find_def split: option.splits if_splits)
  then show none: "map_of s p = None" using walk_err_Some(1)[of s p] coreD(1)[OF c] by auto
  have "clear_upto s0 (butlast p)"
    unfolding clear_upto_def
  proof (intro allI impI)
    fix x assume "prefix x (butlast p)"
    then have x: "strict_prefix x p" using pne by (simp add: strict_prefix_butlast)
    then have "map_of s x = None \<or> map_of s x = Some Dir"
      using w walk_err_ENOENT[OF coreD(1)[OF c] _ x] walk_err_None[of s p] by blast
    moreover have "x \<notin> targets s0"
      using staged_ancestor[OF wf p(2) x] cl x p(2) by (auto simp: txn_clean_def strict_prefix_def)
    then have "x \<notin> journaled es" using journaled_ok(1)[OF c] by blast
    moreover have "\<not> prefix txnp x" using np x by (auto simp: strict_prefix_def dest: prefix_order.trans)
    ultimately show "map_of s0 x = None \<or> map_of s0 x = Some Dir"
      using coreD(4)[OF c, of x] by (auto simp: live_ok_def)
  qed
  moreover have "map_of s0 p = None" using unprepared_same[OF c _ p(3) np] p(2) none by auto
  ultimately show "entry_ok s0 s (CHR ''N'', rel)" using g p by (simp add: entry_ok_def)
qed

lemma framed_refl: "framed p s s"
  by (simp add: framed_def)

lemma framed_backup:
  assumes c: "core s0 es s1" and t: "touched (bakp @ p) s1 s"
  shows "framed p s1 s"
  unfolding framed_def
proof (intro conjI allI impI)
  fix x
  have d: "map_of s1 x = Some Dir" if "strict_prefix x (bakp @ p)" "\<not> prefix txnp x"
  proof -
    have "prefix x txnp \<or> prefix txnp x"
      using that(1) by (intro prefix_same_cases[of x "bakp @ p"]) (auto simp: strict_prefix_def prefix_def)
    then show ?thesis using that(2) journal_dir[OF c] by blast
  qed
  show "\<not> prefix txnp x \<Longrightarrow> map_of s x = map_of s1 x \<or>
      (map_of s1 x = None \<and> map_of s x = Some Dir \<and> strict_prefix x p)"
    using touched_other[OF t, of x] d by (auto simp: prefix_def)
  have "\<not> strict_prefix (stagep @ x) (bakp @ p)" "stagep @ x \<noteq> bakp @ p"
    by (auto simp: strict_prefix_def)
  then show "map_of s (stagep @ x) = map_of s1 (stagep @ x)"
    using touched_other[OF t, of "stagep @ x"] by auto
qed

lemma backup_triple:
  assumes F: "no_short F" and cl: "txn_clean s0" and r: "restored s0 es st {} s1"
    and p: "p = resolve rel" "p \<in> targets s0" "p \<notin> journaled es"
    and g: "good_rel rel" "newline \<notin> set rel" "length (TXN_BACKUP @ slash # rel) < TXN_PATH_MAX"
    and n: "map_of s1 p = Some (Reg k m)"
  shows "valid F (\<lambda>s. s = s1)
     (andthen (copy_file (slash # rel) (TXN_BACKUP @ slash # rel)) (\<lambda>u. journal journalp (CHR ''R'') rel))
     (\<lambda>_. prepared s0 es st rel s1) (\<lambda>_. aborted s0 st)"
proof (rule valid_andthen)
  have c: "core s0 es s1" using r by (simp add: restored_def)
  have np: "\<not> prefix txnp p" using cl p(2) by (auto simp: txn_clean_def)
  note fp = good_rel_paths[OF g(1)]
  have bk: "restored s0 es st {} s \<and> framed p s1 s" if t: "touched (bakp @ p) s1 s" for s
    using core_backup[OF c t p(3)] framed_backup[OF c t] touched_file_at[OF t, of statep] r
    by (simp add: restored_def)
  let ?R = "\<lambda>s. \<exists>m. holds_at (bakp @ p) s1 m k s"
  show "valid F (\<lambda>s. s = s1) (copy_file (slash # rel) (TXN_BACKUP @ slash # rel)) (\<lambda>_. ?R) (\<lambda>_. aborted s0 st)"
    by (rule valid_conseq[OF copy_file_triple[OF coreD(1)[OF c] _ fp(2) refl]])
      (use n p(1) fp(3) bk file_path_last[OF fp(1)] in \<open>auto intro: abortedI\<close>)
  show "valid F ?R (journal journalp (CHR ''R'') rel) (\<lambda>_. prepared s0 es st rel s1) (\<lambda>_. aborted s0 st)" for u :: unit
  proof (rule valid_pointwise)
    fix s2 assume "?R s2"
    then have t: "touched (bakp @ p) s1 s2" and f: "file_at s2 (bakp @ p) = Some k"
      by (auto simp: holds_at_def file_at_def)
    have "p \<noteq> bakp @ p" using np by (auto simp: prefix_def)
    then have "map_of s2 p = Some (Reg k m)" using touched_keeps_file[OF t _ n] by blast
    then show "valid F (\<lambda>s. s = s2) (journal journalp (CHR ''R'') rel) (\<lambda>_. prepared s0 es st rel s1) (\<lambda>_. aborted s0 st)"
      using bk[OF t] unprepared_same[OF c p(2,3) np] n f g p
      by (intro journal_entry_triple[OF F]) (auto simp: entry_ok_def)
  qed
qed

lemma prepare_target_triple:
  assumes F: "no_short F" and cl: "txn_clean s0" and r: "restored s0 es st {} s1"
    and p: "p = resolve rel" "p \<in> targets s0" "p \<notin> journaled es"
    and g: "good_rel rel" "newline \<notin> set rel"
    and k: "p \<in> staged s0 \<or> (\<exists>c m. map_of s1 p = Some (Reg c m))"
  shows "valid F (\<lambda>s. s = s1) (prepare_target journalp rel) (\<lambda>_. prepared s0 es st rel s1) (\<lambda>_. aborted s0 st)"
  unfolding prepare_target_def
proof (rule valid_andthen)
  let ?L = "length (TXN_BACKUP @ slash # rel) < TXN_PATH_MAX"
  have c: "core s0 es s1" using r by (simp add: restored_def)
  note ab = abortedI[OF r]
  show "valid F (\<lambda>s. s = s1) (require (safe_rel rel \<and> length (slash # rel) < TXN_PATH_MAX \<and> ?L)) (\<lambda>_ s. ?L \<and> s = s1)
     (\<lambda>_. aborted s0 st)"
    using ab by (intro valid_require) auto
  let ?S = "\<lambda>x s. s = s1 \<and> (case x of None \<Rightarrow> fs_find (slash # rel) s1 = Inl ENOENT | Some n \<Rightarrow> map_of s1 p = Some n)"
  show "valid F (\<lambda>s. ?L \<and> s = s1)
     (andthen (optional (sys_lstat (slash # rel))) (\<lambda>st. andthen
        (case st of Some n \<Rightarrow>
           andthen (require (is_reg n)) (\<lambda>u.
           andthen (copy_file (slash # rel) (TXN_BACKUP @ slash # rel)) (\<lambda>u. journal journalp (CHR ''R'') rel))
         | None \<Rightarrow> journal journalp (CHR ''N'') rel) (\<lambda>u. parent_dirs (slash # rel))))
     (\<lambda>_. prepared s0 es st rel s1) (\<lambda>_. aborted s0 st)" for u :: unit
  proof (rule valid_pull, rule valid_andthen[OF valid_optional])
    show "valid F (\<lambda>s. s = s1) (sys_lstat (slash # rel)) (\<lambda>x. ?S (Some x))
       (\<lambda>e s. if e = ENOENT then ?S None s else aborted s0 st s)"
    proof (rule valid_syscall)
      fix s assume s: "s = s1"
      show "case fs_lstat (slash # rel) s of (Inr x, s') \<Rightarrow> ?S (Some x) s'
          | (Inl e, s') \<Rightarrow> if e = ENOENT then ?S None s' else aborted s0 st s'"
        using s ab fs_find_Inr[of "slash # rel" s1] p(1) by (cases "fs_find (slash # rel) s1") (auto simp: fs_lstat_def)
    qed (use ab in auto)
    fix x
    assume l: ?L
    have pre: "valid F (?S x)
        (case x of Some n \<Rightarrow>
           andthen (require (is_reg n)) (\<lambda>u.
           andthen (copy_file (slash # rel) (TXN_BACKUP @ slash # rel)) (\<lambda>u. journal journalp (CHR ''R'') rel))
         | None \<Rightarrow> journal journalp (CHR ''N'') rel) (\<lambda>_. prepared s0 es st rel s1) (\<lambda>_. aborted s0 st)"
    proof (cases x)
      case None
      show ?thesis
      proof (cases "fs_find (slash # rel) s1 = Inl ENOENT")
        case True
        have "p \<in> staged s0"
          using k fs_find_present[OF coreD(1)[OF c], of "slash # rel"] True p(1)
            file_path_last[OF good_rel_paths(1)[OF g(1)]] by auto
        from new_entry[OF cl c p(1) this p(3) g l True] None p(1) show ?thesis
          by (auto intro!: valid_pre[OF journal_entry_triple[OF F r _ _ framed_refl]])
      next
        case False
        then show ?thesis using None by (auto simp: valid_def)
      qed
    next
      case (Some n)
      show ?thesis
      proof (cases "map_of s1 p = Some n \<and> is_reg n")
        case True
        then obtain k m where "map_of s1 p = Some (Reg k m)" "n = Reg k m"
          by (cases n) (auto simp: is_reg_def)
        with True Some backup_triple[OF F cl r p g l] show ?thesis by (auto intro: valid_pre)
      next
        case False
        then show ?thesis using Some ab
          by (cases "is_reg n") (auto intro!: valid_throw simp: valid_def[where P = "\<lambda>_. False"])
      qed
    qed
    show "valid F (?S x) (andthen
        (case x of Some n \<Rightarrow>
           andthen (require (is_reg n)) (\<lambda>u.
           andthen (copy_file (slash # rel) (TXN_BACKUP @ slash # rel)) (\<lambda>u. journal journalp (CHR ''R'') rel))
         | None \<Rightarrow> journal journalp (CHR ''N'') rel) (\<lambda>u. parent_dirs (slash # rel)))
     (\<lambda>_. prepared s0 es st rel s1) (\<lambda>_. aborted s0 st)"
      by (rule valid_andthen[OF pre]) (rule parent_prepared_triple[OF cl g(1)])
  qed
qed

section \<open>The deletions\<close>

text \<open>\<open>P\<close>: the staged files installed so far, \<open>Q\<close>: the deletions made so far.\<close>

definition progress :: "fsys \<Rightarrow> buf \<Rightarrow> fpath set \<Rightarrow> fpath set \<Rightarrow> fsys \<Rightarrow> bool" where
  "progress s0 st P Q s \<longleftrightarrow> P \<subseteq> staged s0 \<and> Q \<subseteq> deletions s0 \<and>
     (\<exists>es. restored s0 es st {} s \<and> journaled es \<subseteq> P \<union> Q) \<and>
     (\<forall>x. map_of s (stagep @ x) = (if x \<in> P then None else map_of s0 (stagep @ x))) \<and>
     (\<forall>x \<in> P. file_at s x = file_at s0 (stagep @ x)) \<and> (\<forall>x \<in> Q. file_at s x = None)"

lemma progress_aborted: "progress s0 st P Q s \<Longrightarrow> aborted s0 st s"
  by (auto simp: progress_def intro: abortedI)

lemma progressD:
  assumes "progress s0 st P Q s"
  shows "\<And>x. x \<in> P \<Longrightarrow> x \<in> staged s0" "\<And>x. x \<in> Q \<Longrightarrow> x \<in> deletions s0"
    "\<And>x. map_of s (stagep @ x) = (if x \<in> P then None else map_of s0 (stagep @ x))"
    "\<And>x. x \<in> P \<Longrightarrow> file_at s x = file_at s0 (stagep @ x)" "\<And>x. x \<in> Q \<Longrightarrow> file_at s x = None"
  using assms by (auto simp: progress_def)

lemma progress_gone:
  assumes "progress s0 st P Q s" "p \<in> deletions s0" "file_at s p = None"
  shows "progress s0 st P (insert p Q) s"
proof -
  obtain es where "restored s0 es st {} s" "journaled es \<subseteq> P \<union> Q" using assms(1) by (auto simp: progress_def)
  then have "\<exists>es. restored s0 es st {} s \<and> journaled es \<subseteq> P \<union> insert p Q" by blast
  then show ?thesis using assms unfolding progress_def by simp
qed

lemma framed_file_at: "framed p s1 s \<Longrightarrow> \<not> prefix txnp x \<Longrightarrow> file_at s x = file_at s1 x"
  unfolding framed_def by (metis file_at_def node.simps(8) option.simps(4,5))

lemma txn_cleanD:
  assumes "txn_clean s0"
  shows "wf_fs s0" "\<And>p. p \<in> staged s0 \<Longrightarrow> \<not> prefix txnp p" "\<And>p. p \<in> deletions s0 \<Longrightarrow> \<not> prefix txnp p"
    "\<And>d p. d \<in> deletions s0 \<Longrightarrow> p \<in> staged s0 \<Longrightarrow> \<not> prefix d p"
    "\<And>p n. p \<in> staged s0 \<Longrightarrow> n \<in> set p \<Longrightarrow> newline \<notin> set n"
  using assms by (auto simp: txn_clean_def)

lemma delete_prepared_triple:
  assumes cl: "txn_clean s0" and pr: "progress s0 st P Q s1" and es: "journaled es \<subseteq> P \<union> Q"
    and p: "p = resolve rel" "p \<in> deletions s0" and n: "map_of s1 p = Some (Reg k m)"
  shows "valid F (prepared s0 es st rel s1) (sys_unlink (slash # rel))
     (\<lambda>_. progress s0 st P (insert p Q)) (\<lambda>_. aborted s0 st)"
proof (rule valid_pointwise)
  fix s2 assume "prepared s0 es st rel s1 s2"
  then obtain opc where r: "restored s0 (es @ [(opc, rel)]) st {} s2" and fr: "framed p s1 s2"
    using p by (auto simp: prepared_def)
  have np: "\<not> prefix txnp p" by (rule txn_cleanD(3)[OF cl p(2)])
  have m2: "map_of s2 p = Some (Reg k m)" using fr n np by (auto simp: framed_def)
  have c: "core s0 (es @ [(opc, rel)]) s2" using r by (simp add: restored_def)
  have pj: "p \<in> journaled (es @ [(opc, rel)])" using p by (simp add: journaled_def)
  have pne: "p \<noteq> []" using m2 wf_fsD(1)[OF coreD(1)[OF c]] by auto
  let ?s = "AList.delete p s2"
  have t: "touched p s2 ?s" using touched_unset[OF touched_refl[OF coreD(1)[OF c]] pne] m2 by simp
  have pP: "p \<notin> P" using pr txn_cleanD(4)[OF cl p(2), of p] by (auto simp: progress_def)
  have "progress s0 st P (insert p Q) ?s"
    unfolding progress_def
  proof (intro conjI ballI allI)
    show "P \<subseteq> staged s0" "insert p Q \<subseteq> deletions s0" using pr p by (auto simp: progress_def)
    show "\<exists>es. restored s0 es st {} ?s \<and> journaled es \<subseteq> P \<union> insert p Q"
      using restored_touched[OF cl r t pj] es p by (intro exI[of _ "es @ [(opc, rel)]"]) (auto simp: journaled_def)
    have "p \<noteq> stagep @ x" for x using np by (auto simp: prefix_def)
    then show "map_of ?s (stagep @ x) = (if x \<in> P then None else map_of s0 (stagep @ x))" for x
      using pr fr by (auto simp: progress_def framed_def)
    have same: "file_at ?s x = file_at s1 x" if "x \<noteq> p" "\<not> prefix txnp x" for x
      using framed_file_at[OF fr that(2)] touched_file_at[OF t that(1)] by simp
    show "file_at ?s x = file_at s0 (stagep @ x)" if x: "x \<in> P" for x
    proof -
      have "x \<noteq> p" using x pP by auto
      from same[OF this txn_cleanD(2)[OF cl progressD(1)[OF pr x]]] progressD(4)[OF pr x] show ?thesis by simp
    qed
    show "file_at ?s x = None" if x: "x \<in> insert p Q" for x
    proof (cases "x = p")
      case False
      then have "x \<in> Q" using x by simp
      from same[OF False txn_cleanD(3)[OF cl progressD(2)[OF pr this]]] progressD(5)[OF pr this] show ?thesis by simp
    qed (simp add: file_at_def)
  qed
  moreover have "aborted s0 st s2" by (rule abortedI[OF r])
  moreover have "fs_unlink (slash # rel) s2 = (Inr (), ?s) \<or> (\<exists>e. fs_unlink (slash # rel) s2 = (Inl e, s2))"
    using m2 p fs_find_Inr[of "slash # rel" s2]
    by (cases "fs_find (slash # rel) s2") (auto simp: fs_unlink_def)
  ultimately show "valid F (\<lambda>s. s = s2) (sys_unlink (slash # rel)) (\<lambda>_. progress s0 st P (insert p Q)) (\<lambda>_. aborted s0 st)"
    by (intro valid_syscall) auto
qed

lemma apply_delete_triple:
  assumes F: "no_short F" and cl: "txn_clean s0" and p: "p = resolve rel" "p \<in> deletions s0"
    and l: "nul \<notin> set rel" "newline \<notin> set rel"
  shows "valid F (progress s0 st P Q) (apply_delete journalp rel)
     (\<lambda>_. progress s0 st P (insert p Q)) (\<lambda>_. aborted s0 st)"
proof (rule valid_pointwise)
  fix s1 assume pr: "progress s0 st P Q s1"
  note ab = progress_aborted[OF pr]
  obtain es where r: "restored s0 es st {} s1" and es: "journaled es \<subseteq> P \<union> Q"
    using pr by (auto simp: progress_def)
  have c: "core s0 es s1" using r by (simp add: restored_def)
  have pP: "p \<notin> P" using pr txn_cleanD(4)[OF cl p(2), of p] by (auto simp: progress_def)
  let ?S = "\<lambda>x s. s = s1 \<and> fs_find (slash # rel) s1 = (case x of None \<Rightarrow> Inl ENOENT | Some n \<Rightarrow> Inr n)"
  show "valid F (\<lambda>s. s = s1) (apply_delete journalp rel) (\<lambda>_. progress s0 st P (insert p Q)) (\<lambda>_. aborted s0 st)"
    unfolding apply_delete_def
  proof (rule valid_andthen)
    show "valid F (\<lambda>s. s = s1) (require (safe_rel rel \<and> length (slash # rel) < TXN_PATH_MAX))
      (\<lambda>_ s. safe_rel rel \<and> s = s1) (\<lambda>_. aborted s0 st)"
      using ab by (intro valid_require) auto
    show "valid F (\<lambda>s. safe_rel rel \<and> s = s1)
      (andthen (optional (sys_lstat (slash # rel))) (\<lambda>st. case st of None \<Rightarrow> ret ()
        | Some n \<Rightarrow> andthen (require (is_reg n)) (\<lambda>u. andthen (prepare_target journalp rel) (\<lambda>u. sys_unlink (slash # rel)))))
      (\<lambda>_. progress s0 st P (insert p Q)) (\<lambda>_. aborted s0 st)" for u :: unit
    proof (rule valid_pull, rule valid_andthen[OF valid_optional])
      show "valid F (\<lambda>s. s = s1) (sys_lstat (slash # rel)) (\<lambda>x. ?S (Some x))
         (\<lambda>e s. if e = ENOENT then ?S None s else aborted s0 st s)"
        using ab by (intro valid_syscall) (auto simp: fs_lstat_def split: sum.splits)
      fix x assume sr: "safe_rel rel"
      show "valid F (?S x) (case x of None \<Rightarrow> ret ()
        | Some n \<Rightarrow> andthen (require (is_reg n)) (\<lambda>u. andthen (prepare_target journalp rel) (\<lambda>u. sys_unlink (slash # rel))))
        (\<lambda>_. progress s0 st P (insert p Q)) (\<lambda>_. aborted s0 st)"
      proof (cases x)
        case None
        have "map_of s1 p = None" if "fs_find (slash # rel) s1 = Inl ENOENT"
          using that p walk_err_Some(1)[of s1 p] coreD(1)[OF c] by (auto simp: fs_find_def split: option.splits if_splits)
        then show ?thesis using None progress_gone[OF pr p(2)] by (auto intro!: valid_ret simp: file_at_def)
      next
        case (Some n)
        show ?thesis
        proof (cases "fs_find (slash # rel) s1 = Inr n \<and> is_reg n")
          case True
          then obtain k m where n: "n = Reg k m" by (cases n) (auto simp: is_reg_def)
          then have m: "map_of s1 p = Some (Reg k m)" using True fs_find_Inr[of "slash # rel" s1 n] p by auto
          have "last (slash # rel) \<noteq> slash"
            using True n by (auto simp: fs_find_def split: option.splits if_splits)
          then have g: "good_rel rel" using sr l by (auto simp: good_rel_def safe_rel_def split: if_splits)
          have "p \<notin> journaled es"
            using es pP m progressD(5)[OF pr, of p] by (auto simp: file_at_def)
          from prepare_target_triple[OF F cl r p(1) _ this g l(2)] p(2) m
          have "valid F (\<lambda>s. s = s1) (prepare_target journalp rel) (\<lambda>_. prepared s0 es st rel s1) (\<lambda>_. aborted s0 st)"
            by blast
          from valid_andthen[OF this delete_prepared_triple[OF cl pr es p m]] Some True
          show ?thesis by (auto intro: valid_pre)
        next
          case False
          then show ?thesis using Some ab
            by (cases "is_reg n") (auto intro!: valid_throw simp: valid_def[where P = "\<lambda>_. False"])
        qed
      qed
    qed
  qed
qed

section \<open>The staged files\<close>

lemma core_agree:
  assumes c: "core s0 es s" and wf: "wf_fs s'" and live: "\<And>x. \<not> prefix txnp x \<Longrightarrow> map_of s' x = map_of s x"
    and j: "map_of s' journalp = map_of s journalp" and b: "\<And>x. map_of s' (bakp @ x) = map_of s (bakp @ x)"
  shows "core s0 es s'"
  unfolding core_def
proof (intro conjI ballI allI impI)
  show "wf_fs s'" by (rule wf)
  show "file_at s' journalp = Some (journal_bytes es)" using coreD(2)[OF c] j by (simp add: file_at_def)
  show "entry_ok s0 s' e" if "e \<in> set es" for e
    using coreD(3)[OF c that] by (rule entry_ok_keeps) (use b in \<open>simp add: file_at_def\<close>)
  show "live_ok s0 es s' x" if "\<not> prefix txnp x" for x
    using coreD(4)[OF c that] live_ok_same[OF live[OF that]] by blast
qed

lemma install_prepared_triple:
  assumes cl: "txn_clean s0" and pr: "progress s0 st P Q s1" and es: "journaled es \<subseteq> P \<union> Q"
    and p: "p = resolve rel" "p \<in> staged s0" "p \<notin> P" and src: "resolve src = stagep @ p"
  shows "valid F (prepared s0 es st rel s1) (sys_rename src (slash # rel))
     (\<lambda>_. progress s0 st (insert p P) Q) (\<lambda>_. aborted s0 st)"
proof (rule valid_pointwise)
  fix s2 assume "prepared s0 es st rel s1 s2"
  then obtain opc where r: "restored s0 (es @ [(opc, rel)]) st {} s2" and fr: "framed p s1 s2"
    using p by (auto simp: prepared_def)
  let ?es = "es @ [(opc, rel)]" and ?q = "stagep @ p"
  obtain k m where k: "map_of s0 ?q = Some (Reg k m)" using p(2) by (auto simp: staged_def)
  have np: "\<not> prefix txnp p" by (rule txn_cleanD(2)[OF cl p(2)])
  have q2: "map_of s2 ?q = Some (Reg k m)" using fr k progressD(3)[OF pr, of p] p(3) by (simp add: framed_def)
  have c: "core s0 ?es s2" using r by (simp add: restored_def)
  have pj: "p \<in> journaled ?es" using p by (simp add: journaled_def)
  have g: "good_rel rel" using coreD(3)[OF c, of "(opc, rel)"] by (simp add: entry_ok_def)
  note v = good_rel_resolve(2,3)[OF g, folded p(1)]
  let ?s' = "AList.delete ?q s2" and ?s = "AList.update p (Reg k m) (AList.delete ?q s2)"
  have qp: "?q \<noteq> p" "stagep @ x \<noteq> p" "bakp @ x \<noteq> p" for x using np by (auto simp: prefix_def)
  have nl: "\<not> prefix txnp x \<Longrightarrow> x \<noteq> ?q" for x by (auto simp: prefix_def)
  have "wf_fs ?s'" using wf_fs_delete[OF coreD(1)[OF c], of ?q] q2 by simp
  then have c': "core s0 ?es ?s'" by (rule core_agree[OF c]) (use nl in auto)
  have r': "restored s0 ?es st {} ?s'" using c' r by (simp add: restored_def file_at_def)
  have inst: "progress s0 st (insert p P) Q ?s" if w: "walk_err s2 p = None"
  proof -
    have "walk_err ?s' p = None"
      unfolding walk_err_None
    proof (intro allI impI)
      fix x assume x: "strict_prefix x p"
      then have "\<not> prefix txnp x" using np by (auto simp: strict_prefix_def dest: prefix_order.trans)
      then show "map_of ?s' x = Some Dir" using w x nl by (auto simp: walk_err_None)
    qed
    moreover have "map_of ?s' p \<noteq> Some Dir"
      using coreD(4)[OF c' np] pj by (auto simp: live_ok_def split: if_splits)
    ultimately have t: "touched p ?s' ?s" using touched_set[OF touched_refl[OF coreD(1)[OF c']] v] by blast
    have same: "file_at ?s x = file_at s1 x" if "x \<noteq> p" "\<not> prefix txnp x" for x
      using that nl framed_file_at[OF fr that(2)] by (auto simp: file_at_def)
    show ?thesis
      unfolding progress_def
    proof (intro conjI allI ballI)
      show "insert p P \<subseteq> staged s0" "Q \<subseteq> deletions s0" using pr p by (auto simp: progress_def)
      show "\<exists>es. restored s0 es st {} ?s \<and> journaled es \<subseteq> insert p P \<union> Q"
        using restored_touched[OF cl r' t pj] es p by (intro exI[of _ ?es]) (auto simp: journaled_def)
      show "map_of ?s (stagep @ x) = (if x \<in> insert p P then None else map_of s0 (stagep @ x))" for x
        using progressD(3)[OF pr, of x] fr qp(2)[of x] unfolding framed_def by auto
      show "file_at ?s x = file_at s0 (stagep @ x)" if x: "x \<in> insert p P" for x
      proof (cases "x = p")
        case True
        then show ?thesis using k by (simp add: file_at_def)
      next
        case False
        then have "x \<in> P" using x by simp
        from same[OF False txn_cleanD(2)[OF cl progressD(1)[OF pr this]]] progressD(4)[OF pr this] show ?thesis by simp
      qed
      show "file_at ?s x = None" if x: "x \<in> Q" for x
      proof -
        have "x \<in> deletions s0" by (rule progressD(2)[OF pr x])
        then have "x \<noteq> p" "\<not> prefix txnp x" using txn_cleanD(3,4)[OF cl] p(2) by auto
        from same[OF this] progressD(5)[OF pr x] show ?thesis by simp
      qed
    qed
  qed
  have "fs_rename src (slash # rel) s2 = (Inr (), ?s) \<and> walk_err s2 p = None
      \<or> (\<exists>e. fs_rename src (slash # rel) s2 = (Inl e, s2))"
    using q2 p(1) src qp(1) fs_find_Inr[of src s2]
    by (cases "fs_find src s2") (auto simp: fs_rename_def split: option.splits)
  then show "valid F (\<lambda>s. s = s2) (sys_rename src (slash # rel)) (\<lambda>_. progress s0 st (insert p P) Q) (\<lambda>_. aborted s0 st)"
    using inst abortedI[OF r] by (intro valid_syscall) auto
qed

lemma rel_join_good:
  assumes "rel = [] \<or> good_rel rel" "valid_name n"
  shows "good_rel (rel_join rel n)" "resolve (rel_join rel n) = (if rel = [] then [] else resolve rel) @ [n]"
proof -
  have n: "n \<noteq> []" "slash \<notin> set n" "nul \<notin> set n" "plain n" "hd n \<noteq> slash" "last n \<noteq> slash"
    using assms(2) by (auto simp: valid_name_def plain_def) (metis hd_in_set, metis last_in_set)
  have "good_rel (rel_join rel n) \<and> resolve (rel_join rel n) = (if rel = [] then [] else resolve rel) @ [n]"
  proof (cases "rel = []")
    case True
    have "safe_scan n" using n by (simp add: safe_scan_iff split_on_single)
    then show ?thesis using True n resolve_name[OF assms(2)] by (simp add: rel_join_def good_rel_def safe_rel_def)
  next
    case False
    then have g: "good_rel rel" using assms(1) by simp
    then have h: "hd rel \<noteq> slash" "nul \<notin> set rel" by (auto simp: good_rel_def safe_rel_def)
    have j: "rel_join rel n = rel @ slash # n" using False by (simp add: rel_join_def)
    have "safe_scan (rel @ slash # n)"
      using good_rel_split[OF g] n by (simp add: safe_scan_iff split_on_append split_on_single butlast_append)
    then show ?thesis using False n h resolve_snoc_name[OF assms(2), of rel]
      by (simp add: j good_rel_def safe_rel_def)
  qed
  then show "good_rel (rel_join rel n)" "resolve (rel_join rel n) = (if rel = [] then [] else resolve rel) @ [n]"
    by simp_all
qed

lemma staged_newline:
  assumes "txn_clean s0" "good_rel rel" "resolve rel \<in> staged s0"
  shows "newline \<notin> set rel"
  using txn_cleanD(5)[OF assms(1,3)] set_split_on[of rel slash] good_rel_resolve(1)[OF assms(2)] by auto

lemma stage_file_triple:
  assumes F: "no_short F" and cl: "txn_clean s0" and pr: "progress s0 st P Q s1"
    and g: "good_rel rel" and p: "p = resolve rel" "p \<in> staged s0" "p \<notin> P" and src: "resolve src = stagep @ p"
  shows "valid F (\<lambda>s. s = s1)
     (andthen (prepare_target journalp rel) (\<lambda>u.
      andthen (require (length (slash # rel) < TXN_PATH_MAX)) (\<lambda>u. sys_rename src (slash # rel))))
     (\<lambda>_. progress s0 st (insert p P) Q) (\<lambda>_. aborted s0 st)"
proof -
  obtain es where r: "restored s0 es st {} s1" and es: "journaled es \<subseteq> P \<union> Q"
    using pr by (auto simp: progress_def)
  have "p \<notin> Q" using progressD(2)[OF pr] txn_cleanD(4)[OF cl _ p(2), of p] by auto
  then have "p \<notin> journaled es" using es p(3) by auto
  from prepare_target_triple[OF F cl r p(1) _ this g staged_newline[OF cl g]] p
  have 1: "valid F (\<lambda>s. s = s1) (prepare_target journalp rel) (\<lambda>_. prepared s0 es st rel s1) (\<lambda>_. aborted s0 st)"
    by blast
  have 2: "valid F (prepared s0 es st rel s1) (require (length (slash # rel) < TXN_PATH_MAX))
      (\<lambda>_. prepared s0 es st rel s1) (\<lambda>_. aborted s0 st)"
    by (rule valid_require) (auto simp: prepared_def intro: abortedI)
  show ?thesis
    by (rule valid_andthen[OF 1], rule valid_andthen[OF 2]) (rule install_prepared_triple[OF cl pr es p src])
qed

section \<open>Walking the stage\<close>

lemma apply_stage_dir_io:
  "apply_stage_dir j dir rel = andthen (sys_opendir dir) (\<lambda>ns. apply_stage_names j dir rel ns)"
  by (rule ext) simp

lemma apply_stage_names_io:
  "apply_stage_names j dir rel [] = ret ()"
  "apply_stage_names j dir rel (n # ns) =
     (if length (dir @ slash # n) \<ge> TXN_PATH_MAX \<or> length (rel_join rel n) \<ge> TXN_PATH_MAX then throw EINVAL
      else andthen (sys_lstat (dir @ slash # n)) (\<lambda>st.
           andthen
             (if st = Dir then apply_stage_dir j (dir @ slash # n) (rel_join rel n)
              else andthen (require (is_reg st)) (\<lambda>u.
                   andthen (prepare_target j (rel_join rel n)) (\<lambda>u.
                   andthen (require (length (slash # rel_join rel n) < TXN_PATH_MAX)) (\<lambda>u.
                   sys_rename (dir @ slash # n) (slash # rel_join rel n)))))
             (\<lambda>u. apply_stage_names j dir rel ns)))"
  by (rule ext, simp add: ret_def throw_def)+

declare apply_stage_dir.simps [simp del] apply_stage_names.simps [simp del]

text \<open>The staged files below a directory of the stage.\<close>

definition under :: "fsys \<Rightarrow> fpath \<Rightarrow> fpath set" where
  "under s0 x = {p \<in> staged s0. prefix x p}"

definition stage_pair :: "fpath \<Rightarrow> string \<Rightarrow> string \<Rightarrow> bool" where
  "stage_pair x dir rel \<longleftrightarrow> resolve dir = stagep @ x \<and> (rel = [] \<or> good_rel rel) \<and>
     x = (if rel = [] then [] else resolve rel)"

lemma stage_pair_child:
  assumes "stage_pair x dir rel" "valid_name n"
  shows "stage_pair (x @ [n]) (dir @ slash # n) (rel_join rel n)"
  using assms rel_join_good[of rel n] resolve_snoc_name[OF assms(2), of dir]
  by (auto simp: stage_pair_def good_rel_def safe_rel_def)

lemma under_file:
  assumes "wf_fs s0" "x \<in> staged s0"
  shows "under s0 x = {x}"
  using assms staged_ancestor[OF assms(1)] by (auto simp: under_def strict_prefix_def)

lemma under_dir:
  assumes wf: "wf_fs s0" and d: "map_of s0 (stagep @ x) = Some Dir"
    and ns: "\<And>n. n \<in> N \<longleftrightarrow> map_of s0 (stagep @ x @ [n]) \<noteq> None"
  shows "under s0 x = (\<Union>n \<in> N. under s0 (x @ [n]))"
proof
  show "under s0 x \<subseteq> (\<Union>n \<in> N. under s0 (x @ [n]))"
  proof
    fix p assume p: "p \<in> under s0 x"
    then obtain c m where k: "map_of s0 (stagep @ p) = Some (Reg c m)" by (auto simp: under_def staged_def)
    have "p \<noteq> x" using d k by auto
    moreover obtain zs where "p = x @ zs" using p by (auto simp: under_def prefix_def)
    ultimately obtain n r where r: "p = x @ n # r" by (cases zs) auto
    have "map_of s0 (stagep @ x @ [n]) \<noteq> None"
    proof (cases "r = []")
      case False
      then have "strict_prefix (stagep @ x @ [n]) (stagep @ p)" by (simp add: r strict_prefix_def)
      then show ?thesis using wf_fs_ancestor[OF wf k] by simp
    qed (use k r in simp)
    then show "p \<in> (\<Union>n \<in> N. under s0 (x @ [n]))" using ns p r by (auto simp: under_def)
  qed
  show "(\<Union>n \<in> N. under s0 (x @ [n])) \<subseteq> under s0 x"
    by (auto simp: under_def dest: append_prefixD)
qed

lemma under_disjoint: "n \<noteq> n' \<Longrightarrow> under s0 (x @ [n]) \<inter> under s0 (x @ [n']) = {}"
  by (auto simp: under_def prefix_def)

lemma stage_names_triple:
  assumes F: "no_short F" and cl: "txn_clean s0" and sp: "stage_pair x dir rel"
    and IH: "\<And>n P. length (dir @ slash # n) < TXN_PATH_MAX \<Longrightarrow> valid_name n \<Longrightarrow> P \<inter> under s0 (x @ [n]) = {} \<Longrightarrow>
       valid F (progress s0 st P Q) (apply_stage_dir journalp (dir @ slash # n) (rel_join rel n))
         (\<lambda>_. progress s0 st (P \<union> under s0 (x @ [n])) Q) (\<lambda>_. aborted s0 st)"
  shows "distinct ns \<Longrightarrow> (\<forall>n \<in> set ns. valid_name n) \<Longrightarrow> P \<inter> (\<Union>n \<in> set ns. under s0 (x @ [n])) = {} \<Longrightarrow>
     valid F (progress s0 st P Q) (apply_stage_names journalp dir rel ns)
       (\<lambda>_. progress s0 st (P \<union> (\<Union>n \<in> set ns. under s0 (x @ [n]))) Q) (\<lambda>_. aborted s0 st)"
proof (induction ns arbitrary: P)
  case Nil
  then show ?case by (auto simp: apply_stage_names_io intro!: valid_ret)
next
  case (Cons n ns)
  let ?c = "dir @ slash # n" and ?r = "rel_join rel n" and ?y = "x @ [n]"
  let ?U = "\<Union>n \<in> set ns. under s0 (x @ [n])"
  have vn: "valid_name n" and Pn: "P \<inter> under s0 ?y = {}" using Cons.prems by auto
  note sc = stage_pair_child[OF sp vn]
  have rc: "resolve ?c = stagep @ ?y" using sc by (simp add: stage_pair_def)
  have g: "good_rel ?r" "resolve ?r = ?y"
    using rel_join_good[of rel n] sp vn by (auto simp: stage_pair_def)
  have "(P \<union> under s0 ?y) \<inter> ?U = {}"
    using Cons.prems(1,3) under_disjoint[of n _ s0 x] by fastforce
  then have rest: "valid F (progress s0 st (P \<union> under s0 ?y) Q) (apply_stage_names journalp dir rel ns)
      (\<lambda>_. progress s0 st (P \<union> under s0 ?y \<union> ?U) Q) (\<lambda>_. aborted s0 st)"
    using Cons.IH[of "P \<union> under s0 ?y"] Cons.prems(1,2) by simp
  have one: "valid F (\<lambda>s. progress s0 st P Q s \<and> map_of s (stagep @ ?y) = Some nd)
     (if nd = Dir then apply_stage_dir journalp ?c ?r
      else andthen (require (is_reg nd)) (\<lambda>u.
           andthen (prepare_target journalp ?r) (\<lambda>u.
           andthen (require (length (slash # ?r) < TXN_PATH_MAX)) (\<lambda>u. sys_rename ?c (slash # ?r)))))
     (\<lambda>_. progress s0 st (P \<union> under s0 ?y) Q) (\<lambda>_. aborted s0 st)"
    if len: "length ?c < TXN_PATH_MAX" for nd
  proof (cases "nd = Dir")
    case True
    then show ?thesis by (simp only: refl if_True) (rule valid_pre[OF IH[OF len vn Pn]], simp)
  next
    case nd: False
    show ?thesis
    proof (cases "is_reg nd")
      case True
      then obtain k m where nk: "nd = Reg k m" by (cases nd) (auto simp: is_reg_def)
      have "valid F (\<lambda>s. progress s0 st P Q s \<and> map_of s (stagep @ ?y) = Some nd)
          (andthen (prepare_target journalp ?r) (\<lambda>u.
           andthen (require (length (slash # ?r) < TXN_PATH_MAX)) (\<lambda>u. sys_rename ?c (slash # ?r))))
          (\<lambda>_. progress s0 st (P \<union> under s0 ?y) Q) (\<lambda>_. aborted s0 st)"
      proof (rule valid_pointwise)
        fix s1 assume s1: "progress s0 st P Q s1 \<and> map_of s1 (stagep @ ?y) = Some nd"
        then have "?y \<notin> P" "map_of s0 (stagep @ ?y) = Some (Reg k m)"
          using progressD(3)[of s0 st P Q s1 ?y] nk by (cases "?y \<in> P", simp_all)+
        then have ys: "?y \<in> staged s0" "?y \<notin> P" by (auto simp: staged_def)
        show "valid F (\<lambda>s. s = s1) (andthen (prepare_target journalp ?r) (\<lambda>u.
           andthen (require (length (slash # ?r) < TXN_PATH_MAX)) (\<lambda>u. sys_rename ?c (slash # ?r))))
          (\<lambda>_. progress s0 st (P \<union> under s0 ?y) Q) (\<lambda>_. aborted s0 st)"
          using stage_file_triple[OF F cl conjunct1[OF s1] g(1) g(2)[symmetric] ys rc]
            under_file[OF txn_cleanD(1)[OF cl] ys(1)] by simp
      qed
      then show ?thesis using nd True by simp
    next
      case False
      then show ?thesis using nd by (auto intro!: valid_throw progress_aborted)
    qed
  qed
  show ?case
  proof (cases "length ?c \<ge> TXN_PATH_MAX \<or> length ?r \<ge> TXN_PATH_MAX")
    case True
    then show ?thesis by (auto simp: apply_stage_names_io intro!: valid_throw progress_aborted)
  next
    case False
    then have len: "length ?c < TXN_PATH_MAX" by simp
    have st: "valid F (progress s0 st P Q) (sys_lstat ?c)
        (\<lambda>nd s. progress s0 st P Q s \<and> map_of s (stagep @ ?y) = Some nd) (\<lambda>_. aborted s0 st)"
    proof (rule valid_syscall)
      fix s assume pr: "progress s0 st P Q s"
      show "case fs_lstat ?c s of (Inr nd, s') \<Rightarrow> progress s0 st P Q s' \<and> map_of s' (stagep @ ?y) = Some nd
          | (Inl e, s') \<Rightarrow> aborted s0 st s'"
        using pr progress_aborted[OF pr] fs_find_Inr[of ?c s] rc
        by (cases "fs_find ?c s") (auto simp: fs_lstat_def)
    qed (use progress_aborted in auto)
    have eq: "P \<union> under s0 ?y \<union> ?U = P \<union> (\<Union>n \<in> set (n # ns). under s0 (x @ [n]))" by auto
    show ?thesis
      unfolding apply_stage_names_io(2) eq[symmetric] using False
      by (simp only: if_False) (rule valid_andthen[OF st], rule valid_andthen[OF one[OF len] rest])
  qed
qed

lemma stage_dir_triple:
  assumes F: "no_short F" and cl: "txn_clean s0"
  shows "stage_pair x dir rel \<Longrightarrow> P \<inter> under s0 x = {} \<Longrightarrow>
     valid F (progress s0 st P Q) (apply_stage_dir journalp dir rel)
       (\<lambda>_. progress s0 st (P \<union> under s0 x) Q) (\<lambda>_. aborted s0 st)"
proof (induction "TXN_PATH_MAX - length dir" arbitrary: dir rel x P rule: less_induct)
  case less
  note wf = txn_cleanD(1)[OF cl]
  have IH: "valid F (progress s0 st P Q) (apply_stage_dir journalp (dir @ slash # n) (rel_join rel n))
      (\<lambda>_. progress s0 st (P \<union> under s0 (x @ [n])) Q) (\<lambda>_. aborted s0 st)"
    if "length (dir @ slash # n) < TXN_PATH_MAX" "valid_name n" "P \<inter> under s0 (x @ [n]) = {}" for n P
    using that stage_pair_child[OF less.prems(1) that(2)] by (intro less.hyps) auto
  show ?case
    unfolding apply_stage_dir_io
  proof (rule valid_pointwise)
    fix s1 assume pr: "progress s0 st P Q s1"
    have rd: "resolve dir = stagep @ x" using less.prems(1) by (simp add: stage_pair_def)
    show "valid F (\<lambda>s. s = s1) (andthen (sys_opendir dir) (\<lambda>ns. apply_stage_names journalp dir rel ns))
       (\<lambda>_. progress s0 st (P \<union> under s0 x) Q) (\<lambda>_. aborted s0 st)"
    proof (rule valid_andthen)
      let ?N = "children s1 (stagep @ x)"
      show "valid F (\<lambda>s. s = s1) (sys_opendir dir)
         (\<lambda>ns s. ns = ?N \<and> map_of s1 (stagep @ x) = Some Dir \<and> s = s1) (\<lambda>_. aborted s0 st)"
      proof (rule valid_syscall)
        show "case fs_opendir dir s of (Inr ns, s') \<Rightarrow> ns = ?N \<and> map_of s1 (stagep @ x) = Some Dir \<and> s' = s1
           | (Inl e, s') \<Rightarrow> aborted s0 st s'" if "s = s1" for s
          using that progress_aborted[OF pr] fs_find_Inr[of dir s1] rd
          by (cases "fs_find dir s1") (auto simp: fs_opendir_def split: node.splits)
      qed (use progress_aborted[OF pr] in auto)
      show "valid F (\<lambda>s. ns = ?N \<and> map_of s1 (stagep @ x) = Some Dir \<and> s = s1)
         (apply_stage_names journalp dir rel ns) (\<lambda>_. progress s0 st (P \<union> under s0 x) Q) (\<lambda>_. aborted s0 st)" for ns
      proof (rule valid_pull, rule valid_pull)
        assume ns: "ns = ?N" and d: "map_of s1 (stagep @ x) = Some Dir"
        have same: "map_of s1 (stagep @ y) = map_of s0 (stagep @ y)" if "prefix x y" for y
        proof (cases "y \<in> P")
          case True
          then have "y \<in> under s0 x" using that progressD(1)[OF pr] by (simp add: under_def)
          then show ?thesis using True less.prems(2) by auto
        qed (use progressD(3)[OF pr, of y] in simp)
        have n: "n \<in> set ?N \<longleftrightarrow> map_of s0 (stagep @ x @ [n]) \<noteq> None" for n
          using same[of "x @ [n]"] by (simp add: children_iff)
        have "valid_name n" if nN: "n \<in> set ?N" for n
        proof -
          obtain nd where "map_of s0 (stagep @ x @ [n]) = Some nd" using nN n by auto
          from wf_fsD(2)[OF wf this] show ?thesis by (simp add: list_all_iff)
        qed
        moreover have u: "under s0 x = (\<Union>n \<in> set ?N. under s0 (x @ [n]))"
          by (rule under_dir[OF wf _ n]) (use d same[of x] in simp)
        ultimately have "valid F (progress s0 st P Q) (apply_stage_names journalp dir rel ?N)
            (\<lambda>_. progress s0 st (P \<union> under s0 x) Q) (\<lambda>_. aborted s0 st)"
          unfolding u using less.prems(2)[unfolded u]
          by (intro stage_names_triple[OF F cl less.prems(1) IH] distinct_children) auto
        then show "valid F (\<lambda>s. s = s1) (apply_stage_names journalp dir rel ns)
            (\<lambda>_. progress s0 st (P \<union> under s0 x) Q) (\<lambda>_. aborted s0 st)"
          using pr ns by (auto intro: valid_pre)
      qed
    qed
  qed
qed

section \<open>The state file\<close>

abbreviation tmpp :: fpath where "tmpp \<equiv> txnp @ [''state.tmp'']"

definition agree :: "fsys \<Rightarrow> fsys \<Rightarrow> bool" where
  "agree s1 s \<longleftrightarrow> wf_fs s \<and> (\<forall>x. x \<noteq> tmpp \<longrightarrow> x \<noteq> statep \<longrightarrow> map_of s x = map_of s1 x)"

lemma tmp_path [simp]: "resolve (TXN_STATE @ ''.tmp'') = tmpp"
  by (simp add: resolve_def path_step_def txnp_def TXN_STATE_def)

lemma tmp_file_path: "file_path (TXN_STATE @ ''.tmp'')"
  unfolding file_path_def
proof (intro conjI exI)
  show "TXN_STATE @ ''.tmp'' = HERALD_TXN_DIR @ slash # ''state.tmp''" by (simp add: txn_path_defs)
  show "valid_name ''state.tmp''" by (simp add: valid_name_def)
qed (simp_all add: TXN_STATE_def)

lemma txn_path_valid: "list_all valid_name (txnp @ [n])" if "valid_name n"
  using that by (simp add: txnp_def valid_name_def)

lemma touched_tmp:
  assumes t: "touched tmpp s1 s" and d: "map_of s1 txnp = Some Dir" and wf: "wf_fs s1" and x: "x \<noteq> tmpp"
  shows "map_of s x = map_of s1 x"
proof -
  have "map_of s1 x = Some Dir" if "strict_prefix x tmpp"
    using that wf_fs_ancestor[OF wf d] d by (auto simp: strict_prefix_snoc) (metis prefix_order.le_less)
  then show ?thesis using touched_other[OF t x] by auto
qed

lemma write_state_triple:
  assumes wf: "wf_fs s1" and d: "map_of s1 txnp = Some Dir"
  shows "valid F (\<lambda>s. s = s1) (write_state state)
     (\<lambda>_ s. agree s1 s \<and> file_at s statep = Some (state @ [newline]))
     (\<lambda>_ s. agree s1 s \<and> file_at s statep = file_at s1 statep)"
    (is "valid F _ _ ?Q ?E")
proof -
  have tE: "?E e s" if "touched tmpp s1 s" for s e
    using touched_tmp[OF that d wf] touched_wf[OF that] by (auto simp: agree_def file_at_def)
  have same: "touched tmpp s1 s" if g: "made_dirs HERALD_TXN_DIR s1 s" for s
  proof -
    have "grown {q. strict_prefix q tmpp} s1 s"
      by (rule grown_mono[OF g[unfolded made_dirs_def]]) (auto simp: strict_prefix_snoc)
    then show ?thesis by (rule touched_grown)
  qed
  have ren: "valid F (holds_at tmpp s1 m (state @ [newline])) (sys_rename (TXN_STATE @ ''.tmp'') TXN_STATE)
      ?Q (\<lambda>_. touched tmpp s1)" for m
  proof (rule valid_syscall)
    fix s assume h: "holds_at tmpp s1 m (state @ [newline]) s"
    then have t: "touched tmpp s1 s" and c: "map_of s tmpp = Some (Reg (state @ [newline]) m)"
      by (auto simp: holds_at_def)
    let ?s = "AList.update statep (Reg (state @ [newline]) m) (AList.delete tmpp s)"
    have "wf_fs (AList.delete tmpp s)" using wf_fs_delete[OF touched_wf[OF t], of tmpp] c by simp
    then have w: "wf_fs ?s" if "map_of s statep \<noteq> Some Dir"
      using that touched_tmp[OF t d wf, of txnp] d txn_path_valid[of "''state''"]
      by (intro wf_fs_update) (auto simp: valid_name_def)
    have "agree s1 ?s \<and> file_at ?s statep = Some (state @ [newline])" if "map_of s statep \<noteq> Some Dir"
      using w[OF that] touched_tmp[OF t d wf] by (auto simp: agree_def file_at_def)
    moreover have "fs_rename (TXN_STATE @ ''.tmp'') TXN_STATE s = (Inr (), ?s) \<and> map_of s statep \<noteq> Some Dir
        \<or> (\<exists>e. fs_rename (TXN_STATE @ ''.tmp'') TXN_STATE s = (Inl e, s))"
      using c fs_find_Inr[of "TXN_STATE @ ''.tmp''" s]
      by (cases "fs_find (TXN_STATE @ ''.tmp'') s") (auto simp: fs_rename_def split: option.splits)
    ultimately show "case fs_rename (TXN_STATE @ ''.tmp'') TXN_STATE s of (Inr x, s') \<Rightarrow> ?Q x s' | (Inl e, s') \<Rightarrow> touched tmpp s1 s'"
      using t by auto
  qed (auto simp: holds_at_def)
  have wr: "valid F (holds_at tmpp s1 m x) (write_once tmpp y) (\<lambda>_. holds_at tmpp s1 m (x @ y)) (\<lambda>_. touched tmpp s1)" for m x y
    using holds_at_append[of tmpp s1 m x] by (intro valid_write_once) (auto simp: holds_at_def)
  have body: "valid F (holds_at tmpp s1 m [])
      (andthen (write_once tmpp state) (\<lambda>u. andthen (write_once tmpp [newline]) (\<lambda>u.
       andthen sys_quiet (\<lambda>u. andthen sys_quiet (\<lambda>u. sys_rename (TXN_STATE @ ''.tmp'') TXN_STATE)))))
      ?Q (\<lambda>_. touched tmpp s1)" for m
    by (rule valid_andthen[OF wr[of m "[]" state, simplified]],
        rule valid_andthen[OF wr[of m state "[newline]"]], rule valid_quiet_then, rule valid_quiet_then, rule ren)
      (auto simp: holds_at_def)
  show ?thesis
    unfolding write_state_def
  proof (rule valid_andthen)
    show "valid F (\<lambda>s. s = s1) (mkdir_p HERALD_TXN_DIR) (\<lambda>_. touched tmpp s1) ?E"
      by (rule valid_conseq[OF mkdir_p_triple[OF _ _ wf]]) (use same tE in auto)
    show "valid F (touched tmpp s1) (andthen (sys_open_trunc (TXN_STATE @ ''.tmp'') 384) (\<lambda>fd. on_fail
       (andthen (write_once fd state) (\<lambda>u. andthen (write_once fd [newline]) (\<lambda>u.
        andthen sys_quiet (\<lambda>u. andthen sys_quiet (\<lambda>u. sys_rename (TXN_STATE @ ''.tmp'') TXN_STATE)))))
       (sys_unlink (TXN_STATE @ ''.tmp'')))) ?Q ?E" for u :: unit
    proof (rule valid_andthen)
      show "valid F (touched tmpp s1) (sys_open_trunc (TXN_STATE @ ''.tmp'') 384)
         (\<lambda>fd s. fd = tmpp \<and> (\<exists>m. holds_at tmpp s1 m [] s)) ?E"
      proof (rule valid_syscall)
        fix s assume t: "touched tmpp s1 s"
        have e: "?E e s" for e by (rule tE[OF t])
        have u: "walk_err s tmpp = None \<Longrightarrow> map_of s tmpp \<noteq> Some Dir \<Longrightarrow>
            \<exists>m'. holds_at tmpp s1 m' [] (AList.update tmpp (Reg [] m) s)" for m
          using touched_set[OF t _ txn_path_valid[of "''state.tmp''"]] by (simp add: holds_at_def valid_name_def)
        show "case fs_open_trunc (TXN_STATE @ ''.tmp'') 384 s of
            (Inr fd, s') \<Rightarrow> fd = tmpp \<and> (\<exists>m. holds_at tmpp s1 m [] s') | (Inl e, s') \<Rightarrow> ?E e s'"
          using e u by (auto simp: fs_open_trunc_def Let_def split: option.splits node.splits)
        show "F = no_faults \<or> ?E EIO s" using e by blast
      qed
      show "valid F (\<lambda>s. fd = tmpp \<and> (\<exists>m. holds_at tmpp s1 m [] s)) (on_fail
       (andthen (write_once fd state) (\<lambda>u. andthen (write_once fd [newline]) (\<lambda>u.
        andthen sys_quiet (\<lambda>u. andthen sys_quiet (\<lambda>u. sys_rename (TXN_STATE @ ''.tmp'') TXN_STATE)))))
       (sys_unlink (TXN_STATE @ ''.tmp''))) ?Q ?E" for fd
      proof (rule valid_pull, rule valid_ex, simp only:, rule valid_on_fail[OF body])
        show "valid F (touched tmpp s1) (sys_unlink (TXN_STATE @ ''.tmp'')) (\<lambda>_. ?E e) (\<lambda>_. ?E e)" for e
          by (rule valid_conseq[OF unlink_touched[of tmpp "TXN_STATE @ ''.tmp''"]]) (use tE in auto)
      qed
    qed
  qed
qed

lemma agree_restored:
  assumes "restored s0 es st {} s1" "agree s1 s" "file_at s statep = Some st'"
  shows "restored s0 es st' {} s"
proof -
  have c: "core s0 es s1" using assms(1) by (simp add: restored_def)
  have "x \<noteq> tmpp \<and> x \<noteq> statep" if "\<not> prefix txnp x" for x using that by (auto simp: prefix_def)
  then have "core s0 es s" using assms(2) by (intro core_agree[OF c]) (auto simp: agree_def)
  then show ?thesis using assms(3) by (simp add: restored_def)
qed

lemma agree_progress:
  assumes pr: "progress s0 st P Q s1" and a: "agree s1 s" and f: "file_at s statep = Some st'"
    and cl: "txn_clean s0"
  shows "progress s0 st' P Q s"
proof -
  have live: "file_at s x = file_at s1 x" if "\<not> prefix txnp x" for x
    using that a by (auto simp: agree_def file_at_def prefix_def)
  obtain es where r: "restored s0 es st {} s1" "journaled es \<subseteq> P \<union> Q" using pr by (auto simp: progress_def)
  have "restored s0 es st' {} s" by (rule agree_restored[OF r(1) a f])
  moreover have "map_of s (stagep @ x) = map_of s1 (stagep @ x)" for x using a by (simp add: agree_def)
  ultimately show ?thesis
    using r(2) pr live txn_cleanD(2,3)[OF cl] unfolding progress_def by (auto simp: subset_iff)
qed

section \<open>Commit\<close>

definition applying :: buf where "applying = ''applying'' @ [newline]"

lemma list_line_clean:
  assumes "l \<in> set (list_lines c)"
  shows "nul \<notin> set l" "newline \<notin> set l"
  using assms by (auto simp: list_lines_def cut_line_def dest: set_takeWhileD)

lemma under_root: "under s0 [] = staged s0"
  by (simp add: under_def)

lemma commit_body_triple:
  assumes F: "no_short F" and cl: "txn_clean s0"
  shows "valid F (\<lambda>s. progress s0 applying {} {} s \<and> file_at s deletep = file_at s0 deletep)
     (commit_body pending journalp)
     (\<lambda>_. progress s0 ((if pending then ''pending-kernel'' else ''committed'') @ [newline]) (staged s0) (deletions s0))
     (\<lambda>_. aborted s0 applying)"
proof (rule valid_pointwise)
  fix s1 assume "progress s0 applying {} {} s1 \<and> file_at s1 deletep = file_at s0 deletep"
  then have pr: "progress s0 applying {} {} s1" and del: "file_at s1 deletep = file_at s0 deletep" by simp_all
  let ?E = "\<lambda>_. aborted s0 applying" and ?st = "if pending then ''pending-kernel'' else ''committed''"
  have wf: "wf_fs s1" using pr by (auto simp: progress_def restored_def dest: coreD(1))
  let ?del = "\<lambda>l. if l \<noteq> [] then apply_delete journalp l else ret ()"
  let ?D = "\<lambda>ls. resolve ` {l \<in> set ls. l \<noteq> []}"
  have dels: "valid F (progress s0 applying {} {}) (each ?del (list_lines c))
      (\<lambda>_. progress s0 applying {} (deletions s0)) ?E" if c: "file_at s0 deletep = Some c" for c
  proof -
    have D: "deletions s0 = ?D (list_lines c)" by (simp add: deletions_def c)
    have "valid F (progress s0 applying {} (?D [])) (each ?del (list_lines c))
        (\<lambda>_. progress s0 applying {} (?D (list_lines c))) ?E"
    proof (rule valid_each)
      fix ys l zs assume l: "list_lines c = ys @ l # zs"
      then have lm: "l \<in> set (list_lines c)" by simp
      show "valid F (progress s0 applying {} (?D ys)) (?del l) (\<lambda>_. progress s0 applying {} (?D (ys @ [l]))) ?E"
      proof (cases "l = []")
        case True
        then have "?D (ys @ [l]) = ?D ys" by auto
        then show ?thesis using True by (auto intro!: valid_ret)
      next
        case False
        then have "resolve l \<in> deletions s0" using lm D by auto
        moreover have "?D (ys @ [l]) = insert (resolve l) (?D ys)" using False by auto
        ultimately show ?thesis
          using False apply_delete_triple[OF F cl refl _ list_line_clean[OF lm], of applying "{}" "?D ys"] by simp
      qed
    qed
    then show ?thesis by (simp add: D)
  qed
  have stage: "valid F (progress s0 applying {} (deletions s0)) (apply_stage_dir journalp HERALD_TXN_STAGE [])
      (\<lambda>_. progress s0 applying (staged s0) (deletions s0)) ?E"
    using stage_dir_triple[OF F cl, of "[]" HERALD_TXN_STAGE "[]" "{}"]
    by (simp add: stage_pair_def under_root)
  have mark: "valid F (progress s0 applying (staged s0) (deletions s0)) (write_state ?st)
      (\<lambda>_. progress s0 (?st @ [newline]) (staged s0) (deletions s0)) ?E"
  proof (rule valid_pointwise)
    fix s2 assume p2: "progress s0 applying (staged s0) (deletions s0) s2"
    then obtain es where r: "restored s0 es applying {} s2" by (auto simp: progress_def)
    then have c: "core s0 es s2" and f: "file_at s2 statep = Some applying" by (auto simp: restored_def)
    show "valid F (\<lambda>s. s = s2) (write_state ?st) (\<lambda>_. progress s0 (?st @ [newline]) (staged s0) (deletions s0)) ?E"
      by (rule valid_conseq[OF write_state_triple[OF coreD(1)[OF c] journal_dir[OF c]]])
        (use agree_progress[OF p2 _ _ cl] abortedI[OF agree_restored[OF r]] f in auto)
  qed
  show "valid F (\<lambda>s. s = s1) (commit_body pending journalp)
     (\<lambda>_. progress s0 (?st @ [newline]) (staged s0) (deletions s0)) ?E"
    unfolding commit_body_def
  proof (rule valid_andthen)
    show "valid F (\<lambda>s. s = s1) (sys_open_read TXN_DELETE)
       (\<lambda>df s. file_at s0 deletep = Some (fst df) \<and> progress s0 applying {} {} s) ?E"
      by (rule valid_conseq[OF open_read_triple[OF wf]]) (use pr del progress_aborted[OF pr] in \<open>auto simp: file_at_def\<close>)
    show "valid F (\<lambda>s. file_at s0 deletep = Some (fst df) \<and> progress s0 applying {} {} s)
       (andthen (each ?del (list_lines (fst df))) (\<lambda>u.
        andthen (apply_stage_dir journalp HERALD_TXN_STAGE []) (\<lambda>u. write_state ?st)))
       (\<lambda>_. progress s0 (?st @ [newline]) (staged s0) (deletions s0)) ?E" for df :: "buf \<times> nat"
      by (rule valid_pull, rule valid_andthen[OF dels], assumption, rule valid_andthen[OF stage mark])
  qed
qed

section \<open>Commit and recovery\<close>

definition prepared_mark :: buf where "prepared_mark = ''prepared'' @ [newline]"
definition committed_mark :: buf where "committed_mark = ''committed'' @ [newline]"
definition pending_mark :: buf where "pending_mark = ''pending-kernel'' @ [newline]"

definition pendp :: fpath where "pendp = [''etc'', ''aegis'', ''update'', ''pending'']"

lemma resolve_pending [simp]: "resolve HERALD_UPDATE_PENDING = pendp"
  by (simp add: resolve_def path_step_def HERALD_UPDATE_PENDING_def pendp_def)

text \<open>A transaction that \<open>txn_begin\<close> opened and whose files and deletions have been staged.\<close>

definition txn_ready :: "fsys \<Rightarrow> bool" where
  "txn_ready s0 \<longleftrightarrow> txn_clean s0 \<and> file_at s0 journalp = Some [] \<and> file_at s0 statep = Some prepared_mark"

text \<open>The contents a path has once the transaction has taken effect.\<close>

definition new_file :: "fsys \<Rightarrow> fpath \<Rightarrow> buf option" where
  "new_file s0 x = (if x \<in> staged s0 then file_at s0 (stagep @ x)
     else if x \<in> deletions s0 then None else file_at s0 x)"

lemma progress_new_file:
  assumes pr: "progress s0 st (staged s0) (deletions s0) s" and x: "\<not> prefix txnp x"
  shows "file_at s x = new_file s0 x"
proof -
  obtain es where r: "restored s0 es st {} s" "journaled es \<subseteq> staged s0 \<union> deletions s0"
    using pr by (auto simp: progress_def)
  have "map_of s x = map_of s0 x \<or> (map_of s0 x = None \<and> map_of s x = Some Dir)"
    if "x \<notin> targets s0"
  proof -
    have "x \<notin> journaled es" using that r(2) by auto
    then show ?thesis using coreD(4)[of s0 es s x] r(1) x by (auto simp: restored_def live_ok_def)
  qed
  then show ?thesis
    using progressD(4,5)[OF pr, of x] by (auto simp: new_file_def file_at_def)
qed

lemma ready_progress:
  assumes "txn_ready s0"
  shows "progress s0 prepared_mark {} {} s0" "restored s0 [] prepared_mark {} s0"
proof -
  have "core s0 [] s0"
    using assms by (auto simp: core_def txn_ready_def txn_clean_def journal_bytes_def live_ok_def journaled_def)
  then show r: "restored s0 [] prepared_mark {} s0" using assms by (simp add: restored_def txn_ready_def)
  have "\<exists>es. restored s0 es prepared_mark {} s0 \<and> journaled es \<subseteq> {}"
    using r by (intro exI[of _ "[]"]) (simp add: journaled_def)
  then show "progress s0 prepared_mark {} {} s0" by (simp add: progress_def)
qed

definition failed :: "fsys \<Rightarrow> fsys \<Rightarrow> bool" where
  "failed s0 s \<longleftrightarrow> aborted s0 prepared_mark s \<or> aborted s0 applying s"

definition committed :: "fsys \<Rightarrow> fsys \<Rightarrow> bool" where
  "committed s0 s \<longleftrightarrow> wf_fs s \<and> (\<forall>x. \<not> prefix txnp x \<longrightarrow> file_at s x = new_file s0 x) \<and>
     (file_at s statep = None \<or> file_at s statep = Some committed_mark \<or>
      file_at s statep = Some pending_mark \<and> progress s0 pending_mark (staged s0) (deletions s0) s)"

lemma progress_committed:
  assumes "progress s0 st (staged s0) (deletions s0) s" "st = committed_mark \<or> st = pending_mark"
  shows "committed s0 s"
  using assms progress_new_file[OF assms(1)]
  by (auto simp: committed_def progress_def restored_def dest: coreD(1))

lemma shrunk_committed:
  assumes pr: "progress s0 committed_mark (staged s0) (deletions s0) s1" and sh: "shrunk txnp s1 s"
  shows "committed s0 s"
proof -
  have "file_at s x = file_at s1 x" if "\<not> prefix txnp x" for x
    using sh that by (auto simp: shrunk_def file_at_def) (metis option.simps(4))
  then have "\<forall>x. \<not> prefix txnp x \<longrightarrow> file_at s x = new_file s0 x" using progress_new_file[OF pr] by auto
  moreover have "file_at s statep = None \<or> file_at s statep = Some committed_mark"
  proof -
    have "file_at s1 statep = Some committed_mark" using pr by (auto simp: progress_def restored_def)
    then show ?thesis using sh by (auto simp: shrunk_def file_at_def) (metis option.simps(4))
  qed
  ultimately show ?thesis using sh by (auto simp: committed_def shrunk_def)
qed

lemma txn_commit_triple:
  assumes F: "no_short F" and rdy: "txn_ready s0"
  shows "valid F (\<lambda>s. s = s0) txn_commit (\<lambda>_. committed s0) (\<lambda>_. failed s0)"
proof -
  have cl: "txn_clean s0" using rdy by (simp add: txn_ready_def)
  note r0 = ready_progress(2)[OF rdy] and p0 = ready_progress(1)[OF rdy]
  have c0: "core s0 [] s0" and st0: "file_at s0 statep = Some prepared_mark" using r0 by (auto simp: restored_def)
  let ?A = "\<lambda>s. progress s0 applying {} {} s \<and> file_at s deletep = file_at s0 deletep"
  have mark: "valid F (\<lambda>s. s = s0) (write_state ''applying'') (\<lambda>_. ?A) (\<lambda>_. failed s0)"
    by (rule valid_conseq[OF write_state_triple[OF coreD(1)[OF c0] journal_dir[OF c0]]])
      (use agree_progress[OF p0 _ _ cl] abortedI[OF agree_restored[OF r0]] st0
        in \<open>auto simp: applying_def failed_def agree_def file_at_def\<close>)
  have jr: "valid F ?A (sys_open_append TXN_JOURNAL) (\<lambda>fd s. fd = journalp \<and> ?A s) (\<lambda>_. failed s0)"
  proof (rule valid_syscall)
    fix s assume a: "?A s"
    then have "failed s0 s" using progress_aborted by (auto simp: failed_def)
    then show "case fs_open_append TXN_JOURNAL s of (Inr fd, s') \<Rightarrow> fd = journalp \<and> ?A s' | (Inl e, s') \<Rightarrow> failed s0 s'"
      using a by (auto simp: fs_open_append_def split: sum.splits node.splits)
    show "F = no_faults \<or> failed s0 s" using \<open>failed s0 s\<close> by simp
  qed
  have rb: "valid F (aborted s0 applying) rollback (\<lambda>_. failed s0) (\<lambda>_. failed s0)"
  proof (rule valid_pointwise)
    fix s1 assume "aborted s0 applying s1"
    then obtain es where "restored s0 es applying {} s1" by (auto simp: aborted_def)
    then show "valid F (\<lambda>s. s = s1) rollback (\<lambda>_. failed s0) (\<lambda>_. failed s0)"
      by (intro valid_conseq[OF rollback_triple[OF cl, of F es applying]]) (auto simp: failed_def intro: abortedI)
  qed
  let ?m = "\<lambda>pending. if pending then pending_mark else committed_mark"
  have body: "valid F ?A (on_fail (commit_body pending journalp) rollback)
      (\<lambda>_. progress s0 (?m pending) (staged s0) (deletions s0)) (\<lambda>_. failed s0)" for pending
    by (rule valid_on_fail[OF valid_conseq[OF commit_body_triple[OF F cl]] rb])
      (auto simp: pending_mark_def committed_mark_def)
  have fin: "valid F (progress s0 (?m pending) (staged s0) (deletions s0))
      (if pending then ret () else ignore (remove_tree HERALD_TXN_DIR)) (\<lambda>_. committed s0) (\<lambda>_. failed s0)" for pending
  proof (cases pending)
    case True
    then show ?thesis by (auto intro!: valid_ret progress_committed)
  next
    case False
    have "valid F (progress s0 committed_mark (staged s0) (deletions s0)) (ignore (remove_tree HERALD_TXN_DIR))
        (\<lambda>_. committed s0) (\<lambda>_. failed s0)"
    proof (rule valid_pointwise)
      fix s1 assume pr: "progress s0 committed_mark (staged s0) (deletions s0) s1"
      then have "wf_fs s1" by (auto simp: progress_def restored_def dest: coreD(1))
      then show "valid F (\<lambda>s. s = s1) (ignore (remove_tree HERALD_TXN_DIR)) (\<lambda>_. committed s0) (\<lambda>_. failed s0)"
        by (intro valid_ignore valid_conseq[OF remove_tree_triple[of txnp HERALD_TXN_DIR F s1]])
          (auto simp: txnp_def shrunk_refl intro: shrunk_committed[OF pr, unfolded txnp_def])
    qed
    then show ?thesis using False by simp
  qed
  have rest: "valid F (\<lambda>s. s = s0) (andthen (write_state ''applying'') (\<lambda>u.
     andthen (sys_open_append TXN_JOURNAL) (\<lambda>jfd. andthen (on_fail (commit_body pending jfd) rollback) (\<lambda>u.
     if pending then ret () else ignore (remove_tree HERALD_TXN_DIR))))) (\<lambda>_. committed s0) (\<lambda>_. failed s0)" for pending
    by (rule valid_andthen[OF mark], rule valid_andthen[OF jr], rule valid_pull, simp only:,
        rule valid_andthen[OF body fin])
  show ?thesis
    unfolding txn_commit_def
    by (rule valid_andthen[OF valid_succeeds rest], rule quiet_call) (simp add: fs_lstat_def)
qed

text \<open>What \<open>txn_recover\<close> and \<open>txn_rollback\<close> make of an aborted commit.\<close>

definition old_files :: "fsys \<Rightarrow> fsys \<Rightarrow> bool" where
  "old_files s0 s \<longleftrightarrow> (\<forall>x. \<not> prefix txnp x \<longrightarrow> file_at s x = file_at s0 x)"

lemma rollback_remove_triple:
  assumes cl: "txn_clean s0" and r: "restored s0 es st {} s1"
  shows "valid no_faults (\<lambda>s. s = s1) (andthen rollback (\<lambda>u. remove_tree HERALD_TXN_DIR))
     (\<lambda>_. old_files s0) (\<lambda>_. old_files s0)"
proof (rule valid_andthen)
  show "valid no_faults (\<lambda>s. s = s1) rollback (\<lambda>_. restored s0 es st (journaled es)) (\<lambda>_. old_files s0)"
    by (rule valid_conseq[OF rollback_triple[OF cl, of no_faults es st]]) (use r in auto)
  show "valid no_faults (restored s0 es st (journaled es)) (remove_tree HERALD_TXN_DIR) (\<lambda>_. old_files s0) (\<lambda>_. old_files s0)"
    for u :: unit
  proof (rule valid_pointwise)
    fix s2 assume r2: "restored s0 es st (journaled es) s2"
    then have wf: "wf_fs s2" by (auto simp: restored_def dest: coreD(1))
    have "old_files s0 s" if sh: "shrunk txnp s2 s" for s
      unfolding old_files_def
    proof (intro allI impI)
      fix x assume x: "\<not> prefix txnp x"
      then have "map_of s x = map_of s2 x" using sh by (auto simp: shrunk_def)
      then show "file_at s x = file_at s0 x" using restored_old[OF cl r2 x] by (simp add: file_at_def)
    qed
    then show "valid no_faults (\<lambda>s. s = s2) (remove_tree HERALD_TXN_DIR) (\<lambda>_. old_files s0) (\<lambda>_. old_files s0)"
      by (intro valid_conseq[OF remove_tree_triple[of txnp HERALD_TXN_DIR no_faults s2]])
        (auto simp: shrunk_refl[OF wf], simp_all add: txnp_def)
  qed
qed

lemma mark_states:
  "cstr (fst (fgets 32 prepared_mark)) = prepared_mark" "cstr (fst (fgets 32 applying)) = applying"
  "cstr (fst (fgets 32 committed_mark)) = committed_mark" "cstr (fst (fgets 32 pending_mark)) = pending_mark"
  "\<not> starts_with prepared_mark ''pending-kernel''" "\<not> starts_with applying ''pending-kernel''"
  "\<not> starts_with committed_mark ''pending-kernel''" "starts_with pending_mark ''pending-kernel''"
  "\<not> starts_with prepared_mark ''committed''" "\<not> starts_with applying ''committed''"
  "starts_with committed_mark ''committed''"
  "prepared_mark \<noteq> []" "applying \<noteq> []" "committed_mark \<noteq> []" "pending_mark \<noteq> []"
  by (simp_all add: prepared_mark_def applying_def committed_mark_def pending_mark_def fgets_def line_of_def
      cstr_def starts_with_def)

text \<open>\<open>txn_recover\<close> once the state file has been read.\<close>

definition recover_from :: "buf \<Rightarrow> bool io" where
  "recover_from c =
     andthen (require (c \<noteq> [])) (\<lambda>u.
     let state = cstr (fst (fgets 32 c)) in
     if starts_with state ''pending-kernel'' then ret True
     else
       andthen (if \<not> starts_with state ''committed'' then rollback
                else andthen (optional (sys_unlink HERALD_UPDATE_PENDING)) (\<lambda>u. ret ())) (\<lambda>u.
       andthen (remove_tree HERALD_TXN_DIR) (\<lambda>u. ret False)))"

lemma txn_recover_alt:
  "txn_recover = andthen (optional (sys_open_read TXN_STATE)) (\<lambda>f. case f of None \<Rightarrow> ret False | Some st \<Rightarrow> recover_from (fst st))"
  unfolding txn_recover_def recover_from_def by simp

lemma recover_state_triple:
  assumes wf: "wf_fs s1" and
    some: "\<And>c. file_at s1 statep = Some c \<Longrightarrow> valid F (\<lambda>s. s = s1) (recover_from c) Q E" and
    none: "(\<forall>c m. map_of s1 statep \<noteq> Some (Reg c m)) \<Longrightarrow> Q False s1 \<and> (\<forall>e. E e s1)" and
    flt: "F \<noteq> no_faults \<Longrightarrow> E EIO s1"
  shows "valid F (\<lambda>s. s = s1) txn_recover Q E"
  unfolding txn_recover_alt
proof (rule valid_andthen[OF valid_optional])
  let ?S = "\<lambda>f s. case f of None \<Rightarrow> Q False s \<and> s = s1 | Some st \<Rightarrow> file_at s1 statep = Some (fst st) \<and> s = s1"
  show "valid F (\<lambda>s. s = s1) (sys_open_read TXN_STATE) (\<lambda>x. ?S (Some x)) (\<lambda>e s. if e = ENOENT then ?S None s else E e s)"
  proof (rule valid_syscall)
    fix s assume s: "s = s1"
    show "case fs_open_read TXN_STATE s of (Inr x, s') \<Rightarrow> ?S (Some x) s'
        | (Inl e, s') \<Rightarrow> if e = ENOENT then ?S None s' else E e s'"
    proof (cases "\<exists>c m. map_of s1 statep = Some (Reg c m)")
      case True
      then obtain c m where c: "map_of s1 statep = Some (Reg c m)" by blast
      then have "fs_find TXN_STATE s1 = Inr (Reg c m)" by (intro fs_find_present[OF wf]) simp_all
      then show ?thesis using s c by (simp add: fs_open_read_def file_at_def)
    next
      case False
      then have n: "Q False s1" "\<And>e. E e s1" using none by auto
      show ?thesis
        using s n False fs_find_Inr[of TXN_STATE s1]
        by (cases "fs_find TXN_STATE s1") (auto simp: fs_open_read_def split: node.splits)
    qed
    show "F = no_faults \<or> (if EIO = ENOENT then ?S None s else E EIO s)" using flt s by auto
  qed
  show "valid F (?S f) (case f of None \<Rightarrow> ret False | Some st \<Rightarrow> recover_from (fst st)) Q E" for f
  proof (cases f)
    case None
    then show ?thesis by (auto intro!: valid_ret)
  next
    case (Some st)
    then show ?thesis using some[of "fst st"]
      by (cases "file_at s1 statep = Some (fst st)") (simp_all add: valid_def[where P = "\<lambda>_. False"])
  qed
qed

lemma recover_failed_triple:
  assumes cl: "txn_clean s0"
  shows "valid no_faults (failed s0) txn_recover (\<lambda>_. old_files s0) (\<lambda>_. old_files s0)"
proof (rule valid_pointwise)
  fix s1 assume "failed s0 s1"
  then obtain es st where r: "restored s0 es st {} s1" and st: "st = prepared_mark \<or> st = applying"
    by (auto simp: failed_def aborted_def)
  have f: "file_at s1 statep = Some st" and wf: "wf_fs s1" using r by (auto simp: restored_def dest: coreD(1))
  have "andthen rollback (\<lambda>u. andthen (remove_tree HERALD_TXN_DIR) (\<lambda>u. ret False)) =
      andthen (andthen rollback (\<lambda>u. remove_tree HERALD_TXN_DIR)) (\<lambda>u. ret False)"
    by (rule ext) (auto simp: andthen_def split: prod.splits sum.splits)
  then have "recover_from st = andthen (andthen rollback (\<lambda>u. remove_tree HERALD_TXN_DIR)) (\<lambda>u. ret False)"
    using st mark_states by (auto simp: recover_from_def)
  then have "valid no_faults (\<lambda>s. s = s1) (recover_from st) (\<lambda>_. old_files s0) (\<lambda>_. old_files s0)"
    using rollback_remove_triple[OF cl r] by (auto intro!: valid_andthen[where R = "\<lambda>_. old_files s0"] valid_ret)
  then show "valid no_faults (\<lambda>s. s = s1) txn_recover (\<lambda>_. old_files s0) (\<lambda>_. old_files s0)"
    using f by (intro recover_state_triple[OF wf]) (auto simp: file_at_Some)
qed

definition new_files :: "fsys \<Rightarrow> fsys \<Rightarrow> bool" where
  "new_files s0 s \<longleftrightarrow> (\<forall>x. \<not> prefix txnp x \<longrightarrow> x \<noteq> pendp \<longrightarrow> file_at s x = new_file s0 x)"

lemma recover_committed_triple:
  "valid F (committed s0) txn_recover (\<lambda>_. new_files s0) (\<lambda>_. new_files s0)"
proof (rule valid_pointwise)
  fix s1 assume c: "committed s0 s1"
  then have wf: "wf_fs s1" and n: "new_files s0 s1" by (auto simp: committed_def new_files_def)
  have st: "file_at s1 statep = Some k \<Longrightarrow> k = committed_mark \<or> k = pending_mark" for k
    using c by (auto simp: committed_def)
  have pne: "pendp \<noteq> []" by (simp add: pendp_def)
  have un: "valid F (\<lambda>s. s = s1) (andthen (optional (sys_unlink HERALD_UPDATE_PENDING)) (\<lambda>u. ret ()))
      (\<lambda>_. touched pendp s1) (\<lambda>_. new_files s0)"
  proof (rule valid_conseq)
    show "valid F (touched pendp s1) (andthen (optional (sys_unlink HERALD_UPDATE_PENDING)) (\<lambda>u. ret ()))
       (\<lambda>_. touched pendp s1) (\<lambda>_. touched pendp s1)"
      by (rule valid_andthen[OF valid_optional_keep[OF unlink_touched[OF pne resolve_pending]]]) (rule valid_ret)
    show "s = s1 \<Longrightarrow> touched pendp s1 s" for s by (simp add: touched_refl[OF wf])
    show "new_files s0 s" if "touched pendp s1 s" for s
      using n touched_file_at[OF that] by (auto simp: new_files_def)
  qed
  have rm: "valid F (touched pendp s1) (andthen (remove_tree HERALD_TXN_DIR) (\<lambda>u. ret False)) (\<lambda>_. new_files s0) (\<lambda>_. new_files s0)"
  proof (rule valid_pointwise)
    fix s2 assume t: "touched pendp s1 s2"
    have "new_files s0 s" if "shrunk txnp s2 s" for s
      unfolding new_files_def
    proof (intro allI impI)
      fix x assume x: "\<not> prefix txnp x" "x \<noteq> pendp"
      then have "map_of s x = map_of s2 x" using that by (auto simp: shrunk_def)
      then show "file_at s x = new_file s0 x"
        using n touched_file_at[OF t x(2)] x by (simp add: new_files_def file_at_def)
    qed
    then have "valid F (\<lambda>s. s = s2) (remove_tree HERALD_TXN_DIR) (\<lambda>_. new_files s0) (\<lambda>_. new_files s0)"
      by (intro valid_conseq[OF remove_tree_triple[of txnp HERALD_TXN_DIR F s2]])
        (auto simp: shrunk_refl[OF touched_wf[OF t]], simp_all add: txnp_def)
    then show "valid F (\<lambda>s. s = s2) (andthen (remove_tree HERALD_TXN_DIR) (\<lambda>u. ret False)) (\<lambda>_. new_files s0) (\<lambda>_. new_files s0)"
      by (rule valid_andthen) (auto intro: valid_ret)
  qed
  have "valid F (\<lambda>s. s = s1) (recover_from k) (\<lambda>_. new_files s0) (\<lambda>_. new_files s0)" if "file_at s1 statep = Some k" for k
  proof (cases "k = pending_mark")
    case True
    then show ?thesis using n mark_states by (auto simp: recover_from_def intro!: valid_ret)
  next
    case False
    then have "k = committed_mark" using st[OF that] by simp
    then show ?thesis using mark_states valid_andthen[OF un rm] by (simp add: recover_from_def)
  qed
  then show "valid F (\<lambda>s. s = s1) txn_recover (\<lambda>_. new_files s0) (\<lambda>_. new_files s0)"
    using n by (intro recover_state_triple[OF wf]) auto
qed



end
