(* ===== verification/Herald_Extract.thy ===== *)
theory Herald_Extract
  imports Herald_Tar Herald_Txn_Steps
begin

text \<open>
  The extraction mode of \<open>user/bin/herald/tar.c\<close>: \<open>tar_walk\<close> with a destination, the
  restriction to declared prefixes, and the list of owned files it writes.  The reference is the
  list of entries of the archive and the map of files they leave, one after the other.
\<close>

section \<open>Definitions\<close>

definition tar_mkdir_parents :: "string \<Rightarrow> unit io" where
  "tar_mkdir_parents path = each mkdir_one (slash_prefixes path)"

definition tar_mkdir_p :: "string \<Rightarrow> unit io" where
  "tar_mkdir_p path = andthen (tar_mkdir_parents path) (\<lambda>u. mkdir_one path)"

text \<open>Every error of the walk returns -1; the message is the name of the branch.\<close>

definition tar_fail :: "tar_error \<Rightarrow> 'a io" where
  "tar_fail e = throw EINVAL"

text \<open>\<open>None\<close> is the NULL that allows every safe path.\<close>

definition path_allowed :: "string list option \<Rightarrow> string \<Rightarrow> bool" where
  "path_allowed allowed path =
     (case allowed of
        None \<Rightarrow> True
      | Some pps \<Rightarrow> path = ''manifest'' \<or>
          list_ex (\<lambda>pp. str_starts_with path pp \<or>
            path \<noteq> [] \<and> last path = slash \<and> str_starts_with pp path) pps)"

definition tar_fmode :: "64 word \<Rightarrow> nat" where
  "tar_fmode mode = (if mode AND 73 \<noteq> 0 then 493 else 420)"

definition owner_write :: "fpath option \<Rightarrow> string \<Rightarrow> unit io" where
  "owner_write owner path =
     (case owner of
        None \<Rightarrow> ret ()
      | Some fd \<Rightarrow> andthen (write_once fd path) (\<lambda>u. write_once fd [newline]))"

text \<open>What the walk does with one entry that has passed the path check; \<open>data\<close> is its data region.\<close>

definition tar_extract_entry :: "string \<Rightarrow> string list option \<Rightarrow> fpath option \<Rightarrow> tar_entry \<Rightarrow> buf \<Rightarrow> unit io" where
  "tar_extract_entry root allowed owner e data =
     (let path = te_path e; full = strip_trailing_slash (root @ slash # path) in
      if \<not> path_allowed allowed path then tar_fail Outside_prefixes
      else if path = ''manifest'' then ret ()
      else if length root + 1 + length path + 1 > TAR_PATHMAX + 256 then tar_fail Target_too_long
      else if te_type e = CHR ''5'' then tar_mkdir_p full
      else
        andthen (tar_mkdir_parents full) (\<lambda>u.
        andthen (sys_open_trunc full (tar_fmode (te_mode e))) (\<lambda>wfd.
        andthen (on_fail (write_all wfd (take (unat (te_size e)) data)) sys_quiet) (\<lambda>u.
        andthen sys_quiet (\<lambda>u.
        owner_write owner path)))))"

function tar_extract_walk ::
  "string \<Rightarrow> string list option \<Rightarrow> fpath option \<Rightarrow> buf \<Rightarrow> nat \<Rightarrow> world \<Rightarrow> (errno + unit) \<times> world" where
  "tar_extract_walk root allowed owner rest zero_run w =
     (if length rest < TAR_BLOCK then ret () w
      else if block_is_zero rest then
        (if zero_run + 1 \<ge> 2 then ret () w
         else tar_extract_walk root allowed owner (drop TAR_BLOCK rest) (zero_run + 1) w)
      else (case tar_header rest of
          Inl e \<Rightarrow> tar_fail e w
        | Inr None \<Rightarrow> ret () w
        | Inr (Some e) \<Rightarrow>
            if handled_type (te_type e) \<and> \<not> path_is_safe (te_path e) then tar_fail Unsafe_path w
            else andthen
              (if handled_type (te_type e) then tar_extract_entry root allowed owner e (drop TAR_BLOCK rest) else ret ())
              (\<lambda>u. tar_extract_walk root allowed owner (drop (TAR_BLOCK + te_padded e) rest) 0) w))"
  by pat_completeness auto
termination
  by (relation "measure (\<lambda>(r, p, own, rest, z, w). length rest)") auto

declare tar_extract_walk.simps [simp del]

definition tar_extract_mem :: "buf \<Rightarrow> string \<Rightarrow> string list option \<Rightarrow> unit io" where
  "tar_extract_mem b root allowed = tar_extract_walk root allowed None b 0"

definition tar_extract_mem_owned :: "buf \<Rightarrow> string \<Rightarrow> string list option \<Rightarrow> fpath \<Rightarrow> unit io" where
  "tar_extract_mem_owned b root allowed owner_fd = tar_extract_walk root allowed (Some owner_fd) b 0"

subsection \<open>The reference\<close>

text \<open>The entries the walk acts on, in order, each with its data region, and the error that ends it.\<close>

function tar_items :: "buf \<Rightarrow> nat \<Rightarrow> (tar_entry \<times> buf) list \<times> tar_error option" where
  "tar_items rest zero_run =
     (if length rest < TAR_BLOCK then ([], None)
      else if block_is_zero rest then
        (if zero_run + 1 \<ge> 2 then ([], None) else tar_items (drop TAR_BLOCK rest) (zero_run + 1))
      else (case tar_header rest of
          Inl e \<Rightarrow> ([], Some e)
        | Inr None \<Rightarrow> ([], None)
        | Inr (Some e) \<Rightarrow>
            if \<not> handled_type (te_type e) then tar_items (drop (TAR_BLOCK + te_padded e) rest) 0
            else if \<not> path_is_safe (te_path e) then ([], Some Unsafe_path)
            else (case tar_items (drop (TAR_BLOCK + te_padded e) rest) 0 of
                (es, r) \<Rightarrow> ((e, drop TAR_BLOCK rest) # es, r))))"
  by pat_completeness auto
termination
  by (relation "measure (\<lambda>(rest, z). length rest)") auto

declare tar_items.simps [simp del]

text \<open>The files after one more entry.\<close>

definition extract_step :: "string \<Rightarrow> (fpath \<Rightarrow> buf option) \<Rightarrow> tar_entry \<times> buf \<Rightarrow> fpath \<Rightarrow> buf option" where
  "extract_step root f i =
     (if te_type (fst i) = CHR ''5'' \<or> te_path (fst i) = ''manifest'' then f
      else f(resolve root @ resolve (te_path (fst i)) \<mapsto> take (unat (te_size (fst i))) (snd i)))"

definition extracted :: "string \<Rightarrow> (tar_entry \<times> buf) list \<Rightarrow> (fpath \<Rightarrow> buf option) \<Rightarrow> fpath \<Rightarrow> buf option" where
  "extracted root items f = foldl (extract_step root) f items"

section \<open>The walk is the sequence of its entries\<close>

lemma tar_extract_walk_items:
  "tar_extract_walk root allowed owner rest z w =
     andthen (each (\<lambda>(e, d). tar_extract_entry root allowed owner e d) (fst (tar_items rest z)))
       (\<lambda>u. case snd (tar_items rest z) of None \<Rightarrow> ret () | Some e \<Rightarrow> tar_fail e) w"
proof (induction root allowed owner rest z w rule: tar_extract_walk.induct)
  case (1 root allowed owner rest z w)
  show ?case
  proof (cases "length rest < TAR_BLOCK \<or> block_is_zero rest")
    case True
    let ?stop = "length rest < TAR_BLOCK \<or> z + 1 \<ge> 2"
    have u: "tar_extract_walk root allowed owner rest z w =
        (if ?stop then ret () w else tar_extract_walk root allowed owner (drop TAR_BLOCK rest) (z + 1) w)"
      using True by (subst tar_extract_walk.simps) auto
    have i: "tar_items rest z = (if ?stop then ([], None) else tar_items (drop TAR_BLOCK rest) (z + 1))"
      using True by (subst tar_items.simps) auto
    show ?thesis unfolding u i using 1(1) True by (cases ?stop) (simp_all add: andthen_def ret_def)
  next
    case n: False
    show ?thesis
    proof (cases "tar_header rest")
      case (Inl e)
      then show ?thesis using n
        by (subst tar_extract_walk.simps, subst (1 2) tar_items.simps) (auto simp: andthen_def ret_def)
    next
      case h: (Inr oe)
      show ?thesis
      proof (cases oe)
        case None
        then show ?thesis using n h
          by (subst tar_extract_walk.simps, subst (1 2) tar_items.simps) (auto simp: andthen_def ret_def)
      next
        case (Some e)
        note IH = 1(2)[OF _ _ h Some]
        let ?t = "tar_items (drop (TAR_BLOCK + te_padded e) rest) 0"
        show ?thesis
        proof (cases "handled_type (te_type e) \<and> \<not> path_is_safe (te_path e)")
          case True
          then show ?thesis using n h Some
            by (subst tar_extract_walk.simps, subst (1 2) tar_items.simps) (auto simp: andthen_def ret_def)
        next
          case False
          have u: "tar_extract_walk root allowed owner rest z w = andthen
              (if handled_type (te_type e) then tar_extract_entry root allowed owner e (drop TAR_BLOCK rest) else ret ())
              (\<lambda>u. tar_extract_walk root allowed owner (drop (TAR_BLOCK + te_padded e) rest) 0) w"
            using n h Some False by (subst tar_extract_walk.simps) auto
          have i: "tar_items rest z = (if handled_type (te_type e)
              then ((e, drop TAR_BLOCK rest) # fst ?t, snd ?t) else ?t)"
            using n h Some False by (subst tar_items.simps) (auto split: prod.split)
          show ?thesis unfolding u i
            using n False IH by (auto simp: andthen_def ret_def split: prod.splits sum.splits)
        qed
      qed
    qed
  qed
qed

section \<open>Files an entry leaves\<close>

text \<open>The files of \<open>s\<close> are \<open>f\<close>, the owner list aside.\<close>

definition files_are :: "fpath option \<Rightarrow> (fpath \<Rightarrow> buf option) \<Rightarrow> fsys \<Rightarrow> bool" where
  "files_are own f s \<longleftrightarrow> wf_fs s \<and> (\<forall>x. Some x \<noteq> own \<longrightarrow> file_at s x = f x)"

lemma files_are_wf: "files_are own f s \<Longrightarrow> wf_fs s"
  by (simp add: files_are_def)

lemma files_are_append:
  assumes "files_are own f s" "Some p \<noteq> own \<Longrightarrow> f p = Some x"
  shows "files_are own (f(p \<mapsto> x @ y)) (fs_append p y s)"
proof -
  have w: "wf_fs (fs_append p y s)"
  proof (cases "\<exists>c m. map_of s p = Some (Reg c m)")
    case True
    then obtain c m where c: "map_of s p = Some (Reg c m)" by blast
    then have ne: "p \<noteq> []" using wf_fsD(1)[OF files_are_wf[OF assms(1)]] by auto
    then show ?thesis
      using c wf_fsD(2,3)[OF files_are_wf[OF assms(1)] c] files_are_wf[OF assms(1)]
      by (auto simp: fs_append_def intro!: wf_fs_update)
  next
    case False
    then have "fs_append p y s = s" by (auto simp: fs_append_def split: option.splits node.splits)
    then show ?thesis using assms(1) by (simp add: files_are_def)
  qed
  have "file_at (fs_append p y s) q = (f(p \<mapsto> x @ y)) q" if "Some q \<noteq> own" for q
  proof (cases "q = p")
    case True
    then have "file_at s p = Some x" using assms that by (simp add: files_are_def)
    then show ?thesis using True file_at_append(1) by simp
  next
    case False
    then show ?thesis using assms(1) that file_at_append(2)[OF False] by (simp add: files_are_def file_at_def)
  qed
  then show ?thesis using w by (simp add: files_are_def)
qed

lemma files_are_own_append: "files_are (Some p) f s \<Longrightarrow> files_are (Some p) f (fs_append p y s)"
  using files_are_append[of "Some p" f s p "[]" y] by (auto simp: files_are_def)

lemma mkdir_one_files_are:
  assumes "nul \<notin> set y"
  shows "valid F (files_are own f) (mkdir_one y) (\<lambda>_. files_are own f) (\<lambda>_. files_are own f)"
  unfolding mkdir_one_def
proof (rule valid_handle)
  show "valid F (files_are own f) (sys_mkdir y) (\<lambda>_. files_are own f) (\<lambda>_. files_are own f)"
  proof (rule valid_syscall)
    fix s assume u: "files_are own f s"
    have "files_are own f (AList.update (resolve y) Dir s)" if n: "map_of s (resolve y) = None" "walk_err s (resolve y) = None"
    proof -
      have ne: "resolve y \<noteq> []" using n(1) wf_fsD(1)[OF files_are_wf[OF u]] by auto
      have "wf_fs (AList.update (resolve y) Dir s)"
        by (rule wf_fs_update[OF files_are_wf[OF u] ne resolve_valid[OF assms] walk_err_butlast[OF n(2) ne]]) simp
      moreover have "file_at (AList.update (resolve y) Dir s) x = file_at s x" for x
        using n(1) by (simp add: file_at_def)
      ultimately show ?thesis using u by (simp add: files_are_def)
    qed
    then show "case fs_mkdir y s of (Inr x, s') \<Rightarrow> files_are own f s' | (Inl e, s') \<Rightarrow> files_are own f s'"
      using u by (auto simp: fs_mkdir_def Let_def split: option.split)
  qed auto
  show "valid F (files_are own f) (if e = EEXIST then ret () else throw e) (\<lambda>_. files_are own f) (\<lambda>_. files_are own f)" for e
    by (auto intro: valid_ret valid_throw)
qed

lemma tar_mkdir_parents_files_are:
  assumes "nul \<notin> set y"
  shows "valid F (files_are own f) (tar_mkdir_parents y) (\<lambda>_. files_are own f) (\<lambda>_. files_are own f)"
  unfolding tar_mkdir_parents_def
proof (rule valid_each)
  fix ys x zs assume "slash_prefixes y = ys @ x # zs"
  then have "x \<in> set (slash_prefixes y)" by simp
  then obtain r where "y = x @ slash # r" using slash_prefixes_member by blast
  then have "nul \<notin> set x" using assms by auto
  then show "valid F (files_are own f) (mkdir_one x) (\<lambda>_. files_are own f) (\<lambda>_. files_are own f)" by (rule mkdir_one_files_are)
qed

lemma open_trunc_files_are:
  assumes "nul \<notin> set path"
  shows "valid F (files_are own f) (sys_open_trunc path m)
     (\<lambda>fd s. fd = resolve path \<and> files_are own (f(resolve path \<mapsto> [])) s) (\<lambda>_. files_are own f)"
proof (rule valid_syscall)
  fix s assume u: "files_are own f s"
  let ?p = "resolve path"
  have w: "files_are own (f(?p \<mapsto> [])) (AList.update ?p (Reg [] k) s)"
    if n: "walk_err s ?p = None" "map_of s ?p \<noteq> Some Dir" for k
  proof -
    have ne: "?p \<noteq> []" using n(2) wf_fsD(1)[OF files_are_wf[OF u]] by auto
    have "wf_fs (AList.update ?p (Reg [] k) s)"
      by (rule wf_fs_update[OF files_are_wf[OF u] ne resolve_valid[OF assms] walk_err_butlast[OF n(1) ne]]) (use n in simp)
    then show ?thesis using u by (auto simp: files_are_def file_at_def)
  qed
  show "case fs_open_trunc path m s of (Inr fd, s') \<Rightarrow> fd = ?p \<and> files_are own (f(?p \<mapsto> [])) s' | (Inl e, s') \<Rightarrow> files_are own f s'"
    using u w by (auto simp: fs_open_trunc_def Let_def split: option.splits node.splits)
qed auto

lemma write_all_files_are:
  "valid F (files_are own (f(p \<mapsto> []))) (write_all p d) (\<lambda>_. files_are own (f(p \<mapsto> d))) (\<lambda>_ s. \<exists>x. files_are own (f(p \<mapsto> x)) s)"
proof -
  have "valid F (files_are own (f(p \<mapsto> []))) (write_all p d) (\<lambda>_. files_are own (f(p \<mapsto> [] @ d)))
      (\<lambda>_ s. F \<noteq> no_faults \<and> (\<exists>x. files_are own (f(p \<mapsto> x)) s))"
    using files_are_append[of own "f(p \<mapsto> x)" _ p x for x]
    by (intro valid_write_all[where A = "\<lambda>x. files_are own (f(p \<mapsto> x))"]) simp
  then show ?thesis by (rule valid_conseq) auto
qed

lemma owner_write_files_are: "valid F (files_are own f) (owner_write own path) (\<lambda>_. files_are own f) (\<lambda>_. files_are own f)"
proof (cases own)
  case (Some p)
  have "valid F (files_are own f) (write_once p d) (\<lambda>_. files_are own f) (\<lambda>_. files_are own f)" for d
    using files_are_own_append Some by (intro valid_write_once) auto
  then show ?thesis unfolding owner_write_def Some by (auto intro: valid_andthen)
qed (simp add: owner_write_def valid_ret)

section \<open>Properties\<close>

text \<open>Where an entry may leave a file: a safe and allowed path below the destination.\<close>

definition footprint :: "string \<Rightarrow> string list option \<Rightarrow> fpath \<Rightarrow> bool" where
  "footprint root allowed x \<longleftrightarrow>
     (\<exists>p. path_is_safe p \<and> path_allowed allowed p \<and> p \<noteq> ''manifest'' \<and> x = resolve root @ resolve p)"

definition partly :: "fpath option \<Rightarrow> (fpath \<Rightarrow> bool) \<Rightarrow> (fpath \<Rightarrow> buf option) \<Rightarrow> fsys \<Rightarrow> bool" where
  "partly own W f s \<longleftrightarrow> wf_fs s \<and> (\<forall>x. Some x \<noteq> own \<longrightarrow> file_at s x = f x \<or> W x)"

lemma files_are_partly: "files_are own f s \<Longrightarrow> (\<And>x. f x = g x \<or> W x) \<Longrightarrow> partly own W g s"
  by (auto simp: files_are_def partly_def)

lemma resolve_strip: "''..'' \<notin> set (split_on slash p) \<Longrightarrow> resolve (strip_trailing_slash p) = resolve p"
proof (cases "p \<noteq> [] \<and> last p = slash")
  case True
  assume "''..'' \<notin> set (split_on slash p)"
  have e: "p = butlast p @ slash # []" using True by (metis append_butlast_last_id)
  have "resolve (butlast p @ slash # []) = resolve (butlast p) @ resolve []" by (rule resolve_join) simp
  then show ?thesis using True e by (simp add: strip_trailing_slash_def resolve_def path_step_def)
qed (auto simp: strip_trailing_slash_def)

lemma tar_extract_entry_triple:
  assumes safe: "path_is_safe (te_path e)" and nn: "nul \<notin> set (te_path e)" "nul \<notin> set root"
    and dd: "''..'' \<notin> set (split_on slash root)"
  shows "valid F (files_are own f) (tar_extract_entry root allowed own e d)
     (\<lambda>_ s. files_are own (extract_step root f (e, d)) s \<and> path_allowed allowed (te_path e))
     (\<lambda>_. partly own (footprint root allowed) f)"
    (is "valid F _ _ ?Q ?E")
proof -
  let ?path = "te_path e" and ?full = "strip_trailing_slash (root @ slash # te_path e)"
  have dp: "''..'' \<notin> set (split_on slash ?path)" using safe path_scan_iff[of ?path] by (auto simp: path_is_safe_def)
  have p: "resolve ?full = resolve root @ resolve ?path"
    using dd dp by (subst resolve_strip) (simp_all add: split_on_append resolve_join)
  have nf: "nul \<notin> set ?full"
    using nn by (auto simp: strip_trailing_slash_def dest: in_set_butlastD)
  have E: "?E x s" if "files_are own f s" for x s using that by (rule files_are_partly) simp
  show ?thesis
  proof (cases "path_allowed allowed ?path \<and> ?path \<noteq> ''manifest'' \<and> length root + 1 + length ?path + 1 \<le> TAR_PATHMAX + 256")
    case False
    then show ?thesis
      unfolding tar_extract_entry_def Let_def tar_fail_def
      by (auto simp: extract_step_def intro!: valid_throw valid_ret E)
  next
    case ok: True
    have W: "footprint root allowed (resolve ?full)" using ok safe p by (auto simp: footprint_def)
    have E': "?E x s" if "files_are own (f(resolve ?full \<mapsto> y)) s" for x y s
      using that by (rule files_are_partly) (use W in auto)
    have mk: "valid F (files_are own f) (tar_mkdir_parents ?full) (\<lambda>_. files_are own f) ?E"
      by (rule valid_conseq[OF tar_mkdir_parents_files_are[OF nf]]) (use E in auto)
    show ?thesis
    proof (cases "te_type e = CHR ''5''")
      case True
      have "valid F (files_are own f) (tar_mkdir_p ?full) ?Q ?E"
        unfolding tar_mkdir_p_def
        by (rule valid_andthen[OF mk], rule valid_conseq[OF mkdir_one_files_are[OF nf]])
          (use E True ok in \<open>auto simp: extract_step_def\<close>)
      then show ?thesis using ok True by (simp add: tar_extract_entry_def Let_def)
    next
      case False
      let ?d = "take (unat (te_size e)) d"
      have st: "extract_step root f (e, d) = f(resolve ?full \<mapsto> ?d)" using ok False p by (simp add: extract_step_def)
      have wr: "valid F (files_are own (f(resolve ?full \<mapsto> []))) (on_fail (write_all (resolve ?full) ?d) sys_quiet)
          (\<lambda>_. files_are own (f(resolve ?full \<mapsto> ?d))) ?E"
        by (rule valid_on_fail[OF write_all_files_are], rule valid_quiet) (use E' in auto)
      have ow: "valid F (files_are own (f(resolve ?full \<mapsto> ?d))) (andthen sys_quiet (\<lambda>u. owner_write own ?path)) ?Q ?E"
        by (rule valid_quiet_then, rule valid_conseq[OF owner_write_files_are]) (use E' st ok in auto)
      have op: "valid F (files_are own f) (sys_open_trunc ?full (tar_fmode (te_mode e)))
          (\<lambda>fd s. fd = resolve ?full \<and> files_are own (f(resolve ?full \<mapsto> [])) s) ?E"
        by (rule valid_conseq[OF open_trunc_files_are[OF nf]]) (use E in auto)
      have "valid F (files_are own f) (andthen (tar_mkdir_parents ?full) (\<lambda>u.
          andthen (sys_open_trunc ?full (tar_fmode (te_mode e))) (\<lambda>wfd.
          andthen (on_fail (write_all wfd ?d) sys_quiet) (\<lambda>u. andthen sys_quiet (\<lambda>u. owner_write own ?path))))) ?Q ?E"
        using valid_andthen[OF wr ow] by (intro valid_andthen[OF mk] valid_andthen[OF op] valid_pull) simp
      then show ?thesis using ok False by (simp add: tar_extract_entry_def Let_def)
    qed
  qed
qed

lemma build_path_no_nul: "build_path h = Some p \<Longrightarrow> nul \<notin> set p"
  by (auto simp: build_path_def Let_def split: if_splits)

lemma tar_header_no_nul:
  assumes "tar_header rest = Inr (Some e)"
  shows "nul \<notin> set (te_path e)"
proof -
  obtain raw where "build_path (take TAR_BLOCK rest) = Some raw" "te_path e = strip_dot_slash raw"
    using assms by (auto simp: tar_header_def Let_def split: if_splits option.splits)
  then show ?thesis using build_path_no_nul by (auto simp: strip_dot_slash_def dest: in_set_dropD)
qed

lemma tar_items_safe:
  "(e, d) \<in> set (fst (tar_items rest z)) \<Longrightarrow> path_is_safe (te_path e) \<and> nul \<notin> set (te_path e)"
proof (induction rest z rule: tar_items.induct)
  case (1 rest z)
  have m: "(e, d) \<in> set (fst (if length rest < TAR_BLOCK then ([], None)
      else if block_is_zero rest then
        (if z + 1 \<ge> 2 then ([], None) else tar_items (drop TAR_BLOCK rest) (z + 1))
      else (case tar_header rest of
          Inl e \<Rightarrow> ([], Some e)
        | Inr None \<Rightarrow> ([], None)
        | Inr (Some e) \<Rightarrow>
            if \<not> handled_type (te_type e) then tar_items (drop (TAR_BLOCK + te_padded e) rest) 0
            else if \<not> path_is_safe (te_path e) then ([], Some Unsafe_path)
            else (case tar_items (drop (TAR_BLOCK + te_padded e) rest) 0 of
                (es, r) \<Rightarrow> ((e, drop TAR_BLOCK rest) # es, r)))))"
    using 1(4) by (subst (asm) tar_items.simps)
  show ?case
  proof (cases "length rest < TAR_BLOCK \<or> block_is_zero rest")
    case True
    then show ?thesis using m 1(1) by (auto split: if_splits)
  next
    case n: False
    then obtain e' where h: "tar_header rest = Inr (Some e')"
      using m by (cases "tar_header rest") (auto split: option.splits)
    note IH = 1(2,3)[OF _ _ h refl]
    show ?thesis using m n h tar_header_no_nul[OF h] IH by (auto split: if_splits prod.splits)
  qed
qed

lemma extracted_snoc: "extracted root (is @ [i]) f = extract_step root (extracted root is f) i"
  by (simp add: extracted_def)

lemma extracted_footprint:
  assumes "\<forall>(e, d) \<in> set is. path_is_safe (te_path e) \<and> path_allowed allowed (te_path e)"
  shows "extracted root is f x = f x \<or> footprint root allowed x"
  using assms
proof (induction "is" rule: rev_induct)
  case (snoc i xs)
  then show ?case
    by (cases i) (auto simp: extracted_snoc extract_step_def footprint_def)
qed (simp add: extracted_def)

definition root_ok :: "string \<Rightarrow> bool" where
  "root_ok root \<longleftrightarrow> nul \<notin> set root \<and> ''..'' \<notin> set (split_on slash root)"

lemma tar_extract_walk_triple:
  assumes "root_ok root"
  shows "valid F (files_are own f) (tar_extract_walk root allowed own b z)
     (\<lambda>_ s. snd (tar_items b z) = None \<and> files_are own (extracted root (fst (tar_items b z)) f) s \<and>
        partly own (footprint root allowed) f s)
     (\<lambda>_. partly own (footprint root allowed) f)"
    (is "valid F _ _ ?Q ?E")
proof -
  let ?is = "fst (tar_items b z)" and ?x = "\<lambda>(e, d). tar_extract_entry root allowed own e d"
  let ?ok = "\<lambda>is. \<forall>(e, d) \<in> set is. path_is_safe (te_path e) \<and> path_allowed allowed (te_path e)"
  let ?I = "\<lambda>is s. files_are own (extracted root is f) s \<and> ?ok is"
  have e: "valid F (?I []) (each ?x ?is) (\<lambda>_. ?I ?is) ?E"
  proof (rule valid_each)
    fix ys i zs assume l: "?is = ys @ i # zs"
    obtain e d where i: "i = (e, d)" by (cases i)
    have s: "path_is_safe (te_path e)" "nul \<notin> set (te_path e)" using tar_items_safe[of e d b z] by (simp_all add: l i)
    have v: "valid F (files_are own (extracted root ys f)) (?x i)
        (\<lambda>_ s. files_are own (extract_step root (extracted root ys f) (e, d)) s \<and> path_allowed allowed (te_path e))
        (\<lambda>_. partly own (footprint root allowed) (extracted root ys f))"
      using tar_extract_entry_triple[OF s] assms by (simp add: i root_ok_def)
    show "valid F (?I ys) (?x i) (\<lambda>_. ?I (ys @ [i])) ?E"
    proof (rule valid_conseq[OF valid_pure[OF v, of "?ok ys"]])
      show "?E e s" if "partly own (footprint root allowed) (extracted root ys f) s \<and> ?ok ys" for e s
        using that extracted_footprint[of ys allowed root f] unfolding partly_def by metis
    qed (use s i in \<open>auto simp: extracted_snoc\<close>)
  qed
  have part: "partly own (footprint root allowed) f s" if "?I ?is s" for s
    using that extracted_footprint[of ?is allowed root f] by (intro files_are_partly[of own "extracted root ?is f"]) auto
  have "valid F (files_are own f) (andthen (each ?x ?is)
      (\<lambda>u. case snd (tar_items b z) of None \<Rightarrow> ret () | Some e \<Rightarrow> tar_fail e)) ?Q ?E"
  proof (rule valid_andthen[OF valid_pre[OF e]])
    show "files_are own f s \<Longrightarrow> ?I [] s" for s by (simp add: extracted_def)
    show "valid F (?I ?is) (case snd (tar_items b z) of None \<Rightarrow> ret () | Some e \<Rightarrow> tar_fail e) ?Q ?E" for u :: unit
    proof (cases "snd (tar_items b z)")
      case None
      then show ?thesis using part by (auto intro!: valid_ret)
    next
      case (Some e)
      then show ?thesis unfolding Some tar_fail_def using part by (auto intro!: valid_throw)
    qed
  qed
  moreover have "tar_extract_walk root allowed own b z =
      andthen (each ?x ?is) (\<lambda>u. case snd (tar_items b z) of None \<Rightarrow> ret () | Some e \<Rightarrow> tar_fail e)"
    by (rule ext) (rule tar_extract_walk_items)
  ultimately show ?thesis by simp
qed


lemma tar_items_member:
  assumes "archivable m"
  shows "tar_items (ustar_member m @ rest) z =
     ((\<lparr>te_type = CHR ''0'', te_path = fst m, te_mode = 420, te_size = of_nat (length (snd m)),
        te_padded = (length (snd m) + 511) div 512 * 512\<rparr>, drop 512 (ustar_member m @ rest)) # fst (tar_items rest 0),
      snd (tar_items rest 0))"
proof -
  have sf: "path_is_safe (fst m)" using assms by (simp add: archivable_def)
  have h: "handled_type CHR ''0''" by (simp add: handled_type_def)
  show ?thesis
    by (subst tar_items.simps)
      (simp add: ustar_member_parts[OF assms] tar_header_member[OF assms] h sf del: drop_append take_append split: prod.split)
qed

lemma tar_items_end: "tar_items (replicate 1024 nul) z = ([], None)"
  by (subst tar_items.simps, subst tar_items.simps) (simp add: block_is_zero_replicate)

lemma tar_items_archive:
  assumes "\<forall>m \<in> set ms. archivable m"
  shows "snd (tar_items (ustar_archive ms) z) = None \<and>
     extracted root (fst (tar_items (ustar_archive ms) z)) f =
       foldl (\<lambda>f (n, d). if n = ''manifest'' then f else f(resolve root @ resolve n \<mapsto> d)) f ms"
  using assms
proof (induction ms arbitrary: z f)
  case Nil
  then show ?case by (simp add: ustar_archive_def tar_items_end extracted_def)
next
  case (Cons m ms)
  have a: "ustar_archive (m # ms) = ustar_member m @ ustar_archive ms" by (simp add: ustar_archive_def)
  have m: "archivable m" using Cons(2) by simp
  show ?case
    unfolding a tar_items_member[OF m]
    using Cons(1)[of 0] Cons(2) ustar_member_parts(1,4)[OF m]
    by (cases m) (simp add: extracted_def extract_step_def del: drop_append take_append)
qed

text \<open>
  C14: extracting an archive that was built from a list of named files writes exactly these
  files: when the extraction succeeds, every file is the one the last member for its path gives,
  the manifest is not written, and every other file is as it was.
\<close>

theorem tar_extract_archive:
  assumes "\<forall>m \<in> set ms. archivable m" "wf_fs (fs w)" "root_ok root"
    and "tar_extract_mem_owned (ustar_archive ms) root allowed owner w = (Inr u, w1)" "x \<noteq> owner"
  shows "file_at (fs w1) x =
     foldl (\<lambda>f (n, d). if n = ''manifest'' then f else f(resolve root @ resolve n \<mapsto> d)) (file_at (fs w)) ms x"
proof -
  have "within UNIV w" "files_are (Some owner) (file_at (fs w)) (fs w)"
    using assms(2) by (simp_all add: within_def files_are_def)
  note v = valid_run[OF tar_extract_walk_triple[OF assms(3)] this(2,1) assms(4)[unfolded tar_extract_mem_owned_def]]
  then have "file_at (fs w1) x = extracted root (fst (tar_items (ustar_archive ms) 0)) (file_at (fs w)) x"
    using assms(5) by (auto simp: files_are_def)
  then show ?thesis using tar_items_archive[OF assms(1)] by simp
qed

section \<open>Concrete extractions\<close>

definition stage_world :: world where
  "stage_world = \<lparr>fs = [([], Dir), ([''s''], Dir), ([''o''], Reg [] 420)], sched = \<lambda>n. NoFault\<rparr>"

definition member_entry :: "string \<times> buf \<Rightarrow> tar_entry" where
  "member_entry m = \<lparr>te_type = CHR ''0'', te_path = fst m, te_mode = 420, te_size = of_nat (length (snd m)),
     te_padded = (length (snd m) + 511) div 512 * 512\<rparr>"

lemma tar_extract_entry_data:
  "take (unat (te_size e)) d = take (unat (te_size e)) d' \<Longrightarrow>
   tar_extract_entry root allowed own e d = tar_extract_entry root allowed own e d'"
  by (simp only: tar_extract_entry_def)

lemma tar_extract_members:
  assumes "\<forall>m \<in> set ms. archivable m"
  shows "tar_extract_mem_owned (ustar_archive ms) root allowed owner w =
     each (\<lambda>m. tar_extract_entry root allowed (Some owner) (member_entry m) (snd m)) ms w"
proof -
  let ?x = "\<lambda>(e, d). tar_extract_entry root allowed (Some owner) e d"
  have "each ?x (fst (tar_items (ustar_archive ms) z)) =
      each (\<lambda>m. tar_extract_entry root allowed (Some owner) (member_entry m) (snd m)) ms" for z
    using assms
  proof (induction ms arbitrary: z)
    case Nil
    then show ?case by (simp add: ustar_archive_def tar_items_end)
  next
    case (Cons m ms)
    have a: "ustar_archive (m # ms) = ustar_member m @ ustar_archive ms" by (simp add: ustar_archive_def)
    have m: "archivable m" using Cons(2) by simp
    have "tar_extract_entry root allowed (Some owner) (member_entry m) (drop 512 (ustar_member m @ r)) =
        tar_extract_entry root allowed (Some owner) (member_entry m) (snd m)" for r
      using ustar_member_parts(1,4)[OF m]
      by (intro tar_extract_entry_data) (simp add: member_entry_def del: drop_append take_append)
    then show ?case unfolding a tar_items_member[OF m] member_entry_def[symmetric] using Cons by simp
  qed
  then show ?thesis
    using tar_items_archive[OF assms, of 0]
    by (simp add: tar_extract_mem_owned_def tar_extract_walk_items andthen_def ret_def split: prod.split sum.split)
qed

definition app_archive :: "(string \<times> buf) list" where
  "app_archive = [(''manifest'', ''id=x''), (''apps/x/run'', ''code'')]"

lemma app_archivable: "\<forall>m \<in> set app_archive. archivable m"
  by (simp add: app_archive_def archivable_def path_is_safe_def strip_dot_slash_def) code_simp

lemma app_extracts:
  "fst (tar_extract_mem_owned (ustar_archive app_archive) ''/s'' (Some [''apps/x/'']) [''o''] stage_world) = Inr ()"
  unfolding tar_extract_members[OF app_archivable] by code_simp

lemma stage_facts: "wf_fs (fs stage_world)" "root_ok ''/s''" "resolve ''/s'' = [''s'']"
    "resolve ''apps/x/run'' = [''apps'', ''x'', ''run'']"
proof -
  show "wf_fs (fs stage_world)" by code_simp
  show "root_ok ''/s''" by (simp add: root_ok_def)
  show "resolve ''/s'' = [''s'']" by code_simp
  show "resolve ''apps/x/run'' = [''apps'', ''x'', ''run'']" by code_simp
qed

theorem tar_extract_archive_witness:
  "file_at (fs (snd (tar_extract_mem_owned (ustar_archive app_archive) ''/s'' (Some [''apps/x/'']) [''o''] stage_world)))
     [''s'', ''apps'', ''x'', ''run''] = Some ''code''"
proof -
  let ?run = "tar_extract_mem_owned (ustar_archive app_archive) ''/s'' (Some [''apps/x/'']) [''o''] stage_world"
  obtain w1 where w1: "?run = (Inr (), w1)" using app_extracts by (metis prod.collapse)
  show ?thesis
    using tar_extract_archive[OF app_archivable stage_facts(1,2) w1, of "[''s'', ''apps'', ''x'', ''run'']"] w1 stage_facts(3,4)
    by (simp add: app_archive_def)
qed


text \<open>
  the ancestor rule lets a package write outside its declared prefixes.  An entry named
  \<open>lib/\<close> of the regular type passes as the ancestor directory of \<open>lib/ladybird/\<close>, the trailing
  slash is stripped, and a regular file \<open>lib\<close> is written.
\<close>

theorem tar_ancestor_written_as_file:
  "case tar_extract_mem_owned (ustar_archive [(''lib/'', ''data'')]) ''/s'' (Some [''lib/ladybird/'']) [''o''] stage_world of
     (r, w1) \<Rightarrow> r = Inr () \<and> file_at (fs w1) [''s'', ''lib''] = Some ''data''"
proof -
  have a: "\<forall>m \<in> set [(''lib/'', ''data'')]. archivable m"
    by (simp add: archivable_def path_is_safe_def strip_dot_slash_def) code_simp
  show ?thesis unfolding tar_extract_members[OF a] by code_simp
qed


end
