(* ===== verification/Herald_Version.thy ===== *)
theory Herald_Version
  imports C_Prelude
begin

text \<open>
  Version comparison, \<open>ver_component\<close> and \<open>herald_version_gt\<close> of \<open>user/bin/herald/repo.c\<close>, on which
  the anti-rollback guard and the choice of a candidate rest.  A component is a saturating
  64-bit number; the order is shown to be the lexicographic one on the components.
\<close>

section \<open>Definitions\<close>

abbreviation ULLONG_MAX :: nat where "ULLONG_MAX \<equiv> 18446744073709551615"

text \<open>The loop of \<open>ver_component\<close>: the value and the string at the dot or at the end.\<close>

fun ver_loop :: "string \<Rightarrow> nat \<Rightarrow> nat \<times> string" where
  "ver_loop [] v = (v, [])"
| "ver_loop (c # s) v =
     (if c = dot then (v, c # s)
      else if is_digit c then
        (let d = byte_of c - 48 in
         ver_loop s (if v > (ULLONG_MAX - d) div 10 then ULLONG_MAX else v * 10 + d))
      else ver_loop s v)"

definition ver_component :: "string \<Rightarrow> nat \<times> string" where
  "ver_component s = ver_loop s 0"

definition skip_dot :: "string \<Rightarrow> string" where
  "skip_dot s = (case s of [] \<Rightarrow> [] | c # r \<Rightarrow> if c = dot then r else s)"

lemma ver_loop_rest: "snd (ver_loop s v) = dropWhile (\<lambda>c. c \<noteq> dot) s"
  by (induction s v rule: ver_loop.induct) (auto simp: Let_def)

lemma skip_dot_rest: "skip_dot (dropWhile (\<lambda>c. c \<noteq> dot) s) = drop 1 (dropWhile (\<lambda>c. c \<noteq> dot) s)"
  by (induction s) (auto simp: skip_dot_def)

lemma skip_dot_length: "length (skip_dot (snd (ver_component s))) \<le> length s - 1"
proof -
  have "length (dropWhile (\<lambda>c. c \<noteq> dot) s) \<le> length s" by (rule length_dropWhile_le)
  then show ?thesis unfolding ver_component_def ver_loop_rest skip_dot_rest by simp
qed

function herald_version_gt :: "string \<Rightarrow> string \<Rightarrow> bool" where
  "herald_version_gt a b =
     (if a = [] \<and> b = [] then False
      else (let na = fst (ver_component a); nb = fst (ver_component b) in
        if na \<noteq> nb then na > nb
        else herald_version_gt (skip_dot (snd (ver_component a))) (skip_dot (snd (ver_component b)))))"
  by pat_completeness auto
termination
proof (relation "measure (\<lambda>(a, b). length a + length b)", goal_cases)
  case (2 a b)
  then have "0 < length a \<or> 0 < length b" by simp
  then show ?case using skip_dot_length[of a] skip_dot_length[of b] by (simp, linarith)
qed simp

declare herald_version_gt.simps [simp del]

section \<open>Components\<close>

definition digit_value :: "nat \<Rightarrow> char \<Rightarrow> nat" where
  "digit_value v c = (if is_digit c then v * 10 + (byte_of c - 48) else v)"

text \<open>The number the digits of a component spell, without bound; other characters are skipped.\<close>

definition component_value :: "string \<Rightarrow> nat" where
  "component_value s = foldl digit_value 0 s"

text \<open>The saturated components of a version; beyond the last one they are 0.\<close>

definition components :: "string \<Rightarrow> nat list" where
  "components s = map (\<lambda>c. min ULLONG_MAX (component_value c)) (split_on dot s)"

definition component_at :: "string \<Rightarrow> nat \<Rightarrow> nat" where
  "component_at s i = (if i < length (components s) then components s ! i else 0)"

lemma saturating_step:
  fixes v d :: nat
  assumes "d < 10" and that: "10 \<le> m"
  shows "(if min m v > (m - d) div 10 then m else min m v * 10 + d) = min m (v * 10 + d)"
proof (cases "v * 10 + d \<le> m")
  case True
  then have "v \<le> (m - d) div 10" by (metis add_le_imp_le_diff div_le_mono nonzero_mult_div_cancel_right zero_neq_numeral)
  moreover have "(m - d) div 10 \<le> m" using div_le_dividend[of "m - d" 10] by linarith
  ultimately show ?thesis using True by (simp add: min_def)
next
  case False
  then have "(m - d) div 10 < v" using assms that by linarith
  moreover have "(m - d) div 10 < m" using assms that by linarith
  ultimately show ?thesis using False by (simp add: min_def)
qed

lemma is_digit_less: "is_digit c \<Longrightarrow> byte_of c - 48 < 10"
  unfolding is_digit_def by linarith

lemma ver_loop_value:
  "fst (ver_loop s (min ULLONG_MAX v)) = min ULLONG_MAX (foldl digit_value v (takeWhile (\<lambda>c. c \<noteq> dot) s))"
proof (induction s arbitrary: v)
  case (Cons c s)
  show ?case
  proof (cases "c = dot")
    case False
    show ?thesis
    proof (cases "is_digit c")
      case True
      have st: "(if min ULLONG_MAX v > (ULLONG_MAX - (byte_of c - 48)) div 10 then ULLONG_MAX
          else min ULLONG_MAX v * 10 + (byte_of c - 48)) = min ULLONG_MAX (v * 10 + (byte_of c - 48))"
        by (rule saturating_step[OF is_digit_less[OF True]]) simp
      show ?thesis
        using Cons[of "v * 10 + (byte_of c - 48)"] False True
        by (simp only: ver_loop.simps Let_def st if_False if_True takeWhile.simps foldl_Cons digit_value_def not_False_eq_True)
    qed (use Cons False in \<open>simp add: digit_value_def\<close>)
  qed simp
qed simp

lemma components_not_Nil [simp]: "components s \<noteq> []"
  by (simp add: components_def)

lemma ver_component_split:
  "fst (ver_component s) = hd (components s)"
  "components (skip_dot (snd (ver_component s))) = (if tl (components s) = [] then [0] else tl (components s))"
proof -
  let ?d = "dropWhile (\<lambda>c. c \<noteq> dot) s"
  have c: "components s = min ULLONG_MAX (component_value (takeWhile (\<lambda>c. c \<noteq> dot) s)) #
      (if ?d = [] then [] else components (tl ?d))"
    unfolding components_def split_on_Cons_takeWhile[of dot s] by (simp only: list.map if_distrib[of "map _"])
  show "fst (ver_component s) = hd (components s)"
    using ver_loop_value[of s 0] by (simp only: c list.sel ver_component_def component_value_def min_0R)
  have r: "skip_dot (snd (ver_component s)) = drop 1 ?d"
    by (simp only: ver_component_def ver_loop_rest skip_dot_rest)
  have z: "components [] = [0]" by (simp add: components_def component_value_def)
  show "components (skip_dot (snd (ver_component s))) = (if tl (components s) = [] then [0] else tl (components s))"
    unfolding r c list.sel
  proof (cases ?d)
    case Nil
    show "components (drop 1 ?d) = (if (if ?d = [] then [] else components (tl ?d)) = [] then [0]
        else if ?d = [] then [] else components (tl ?d))"
      unfolding Nil using z by simp
  next
    case (Cons a r)
    show "components (drop 1 ?d) = (if (if ?d = [] then [] else components (tl ?d)) = [] then [0]
        else if ?d = [] then [] else components (tl ?d))"
      unfolding Cons by simp
  qed
qed

lemma component_at_0: "component_at s 0 = fst (ver_component s)"
  using ver_component_split(1)[of s] hd_conv_nth[OF components_not_Nil, of s] by (simp add: component_at_def)

lemma component_at_Suc: "component_at s (Suc i) = component_at (skip_dot (snd (ver_component s))) i"
proof -
  obtain c cs where c: "components s = c # cs" by (cases "components s") auto
  then show ?thesis using ver_component_split(2)[of s] by (auto simp: component_at_def nth_Cons')
qed

lemma component_at_empty: "component_at [] i = 0"
  by (simp add: component_at_def components_def component_value_def)

text \<open>The lexicographic order on the components.\<close>

definition version_less :: "string \<Rightarrow> string \<Rightarrow> bool" where
  "version_less b a \<longleftrightarrow> (\<exists>i. component_at b i < component_at a i \<and> (\<forall>j < i. component_at a j = component_at b j))"

lemma herald_version_gt_lex: "herald_version_gt a b \<longleftrightarrow> version_less b a"
proof (induction a b rule: herald_version_gt.induct)
  case (1 a b)
  let ?a = "skip_dot (snd (ver_component a))" and ?b = "skip_dot (snd (ver_component b))"
  have step: "version_less b a \<longleftrightarrow> fst (ver_component b) < fst (ver_component a) \<or>
      (fst (ver_component a) = fst (ver_component b) \<and> version_less ?b ?a)"
  proof -
    have "version_less b a \<longleftrightarrow> (\<exists>i. component_at b i < component_at a i \<and> (\<forall>j < i. component_at a j = component_at b j))"
      by (simp add: version_less_def)
    also have "\<dots> \<longleftrightarrow> component_at b 0 < component_at a 0 \<or>
        (\<exists>i. component_at b (Suc i) < component_at a (Suc i) \<and> (\<forall>j < Suc i. component_at a j = component_at b j))"
      by (metis less_nat_zero_code not0_implies_Suc)
    also have "\<dots> \<longleftrightarrow> component_at b 0 < component_at a 0 \<or> component_at a 0 = component_at b 0 \<and>
        (\<exists>i. component_at b (Suc i) < component_at a (Suc i) \<and> (\<forall>j < i. component_at a (Suc j) = component_at b (Suc j)))"
      unfolding All_less_Suc2 by blast
    finally show ?thesis by (simp add: component_at_0 component_at_Suc version_less_def)
  qed
  show ?case
  proof (cases "a = [] \<and> b = []")
    case True
    then show ?thesis by (subst herald_version_gt.simps) (simp add: version_less_def component_at_empty)
  next
    case False
    then show ?thesis using 1 step by (subst herald_version_gt.simps) (auto simp: Let_def)
  qed
qed

lemma version_less_irrefl: "\<not> version_less a a"
  by (simp add: version_less_def)

lemma version_less_trans:
  assumes "version_less a b" "version_less b c"
  shows "version_less a c"
proof -
  obtain i where i: "component_at a i < component_at b i" "\<forall>j < i. component_at b j = component_at a j"
    using assms(1) by (auto simp: version_less_def)
  obtain k where k: "component_at b k < component_at c k" "\<forall>j < k. component_at c j = component_at b j"
    using assms(2) by (auto simp: version_less_def)
  show ?thesis
    unfolding version_less_def
    by (rule exI[of _ "min i k"]) (use i k in \<open>cases i k rule: linorder_cases; auto simp: min_def\<close>)
qed

lemma not_version_less_iff:
  "\<not> version_less a b \<longleftrightarrow> version_less b a \<or> (\<forall>i. component_at a i = component_at b i)"
proof -
  have "version_less a b \<or> version_less b a" if "component_at a i \<noteq> component_at b i" for i
  proof -
    define k where "k = (LEAST i. component_at a i \<noteq> component_at b i)"
    have k: "component_at a k \<noteq> component_at b k" unfolding k_def using that by (rule LeastI)
    have l: "component_at a j = component_at b j" if "j < k" for j
      using not_less_Least[OF that[unfolded k_def]] by simp
    have "component_at a k < component_at b k \<or> component_at b k < component_at a k" using k by linarith
    then show ?thesis unfolding version_less_def using l[symmetric] l by blast
  qed
  moreover have "\<not> (version_less a b \<and> version_less b a)"
    using version_less_trans version_less_irrefl by blast
  moreover have "\<not> version_less a b" if "\<forall>i. component_at a i = component_at b i" using that by (simp add: version_less_def)
  ultimately show ?thesis by blast
qed

text \<open>
  C16: \<open>herald_version_gt\<close> is the lexicographic order on the dotted components, each the decimal
  number its digits spell, cut off at the largest 64-bit value, and missing components being 0.
\<close>

theorem version_gt_lexicographic: "herald_version_gt a b = version_less b a"
  by (rule herald_version_gt_lex)

end
