(* ===== verification/Herald_Db.thy ===== *)
theory Herald_Db
  imports Herald_Txn_Steps
begin

text \<open>
  The database of installed packages, \<open>user/bin/herald/db.c\<close>: a text file with one
  tab-separated line per package, read into a table of at most 256 entries and rewritten as a
  whole through a temporary file and a rename.

  The static \<open>db_path\<close> is an argument of the operations.  The interface the package manager
  relies on is the locale \<open>keyed_store\<close>, a finite map from ids to entries with a bounded
  number of keys; it is interpreted on the contents of the database file.
\<close>

section \<open>Definitions\<close>

record herald_db_entry =
  e_id :: string
  e_version :: string
  e_exec :: string
  e_sha256 :: string

abbreviation HERALD_DB_CAP :: nat where "HERALD_DB_CAP \<equiv> 256"

text \<open>\<open>NULL\<close> restores the default path.\<close>

definition db_set_path :: "string option \<Rightarrow> string" where
  "db_set_path path = fit 512 (case path of Some p \<Rightarrow> p | None \<Rightarrow> HERALD_DB_PATH)"

definition db_mkdir_p :: "string \<Rightarrow> unit io" where
  "db_mkdir_p path =
     (let tmp = fit 256 path in
      andthen (each (\<lambda>p. ignore (sys_mkdir p)) (slash_prefixes tmp)) (\<lambda>u.
      ignore (sys_mkdir tmp)))"

definition parse_line :: "string \<Rightarrow> herald_db_entry option" where
  "parse_line line =
     (if line = [] then None
      else (case split_on tab line of
          [a, b, c, d] \<Rightarrow>
            if length a \<ge> 64 \<or> length b \<ge> 32 \<or> length c \<ge> 64 \<or> length d \<ge> 65 then None
            else Some \<lparr>e_id = a, e_version = b, e_exec = c, e_sha256 = d\<rparr>
        | _ \<Rightarrow> None))"

text \<open>
  The loop of \<open>db_load\<close>.  A line without a newline in the buffer, too long or with a NUL in
  it, is dropped with everything up to the next newline.
\<close>

function db_scan :: "nat \<Rightarrow> buf \<Rightarrow> herald_db_entry list" where
  "db_scan cap b =
     (if cap = 0 \<or> b = [] then []
      else (let line = cstr (fst (fgets 512 b)); rest = snd (fgets 512 b) in
        if newline \<notin> set line then db_scan cap (after_line rest)
        else (case parse_line (takeWhile (\<lambda>c. c \<noteq> cr) (line_of line)) of
            None \<Rightarrow> db_scan cap rest
          | Some e \<Rightarrow> e # db_scan (cap - 1) rest)))"
  by pat_completeness auto
termination
proof (relation "measure (\<lambda>(m, b). length b)", goal_cases)
  case (2 m b x xa)
  then have "length xa < length b" using fgets_shorter[of b 512] by simp
  moreover have "length (after_line xa) \<le> length xa"
    using length_after_line[of xa] by (cases "xa = []") (auto simp: after_line_def)
  ultimately show ?case by simp
qed (auto simp: fgets_shorter)

declare db_scan.simps [simp del]

definition db_load :: "string \<Rightarrow> nat \<Rightarrow> herald_db_entry list io" where
  "db_load path cap =
     andthen (require (0 < cap)) (\<lambda>u.
     andthen (optional (sys_open_read path)) (\<lambda>f.
     case f of None \<Rightarrow> ret [] | Some c \<Rightarrow> ret (db_scan cap (fst c))))"

definition db_read :: "string \<Rightarrow> nat \<Rightarrow> herald_db_entry list io" where
  "db_read path cap = db_load path cap"

definition entries_find :: "string \<Rightarrow> herald_db_entry list \<Rightarrow> herald_db_entry option" where
  "entries_find i es = find (\<lambda>e. e_id e = i) es"

definition db_find :: "string \<Rightarrow> string \<Rightarrow> herald_db_entry option io" where
  "db_find path i = andthen (db_load path HERALD_DB_CAP) (\<lambda>es. ret (entries_find i es))"

definition db_line :: "herald_db_entry \<Rightarrow> buf" where
  "db_line e = e_id e @ tab # e_version e @ tab # e_exec e @ tab # e_sha256 e @ [newline]"

text \<open>
  The stream writes each line out at its \<open>fprintf\<close>; \<open>fflush\<close> and \<open>fclose\<close> may still fail.  All
  the error branches close the stream, unlink the temporary file and return.
\<close>

definition db_write_all :: "string \<Rightarrow> herald_db_entry list \<Rightarrow> unit io" where
  "db_write_all path es =
     (let dir = fit 512 path; tmp = path @ ''.tmp'' in
      case last_slash dir of
        None \<Rightarrow> throw EINVAL
      | Some i \<Rightarrow>
          andthen (require (length tmp < 516)) (\<lambda>u.
          andthen (db_mkdir_p (take i dir)) (\<lambda>u.
          andthen (sys_open_trunc tmp 438) (\<lambda>fd.
          on_fail
            (andthen (each (\<lambda>e. write_all fd (db_line e)) es) (\<lambda>u.
             andthen sys_quiet (\<lambda>u.
             andthen sys_quiet (\<lambda>u.
             sys_rename tmp path))))
            (sys_unlink tmp)))))"

text \<open>The loop that replaces the first entry of the same id.\<close>

fun entries_replace :: "herald_db_entry \<Rightarrow> herald_db_entry list \<Rightarrow> herald_db_entry list option" where
  "entries_replace e [] = None"
| "entries_replace e (x # xs) =
     (if e_id x = e_id e then Some (e # xs) else map_option ((#) x) (entries_replace e xs))"

definition entries_put :: "herald_db_entry \<Rightarrow> herald_db_entry list \<Rightarrow> herald_db_entry list option" where
  "entries_put e es =
     (case entries_replace e es of
        Some es' \<Rightarrow> Some es'
      | None \<Rightarrow> if length es \<ge> HERALD_DB_CAP then None else Some (es @ [e]))"

definition db_put :: "string \<Rightarrow> herald_db_entry \<Rightarrow> unit io" where
  "db_put path e =
     andthen (require (e_id e \<noteq> [])) (\<lambda>u.
     andthen (db_load path HERALD_DB_CAP) (\<lambda>es.
     case entries_put e es of None \<Rightarrow> throw EINVAL | Some es' \<Rightarrow> db_write_all path es'))"

definition entries_remove :: "string \<Rightarrow> herald_db_entry list \<Rightarrow> herald_db_entry list" where
  "entries_remove i es = filter (\<lambda>e. e_id e \<noteq> i) es"

text \<open>The result is whether the id was present: \<open>True\<close> for 0, \<open>False\<close> for 1.\<close>

definition db_remove :: "string \<Rightarrow> string \<Rightarrow> bool io" where
  "db_remove path i =
     andthen (require (i \<noteq> [])) (\<lambda>u.
     andthen (db_load path HERALD_DB_CAP) (\<lambda>es.
     if list_ex (\<lambda>e. e_id e = i) es
     then andthen (db_write_all path (entries_remove i es)) (\<lambda>u. ret True)
     else ret False))"

section \<open>Lines and entries\<close>

definition field_ok :: "nat \<Rightarrow> string \<Rightarrow> bool" where
  "field_ok n s \<longleftrightarrow> length s < n \<and> set s \<inter> {nul, tab, newline, cr} = {}"

definition entry_wf :: "herald_db_entry \<Rightarrow> bool" where
  "entry_wf e \<longleftrightarrow> field_ok 64 (e_id e) \<and> field_ok 32 (e_version e) \<and> field_ok 64 (e_exec e) \<and> field_ok 65 (e_sha256 e)"

definition db_bytes :: "herald_db_entry list \<Rightarrow> buf" where
  "db_bytes es = concat (map db_line es)"

definition db_body :: "herald_db_entry \<Rightarrow> buf" where
  "db_body e = e_id e @ tab # e_version e @ tab # e_exec e @ tab # e_sha256 e"

lemma db_line_body: "db_line e = db_body e @ [newline]"
  by (simp add: db_line_def db_body_def)

lemma db_body_fields:
  assumes "entry_wf e"
  shows "newline \<notin> set (db_body e)" "nul \<notin> set (db_body e)" "cr \<notin> set (db_body e)"
    "length (db_body e) < 510" "db_body e \<noteq> []"
  using assms by (auto simp: entry_wf_def field_ok_def db_body_def)

lemma parse_db_body: "entry_wf e \<Longrightarrow> parse_line (db_body e) = Some e"
  by (auto simp: parse_line_def db_body_def split_on_append split_on_single entry_wf_def field_ok_def)

lemma split_on_fields:
  assumes "split_on t s = [a, b, c, d]"
  shows "set a \<union> set b \<union> set c \<union> set d \<subseteq> set s - {t}"
proof -
  have "\<forall>p \<in> set (split_on t s). set p \<subseteq> set s - {t}"
    using split_on_part[of _ t s] set_split_on_part[of _ t s] by blast
  then show ?thesis by (simp add: assms)
qed

lemma parse_line_wf:
  assumes "parse_line s = Some e" "set s \<inter> {nul, newline, cr} = {}"
  shows "entry_wf e"
proof -
  obtain a b c d where s: "split_on tab s = [a, b, c, d]"
    and l: "length a < 64" "length b < 32" "length c < 64" "length d < 65"
    and e: "e = \<lparr>e_id = a, e_version = b, e_exec = c, e_sha256 = d\<rparr>"
    using assms(1) by (auto simp: parse_line_def not_le split: if_splits list.splits)
  show ?thesis using split_on_fields[OF s] assms(2) l by (auto simp: e entry_wf_def field_ok_def)
qed

lemma db_scan_wf: "e \<in> set (db_scan m b) \<Longrightarrow> entry_wf e"
proof (induction m b rule: db_scan.induct)
  case (1 m b)
  let ?line = "cstr (fst (fgets 512 b))" and ?rest = "snd (fgets 512 b)"
  let ?f = "takeWhile (\<lambda>c. c \<noteq> cr) (line_of ?line)"
  have f: "set ?f \<inter> {nul, newline, cr} = {}"
  proof -
    have "set ?f \<subseteq> set (line_of ?line)" "cr \<notin> set ?f" by (auto dest: set_takeWhileD)
    moreover have "set (line_of ?line) \<subseteq> set ?line" by (rule set_line_of)
    moreover have "newline \<notin> set (line_of ?line)" "nul \<notin> set ?line" by simp_all
    ultimately show ?thesis by blast
  qed
  have e: "e \<in> set (if m = 0 \<or> b = [] then [] else if newline \<notin> set ?line then db_scan m (after_line ?rest)
      else (case parse_line ?f of None \<Rightarrow> db_scan m ?rest | Some e \<Rightarrow> e # db_scan (m - 1) ?rest))"
    using 1(4) db_scan.simps[of m b] by (simp only: Let_def)
  then have ne: "\<not> (m = 0 \<or> b = [])"
    by (cases "m = 0 \<or> b = []") (simp_all only: if_True list.set empty_iff, simp)
  show ?case
  proof (cases "newline \<in> set ?line")
    case False
    then show ?thesis using 1(1)[OF ne refl refl] e ne by simp
  next
    case True
    show ?thesis
    proof (cases "parse_line ?f")
      case None
      then show ?thesis using 1(2)[OF ne refl refl] True e ne by simp
    next
      case (Some x)
      then show ?thesis using 1(3)[OF ne refl refl _ Some] True e ne parse_line_wf[OF Some f] by auto
    qed
  qed
qed

lemma length_db_scan: "length (db_scan m b) \<le> m"
proof (induction m b rule: db_scan.induct)
  case (1 m b)
  show ?case
  proof (cases "m = 0 \<or> b = []")
    case ne: False
    then have "0 < m" by simp
    then show ?thesis
      using 1(1,2)[OF ne refl refl] 1(3)[OF ne refl refl]
      by (subst db_scan.simps) (auto simp: Let_def split: option.split)
  qed (simp add: db_scan.simps)
qed

lemma db_scan_line:
  assumes "entry_wf e"
  shows "db_scan (Suc m) (db_line e @ r) = e # db_scan m r"
proof -
  note f = db_body_fields[OF assms]
  have g: "fgets 512 (db_line e @ r) = (db_line e, r)"
    using fgets_line[of "db_body e" 512 r] f by (simp add: db_line_body)
  have c: "cstr (db_line e) = db_line e" using f(2) by (simp add: cstr_id db_line_body)
  have l: "line_of (db_line e) = db_body e" using line_of_append[of "db_body e" "[]"] f(1) by (simp add: db_line_body)
  have n: "newline \<in> set (db_line e)" "db_line e \<noteq> []" by (simp_all add: db_line_body)
  show ?thesis
    using n by (subst db_scan.simps) (simp add: g c l takeWhile_neq_all[OF f(3)] parse_db_body[OF assms])
qed

lemma db_scan_bytes:
  assumes "list_all entry_wf es" "length es \<le> m"
  shows "db_scan m (db_bytes es) = es"
  using assms
proof (induction es arbitrary: m)
  case Nil
  then show ?case by (simp add: db_bytes_def db_scan.simps)
next
  case (Cons e es)
  then obtain k where "m = Suc k" by (cases m) auto
  then show ?case using Cons by (simp add: db_bytes_def db_scan_line)
qed

section \<open>The contract of a keyed store\<close>

text \<open>
  What a client may rely on: \<open>put\<close> binds the key of an entry and no other, it is refused
  only for a new key, \<open>remove\<close> unbinds a key and no other, and room is never lost by
  replacing or removing.
\<close>

locale keyed_store =
  fixes ok :: "'e \<Rightarrow> bool" and key :: "'e \<Rightarrow> 'k"
    and lookup :: "'k \<Rightarrow> 's \<Rightarrow> 'e option" and put :: "'e \<Rightarrow> 's \<Rightarrow> 's option" and remove :: "'k \<Rightarrow> 's \<Rightarrow> 's"
  assumes lookup_put: "ok e \<Longrightarrow> put e s = Some s' \<Longrightarrow> lookup k s' = (if k = key e then Some e else lookup k s)"
    and lookup_remove: "lookup k (remove j s) = (if k = j then None else lookup k s)"
    and put_replaces: "lookup (key e) s \<noteq> None \<Longrightarrow> put e s \<noteq> None"
    and lookup_key: "lookup k s = Some e \<Longrightarrow> key e = k"
    and lookup_ok: "lookup k s = Some e \<Longrightarrow> ok e"
begin

primrec put_all :: "'e list \<Rightarrow> 's \<Rightarrow> 's option" where
  "put_all [] s = Some s"
| "put_all (e # es) s = (case put e s of None \<Rightarrow> None | Some s' \<Rightarrow> put_all es s')"

lemma lookup_put_all:
  assumes "\<forall>e \<in> set es. ok e" "put_all es s = Some s'"
  shows "lookup k s' = (case find (\<lambda>e. key e = k) (rev es) of Some e \<Rightarrow> Some e | None \<Rightarrow> lookup k s)"
  using assms
proof (induction es arbitrary: s)
  case (Cons e es)
  then obtain s1 where s1: "put e s = Some s1" "put_all es s1 = Some s'" by (auto split: option.splits)
  have f: "find P (xs @ [e]) = (case find P xs of Some x \<Rightarrow> Some x | None \<Rightarrow> if P e then Some e else None)" for P xs
    by (induction xs) auto
  show ?case
    using Cons(1)[OF _ s1(2)] Cons(2) lookup_put[OF _ s1(1), of k] by (auto simp: f split: option.splits)
qed simp

lemma put_again:
  assumes "ok e" "put e s = Some s'"
  shows "\<exists>s''. put e s' = Some s'' \<and> lookup k s'' = lookup k s'"
proof -
  have "lookup (key e) s' = Some e" using lookup_put[OF assms] by simp
  then obtain s'' where "put e s' = Some s''" using put_replaces[of e s'] by auto
  then show ?thesis using lookup_put[OF assms(1)] lookup_put[OF assms, of k] by auto
qed

lemma put_remove:
  assumes "ok e" "put e s = Some s'" "lookup (key e) s = None"
  shows "lookup k (remove (key e) s') = lookup k s"
  using lookup_remove[of k "key e" s'] lookup_put[OF assms(1,2), of k] assms(3) by simp

end

section \<open>The database file as a keyed store\<close>

definition db_entries :: "buf option \<Rightarrow> herald_db_entry list" where
  "db_entries c = (case c of None \<Rightarrow> [] | Some b \<Rightarrow> db_scan HERALD_DB_CAP b)"

definition db_lookup :: "string \<Rightarrow> buf option \<Rightarrow> herald_db_entry option" where
  "db_lookup i c = entries_find i (db_entries c)"

definition db_put_bytes :: "herald_db_entry \<Rightarrow> buf option \<Rightarrow> buf option option" where
  "db_put_bytes e c = map_option (\<lambda>es. Some (db_bytes es)) (entries_put e (db_entries c))"

definition db_remove_bytes :: "string \<Rightarrow> buf option \<Rightarrow> buf option" where
  "db_remove_bytes i c = Some (db_bytes (entries_remove i (db_entries c)))"

lemma db_entries_wf: "list_all entry_wf (db_entries c)" "length (db_entries c) \<le> HERALD_DB_CAP"
  using db_scan_wf by (cases c; fastforce simp: db_entries_def list_all_iff)
    (cases c; simp add: db_entries_def length_db_scan)

lemma entries_replace_None: "entries_replace e es = None \<longleftrightarrow> (\<forall>x \<in> set es. e_id x \<noteq> e_id e)"
  by (induction es) auto

lemma entries_replace_Some:
  assumes "entries_replace e es = Some es'"
  shows "length es' = length es" "set es' \<subseteq> insert e (set es)"
    "entries_find i es' = (if i = e_id e then Some e else entries_find i es)"
  using assms
proof (induction es arbitrary: es')
  case (Cons x es)
  {
    case 1
    then show ?case using Cons(1) by (auto split: if_splits)
  next
    case 2
    then show ?case using Cons(2) by (auto split: if_splits)
  next
    case 3
    then show ?case using Cons(3) by (auto simp: entries_find_def split: if_splits)
  }
qed (simp_all add: entries_find_def)

lemma entries_find_None: "entries_find i es = None \<longleftrightarrow> (\<forall>e \<in> set es. e_id e \<noteq> i)"
  by (auto simp: entries_find_def find_None_iff)

lemma entries_find_Some: "entries_find i es = Some e \<Longrightarrow> e \<in> set es \<and> e_id e = i"
  by (auto simp: entries_find_def find_Some_iff)

lemma entries_put_Some:
  assumes "entries_put e es = Some es'" "length es \<le> HERALD_DB_CAP"
  shows "length es' \<le> HERALD_DB_CAP" "set es' \<subseteq> insert e (set es)"
    "entries_find i es' = (if i = e_id e then Some e else entries_find i es)"
proof -
  have "length es' \<le> HERALD_DB_CAP \<and> set es' \<subseteq> insert e (set es) \<and>
      entries_find i es' = (if i = e_id e then Some e else entries_find i es)"
  proof (cases "entries_replace e es")
    case None
    then have n: "\<forall>x \<in> set es. e_id x \<noteq> e_id e" by (simp add: entries_replace_None)
    have l: "length es < HERALD_DB_CAP" and es': "es' = es @ [e]"
      using assms None by (auto simp: entries_put_def split: if_splits)
    have "entries_find i (es @ [e]) = (case entries_find i es of Some x \<Rightarrow> Some x | None \<Rightarrow> if e_id e = i then Some e else None)"
      by (induction es) (auto simp: entries_find_def)
    then show ?thesis using n l es' entries_find_None[of i es] entries_find_Some[of i es] by (auto split: option.splits)
  next
    case (Some x)
    then show ?thesis using assms entries_replace_Some[OF Some] by (auto simp: entries_put_def)
  qed
  then show "length es' \<le> HERALD_DB_CAP" "set es' \<subseteq> insert e (set es)"
    "entries_find i es' = (if i = e_id e then Some e else entries_find i es)" by auto
qed

lemma entries_remove_find: "entries_find k (entries_remove i es) = (if k = i then None else entries_find k es)"
  by (induction es) (auto simp: entries_find_def entries_remove_def)

lemma db_entries_bytes:
  "list_all entry_wf es \<Longrightarrow> length es \<le> HERALD_DB_CAP \<Longrightarrow> db_entries (Some (db_bytes es)) = es"
  by (simp add: db_entries_def db_scan_bytes)

lemma db_entries_remove: "db_entries (db_remove_bytes i c) = entries_remove i (db_entries c)"
  unfolding db_remove_bytes_def
  using db_entries_wf[of c] le_trans[OF length_filter_le]
  by (intro db_entries_bytes) (auto simp: entries_remove_def list_all_iff)

lemma db_entries_put:
  assumes "entry_wf e" "db_put_bytes e c = Some c'"
  shows "entries_put e (db_entries c) = Some (db_entries c')"
proof -
  obtain es where es: "entries_put e (db_entries c) = Some es" "c' = Some (db_bytes es)"
    using assms(2) by (auto simp: db_put_bytes_def)
  have "db_entries c' = es"
    unfolding es(2) using entries_put_Some(1,2)[OF es(1) db_entries_wf(2)] db_entries_wf(1)[of c] assms(1)
    by (intro db_entries_bytes) (auto simp: list_all_iff)
  then show ?thesis using es(1) by simp
qed

interpretation db: keyed_store entry_wf e_id db_lookup db_put_bytes db_remove_bytes
proof
  show "entry_wf e \<Longrightarrow> db_put_bytes e s = Some s' \<Longrightarrow> db_lookup k s' = (if k = e_id e then Some e else db_lookup k s)" for e s s' k
    using entries_put_Some(3)[OF db_entries_put db_entries_wf(2)] by (simp add: db_lookup_def)
  show "db_lookup k (db_remove_bytes j s) = (if k = j then None else db_lookup k s)" for k j s
    by (simp add: db_lookup_def db_entries_remove entries_remove_find)
  show "db_lookup (e_id e) s \<noteq> None \<Longrightarrow> db_put_bytes e s \<noteq> None" for e s
    using entries_replace_None[of e "db_entries s"]
    by (auto simp: db_lookup_def db_put_bytes_def entries_put_def entries_find_None split: option.splits)
  show "db_lookup k s = Some e \<Longrightarrow> e_id e = k" for k s e by (auto simp: db_lookup_def dest: entries_find_Some)
  show "db_lookup k s = Some e \<Longrightarrow> entry_wf e" for k s e
    using db_entries_wf(1)[of s] by (auto simp: db_lookup_def list_all_iff dest: entries_find_Some)
qed

section \<open>Reading and rewriting the file\<close>

definition db_path_ok :: "string \<Rightarrow> bool" where
  "db_path_ok path \<longleftrightarrow> file_path path \<and> length path < 256"

abbreviation db_tmp :: "string \<Rightarrow> string" where "db_tmp path \<equiv> path @ ''.tmp''"

text \<open>Nothing but directories above the file, and no directory or device in its place.\<close>

definition db_usable :: "fsys \<Rightarrow> string \<Rightarrow> bool" where
  "db_usable s path \<longleftrightarrow> clear_upto s (butlast (resolve path)) \<and> reg_or_none (map_of s (resolve path)) \<and>
     reg_or_none (map_of s (resolve (db_tmp path)))"

lemma db_path_split:
  assumes "db_path_ok path"
  obtains d n where "path = d @ slash # n" "slash \<notin> set n" "resolve path = resolve d @ [n]"
    "resolve (db_tmp path) = resolve d @ [n @ ''.tmp'']" "file_path (db_tmp path)" "file_path path"
    "nul \<notin> set d" "''..'' \<notin> set (split_on slash d)" "length path < 256"
proof -
  have fp: "file_path path" and l: "length path < 256" using assms by (auto simp: db_path_ok_def)
  obtain d n where path: "path = d @ slash # n" and n: "valid_name n" and nn: "nul \<notin> set path"
    and dd: "''..'' \<notin> set (split_on slash path)"
    using fp by (auto simp: file_path_def)
  have nt: "valid_name (n @ ''.tmp'')" using n by (auto simp: valid_name_def append_eq_Cons_conv)
  have s: "slash \<notin> set n" "slash \<notin> set (n @ ''.tmp'')" using n by (auto simp: valid_name_def)
  have "file_path (db_tmp path)"
    unfolding file_path_def
  proof (intro conjI exI)
    show "db_tmp path = d @ slash # n @ ''.tmp''" by (simp add: path)
    show "valid_name (n @ ''.tmp'')" by (rule nt)
    show "nul \<notin> set (db_tmp path)" using nn by simp
    show "''..'' \<notin> set (split_on slash (db_tmp path))"
      using dd nt s by (simp add: path split_on_append split_on_single valid_name_def)
  qed
  moreover have "resolve (db_tmp path) = resolve d @ [n @ ''.tmp'']"
    using resolve_snoc_name[OF nt, of d] by (simp add: path)
  moreover have "nul \<notin> set d" "''..'' \<notin> set (split_on slash d)" using nn dd by (auto simp: path split_on_append)
  moreover have "resolve path = resolve d @ [n]" using resolve_snoc_name[OF n] by (simp add: path)
  ultimately show ?thesis using that[of d n] path s fp l by blast
qed

lemma db_path_neq: "db_path_ok path \<Longrightarrow> resolve path \<noteq> resolve (db_tmp path)"
  by (erule db_path_split) simp

lemma ignore_mkdir: "ignore (sys_mkdir y) = ignore (mkdir_one y)"
  by (rule ext) (auto simp: ignore_def mkdir_one_def handle_def ret_def throw_def split: prod.splits sum.splits)

lemma db_mkdir_p_triple:
  assumes nn: "nul \<notin> set path" and dd: "''..'' \<notin> set (split_on slash path)" and wf: "wf_fs s0"
    and l: "length path < 256"
  shows "valid F (\<lambda>s. s = s0) (db_mkdir_p path)
     (\<lambda>_ s. made_dirs path s0 s \<and> (F = no_faults \<and> clear_upto s0 (resolve path) \<longrightarrow> dirs_upto s path)) E"
proof -
  let ?K = "F = no_faults \<and> clear_upto s0 (resolve path)" and ?A = "{q. prefix q (resolve path)}"
  let ?I = "\<lambda>ys s. grown ?A s0 s \<and> (?K \<longrightarrow> (\<forall>z \<in> set ys. dirs_upto s z))"
  have one: "valid F (?I ys) (ignore (sys_mkdir y)) (\<lambda>_. ?I (ys @ [y])) E"
    if l: "slash_prefixes path @ [path] = ys @ y # zs" for ys y zs
  proof -
    have "y \<in> set (slash_prefixes path @ [path])" by (simp only: l) simp
    then obtain r where r: "path = y \<or> path = y @ slash # r" using slash_prefixes_member by force
    then have p: "prefix (resolve y) (resolve path)" by (rule prefix_resolve[OF dd])
    have k: "?K \<Longrightarrow> clear_upto s0 (resolve y)"
      using p prefix_order.trans unfolding clear_upto_def by blast
    have "nul \<notin> set y" using r nn by auto
    note t = mkdir_one_triple[where A = ?A and F = F and K = ?K and Y = "set ys",
        OF this _ k mkdir_order[OF dd l]]
    show ?thesis unfolding ignore_mkdir
      by (rule valid_ignore, rule valid_conseq[OF t]) (use p in auto)
  qed
  have "valid F (?I []) (each (\<lambda>p. ignore (sys_mkdir p)) (slash_prefixes path)) (\<lambda>_. ?I (slash_prefixes path)) E"
  proof (rule valid_each)
    fix ys x zs assume "slash_prefixes path = ys @ x # zs"
    then show "valid F (?I ys) (ignore (sys_mkdir x)) (\<lambda>_. ?I (ys @ [x])) E" by (intro one[of _ _ "zs @ [path]"]) simp
  qed
  moreover have "valid F (?I (slash_prefixes path)) (ignore (sys_mkdir path)) (\<lambda>_. ?I (slash_prefixes path @ [path])) E"
    by (rule one) simp
  ultimately have m: "valid F (?I []) (db_mkdir_p path) (\<lambda>_. ?I (slash_prefixes path @ [path])) E"
    unfolding db_mkdir_p_def Let_def fit_id[OF l] by (rule valid_andthen)
  show ?thesis
    using grown_refl[OF wf] by (intro valid_conseq[OF m]) (auto simp: made_dirs_def)
qed

lemma db_load_triple:
  assumes p: "db_path_ok path" and wf: "wf_fs s0"
  shows "valid F (\<lambda>s. s = s0) (db_load path HERALD_DB_CAP)
     (\<lambda>es s. s = s0 \<and> es = db_entries (file_at s0 (resolve path)))
     (\<lambda>_ s. s = s0 \<and> (F = no_faults \<longrightarrow> \<not> db_usable s0 path))"
    (is "valid F _ _ ?Q ?E")
proof -
  have ls: "path \<noteq> [] \<and> last path \<noteq> slash" using p file_path_last by (simp add: db_path_ok_def)
  have ne: "resolve path \<noteq> []" using p file_path_resolve(1) by (simp add: db_path_ok_def)
  let ?R = "\<lambda>f s. s = s0 \<and> (case f of None \<Rightarrow> file_at s0 (resolve path) = None | Some c \<Rightarrow> file_at s0 (resolve path) = Some (fst c))"
  have o: "valid F (\<lambda>s. s = s0) (optional (sys_open_read path)) ?R ?E"
  proof (rule valid_optional, rule valid_syscall)
    fix s assume s: "s = s0"
    have u: "e \<noteq> ENOENT \<Longrightarrow> \<not> db_usable s0 path" if w: "walk_err s0 (resolve path) = Some e" for e
      using walk_err_clear[OF _ ne w] by (auto simp: db_usable_def)
    show "case fs_open_read path s of (Inr x, s') \<Rightarrow> ?R (Some x) s'
        | (Inl e, s') \<Rightarrow> if e = ENOENT then ?R None s' else ?E e s'"
      using s ls u walk_err_Some(1)[of s0 "resolve path"] wf
      by (auto simp: fs_open_read_def fs_find_def file_at_def db_usable_def split: option.splits node.splits)
  qed auto
  show ?thesis
    unfolding db_load_def
    by (simp, rule valid_andthen[OF o]) (auto simp: db_entries_def split: option.split intro!: valid_ret)
qed

lemma db_rename:
  assumes p: "file_path path" "resolve path = D @ [n]" "resolve (db_tmp path) = tp" "tp = D @ [n @ ''.tmp'']"
    and h: "holds_at tp s0 m c s"
  shows "fs_rename (db_tmp path) path s = (Inr (), AList.update (D @ [n]) (Reg c m) (AList.delete tp s)) \<and>
       map_of s0 (D @ [n]) \<noteq> Some Dir \<or>
     fs_rename (db_tmp path) path s = (Inl EISDIR, s) \<and> map_of s0 (D @ [n]) = Some Dir"
proof -
  have t: "touched tp s0 s" and c: "map_of s tp = Some (Reg c m)" using h by (auto simp: holds_at_def)
  have np: "\<not> strict_prefix (D @ [n]) tp" "D @ [n] \<noteq> tp" by (auto simp: p(4) strict_prefix_snoc)
  have f: "fs_find (db_tmp path) s = Inr (Reg c m)"
    using touched_wf[OF t] c p(3) by (intro fs_find_present) auto
  have "walk_err s tp = None" by (rule walk_err_present[OF touched_wf[OF t] c])
  then have w: "walk_err s (D @ [n]) = None" by (simp add: walk_err_None p(4) strict_prefix_snoc)
  have "map_of s (D @ [n]) = map_of s0 (D @ [n])" using touched_other[OF t np(2)] np(1) by blast
  then show ?thesis using f w np(2) p(2,3) file_path_last[OF p(1)] by (auto simp: fs_rename_def)
qed

lemma db_write_all_triple:
  assumes p: "db_path_ok path" and wf: "wf_fs s0"
  defines "q \<equiv> resolve path" and "tp \<equiv> resolve (db_tmp path)"
  shows "valid F (\<lambda>s. s = s0) (db_write_all path es)
     (\<lambda>_ s. wf_fs s \<and> map_of s tp = None \<and> file_at s q = Some (db_bytes es) \<and>
        (\<forall>x. x \<noteq> q \<longrightarrow> x \<noteq> tp \<longrightarrow> file_at s x = file_at s0 x))
     (\<lambda>_ s. wf_fs s \<and> (\<forall>x. x \<noteq> tp \<longrightarrow> file_at s x = file_at s0 x) \<and> (F = no_faults \<longrightarrow> \<not> db_usable s0 path))"
    (is "valid F _ _ ?Q ?E")
proof -
  obtain d n where d: "path = d @ slash # n" "slash \<notin> set n" "q = resolve d @ [n]" "tp = resolve d @ [n @ ''.tmp'']"
      "file_path (db_tmp path)" "file_path path" "nul \<notin> set d" "''..'' \<notin> set (split_on slash d)" "length path < 256"
    using db_path_split[OF p] unfolding q_def tp_def by metis
  have tq: "resolve (db_tmp path) = tp" by (simp add: tp_def)
  have ne: "tp \<noteq> []" "q \<noteq> tp" by (simp_all add: d)
  have E: "?E e s" if "touched tp s0 s \<and> (F = no_faults \<longrightarrow> \<not> db_usable s0 path)" for e s
    using that touched_file_at touched_wf by blast
  let ?T = "\<lambda>_ s. touched tp s0 s \<and> (F = no_faults \<longrightarrow> \<not> db_usable s0 path)"
  let ?K = "F = no_faults \<and> clear_upto s0 (resolve d)"
  have mk: "valid F (\<lambda>s. s = s0) (db_mkdir_p d)
      (\<lambda>_ s. touched tp s0 s \<and> map_of s tp = map_of s0 tp \<and> (?K \<longrightarrow> walk_err s tp = None)) ?E"
  proof (rule valid_conseq[OF db_mkdir_p_triple[OF d(7,8) wf]])
    show "length d < 256" using d(1,9) by simp
    fix s assume h: "made_dirs d s0 s \<and> (F = no_faults \<and> clear_upto s0 (resolve d) \<longrightarrow> dirs_upto s d)"
    then have g: "grown {q. strict_prefix q tp} s0 s" by (simp add: made_dirs_def d(4) strict_prefix_snoc)
    then have "map_of s tp = map_of s0 tp" by (auto simp: grown_def)
    then show "touched tp s0 s \<and> map_of s tp = map_of s0 tp \<and> (?K \<longrightarrow> walk_err s tp = None)"
      using touched_grown[OF g] h by (auto simp: dirs_upto_def walk_err_None d(4) strict_prefix_snoc)
  qed auto
  have us: "db_usable s0 path \<Longrightarrow> clear_upto s0 (resolve d) \<and> reg_or_none (map_of s0 tp) \<and> map_of s0 q \<noteq> Some Dir"
    by (auto simp: db_usable_def d(3) q_def[symmetric] tp_def[symmetric])
  have op: "valid F (\<lambda>s. touched tp s0 s \<and> map_of s tp = map_of s0 tp \<and> (?K \<longrightarrow> walk_err s tp = None))
      (sys_open_trunc (db_tmp path) 438) (\<lambda>fd s. fd = tp \<and> (\<exists>m. holds_at tp s0 m [] s)) ?E"
    by (rule valid_conseq[OF open_trunc_triple[OF d(5) refl, folded tp_def, of F s0 ?K 438]]) (use us E in blast)+
  have wr: "valid F (holds_at tp s0 m []) (each (\<lambda>e. write_all tp (db_line e)) es) (\<lambda>_. holds_at tp s0 m (db_bytes es)) ?T" for m
  proof -
    have "valid F (holds_at tp s0 m (db_bytes [])) (each (\<lambda>e. write_all tp (db_line e)) es) (\<lambda>_. holds_at tp s0 m (db_bytes es)) ?T"
    proof (rule valid_each)
      show "valid F (holds_at tp s0 m (db_bytes ys)) (write_all tp (db_line x)) (\<lambda>_. holds_at tp s0 m (db_bytes (ys @ [x]))) ?T" for ys x
        by (rule valid_conseq[OF valid_write_all[of "\<lambda>c. holds_at tp s0 m c", OF holds_at_append[OF ne(1)]]])
          (auto simp: db_bytes_def holds_at_def)
    qed
    then show ?thesis by (simp add: db_bytes_def)
  qed
  have ren: "valid F (holds_at tp s0 m (db_bytes es)) (sys_rename (db_tmp path) path) ?Q ?T" for m
  proof (rule valid_syscall)
    fix s assume h: "holds_at tp s0 m (db_bytes es) s"
    then have t: "touched tp s0 s" and c: "map_of s tp = Some (Reg (db_bytes es) m)" by (simp_all add: holds_at_def)
    have v: "list_all valid_name q" using file_path_resolve(2)[OF d(6)] by (simp add: q_def)
    have "wf_fs (AList.delete tp s)" using wf_fs_delete[OF touched_wf[OF t] ne(1)] c by simp
    moreover have "map_of s (resolve d) = Some Dir"
      using wf_fsD(3)[OF touched_wf[OF t] c ne(1)] by (simp add: d(4))
    ultimately have w: "wf_fs (AList.update q (Reg (db_bytes es) m) (AList.delete tp s))" if "map_of s q \<noteq> Some Dir"
      using v ne that by (intro wf_fs_update) (auto simp: d(3,4))
    have "map_of s q = map_of s0 q" using touched_other[OF t ne(2)] by (auto simp: d(3,4) strict_prefix_snoc)
    then show "case fs_rename (db_tmp path) path s of (Inr x, s') \<Rightarrow> ?Q x s' | (Inl e, s') \<Rightarrow> ?T e s'"
      using db_rename[OF d(6) d(3)[unfolded q_def] tq d(4) h] us t w ne(2) touched_file_at[OF t]
      by (auto simp: d(3)[symmetric] file_at_def)
    show "F = no_faults \<or> ?T EIO s" using t by simp
  qed
  have body: "valid F (holds_at tp s0 m [])
      (andthen (each (\<lambda>e. write_all tp (db_line e)) es) (\<lambda>u. andthen sys_quiet (\<lambda>u. andthen sys_quiet (\<lambda>u.
        sys_rename (db_tmp path) path)))) ?Q ?T" for m
    by (rule valid_andthen[OF wr], rule valid_quiet_then, rule valid_quiet_then, rule ren)
      (auto simp: holds_at_def)
  have cl: "valid F (?T e) (sys_unlink (db_tmp path)) (\<lambda>_. ?E e) (\<lambda>_. ?E e)" for e
    by (rule valid_conseq[OF valid_pure[OF unlink_touched[OF ne(1) tq]]]) (use E in auto)
  have ls: "last_slash (fit 512 path) = Some (length d)" "take (length d) (fit 512 path) = d" "length (db_tmp path) < 516"
    using d(1,2,9) by (simp_all add: fit_id last_slash_append)
  show ?thesis
    unfolding db_write_all_def Let_def ls option.case
    using ls(3) apply simp
    apply (rule valid_andthen[OF mk], rule valid_andthen[OF op])
    apply (rule valid_pull, rule valid_ex)
    subgoal for u fd m using valid_on_fail[OF body cl, of m] by simp
    done
qed

section \<open>Properties\<close>

lemma db_put_triple:
  assumes p: "db_path_ok path" and wf: "wf_fs s0"
  defines "q \<equiv> resolve path" and "tp \<equiv> resolve (db_tmp path)"
  shows "valid F (\<lambda>s. s = s0) (db_put path e)
     (\<lambda>_ s. wf_fs s \<and> map_of s tp = None \<and> db_put_bytes e (file_at s0 q) = Some (file_at s q) \<and> file_at s q \<noteq> None \<and>
        (\<forall>x. x \<noteq> q \<longrightarrow> x \<noteq> tp \<longrightarrow> file_at s x = file_at s0 x))
     (\<lambda>_ s. wf_fs s \<and> (\<forall>x. x \<noteq> tp \<longrightarrow> file_at s x = file_at s0 x) \<and>
        (F = no_faults \<longrightarrow> \<not> (db_usable s0 path \<and> e_id e \<noteq> [] \<and> db_put_bytes e (file_at s0 q) \<noteq> None)))"
    (is "valid F _ _ ?Q ?E")
  unfolding db_put_def
proof (rule valid_andthen)
  show "valid F (\<lambda>s. s = s0) (require (e_id e \<noteq> [])) (\<lambda>_ s. s = s0) ?E"
    using wf by (intro valid_require) auto
  show "valid F (\<lambda>s. s = s0) (andthen (db_load path HERALD_DB_CAP) (\<lambda>es.
     case entries_put e es of None \<Rightarrow> throw EINVAL | Some es' \<Rightarrow> db_write_all path es')) ?Q ?E" for u :: unit
  proof (rule valid_andthen)
    show "valid F (\<lambda>s. s = s0) (db_load path HERALD_DB_CAP)
        (\<lambda>es s. es = db_entries (file_at s0 q) \<and> s = s0) ?E"
      by (rule valid_conseq[OF db_load_triple[OF p wf]]) (use wf in \<open>auto simp: q_def\<close>)
    show "valid F (\<lambda>s. es = db_entries (file_at s0 q) \<and> s = s0)
        (case entries_put e es of None \<Rightarrow> throw EINVAL | Some es' \<Rightarrow> db_write_all path es') ?Q ?E" for es
    proof (rule valid_pull)
      assume es: "es = db_entries (file_at s0 q)"
      show "valid F (\<lambda>s. s = s0) (case entries_put e es of None \<Rightarrow> throw EINVAL | Some es' \<Rightarrow> db_write_all path es') ?Q ?E"
      proof (cases "entries_put e es")
        case None
        then show ?thesis using wf es by (auto simp: db_put_bytes_def intro!: valid_throw)
      next
        case (Some es')
        then have "db_put_bytes e (file_at s0 q) = Some (Some (db_bytes es'))" by (simp add: db_put_bytes_def es)
        then show ?thesis
          unfolding Some option.case
          by (intro valid_conseq[OF db_write_all_triple[OF p wf, of F es'], folded q_def tp_def]) auto
      qed
    qed
  qed
qed

lemma db_usable_after:
  assumes "wf_fs s" "db_path_ok path" "file_at s (resolve path) \<noteq> None" "map_of s (resolve (db_tmp path)) = None"
  shows "db_usable s path"
proof -
  have ne: "resolve path \<noteq> []" using assms(2) file_path_resolve(1) by (simp add: db_path_ok_def)
  obtain c m where c: "map_of s (resolve path) = Some (Reg c m)" using assms(3) by (auto simp: file_at_Some)
  then have "map_of s q = Some Dir" if "prefix q (butlast (resolve path))" for q
    using wf_fs_ancestor[OF assms(1) c] that by (simp add: strict_prefix_butlast[OF ne])
  then show ?thesis using c assms(4) by (simp add: db_usable_def clear_upto_def)
qed

lemma db_find_calm:
  assumes "wf_fs (fs w)" "db_path_ok path" "db_usable (fs w) path"
  shows "fst (db_find path i (calmed w)) = Inr (db_lookup i (file_at (fs w) (resolve path)))"
proof -
  have v: "valid no_faults (\<lambda>s. s = fs w) (db_find path i)
      (\<lambda>r s. r = db_lookup i (file_at (fs w) (resolve path))) (\<lambda>_ s. False)"
    unfolding db_find_def
    by (rule valid_andthen[where R = "\<lambda>es s. es = db_entries (file_at (fs w) (resolve path))"],
        rule valid_conseq[OF db_load_triple[OF assms(2,1)]])
      (use assms(3) in \<open>auto simp: db_lookup_def intro!: valid_ret\<close>)
  obtain r w2 where run: "db_find path i (calmed w) = (r, w2)" by fastforce
  show ?thesis using valid_run[OF v _ _ run] run by (auto split: sum.splits)
qed


lemma db_remove_triple:
  assumes p: "db_path_ok path" and wf: "wf_fs s0"
  defines "q \<equiv> resolve path" and "tp \<equiv> resolve (db_tmp path)"
  shows "valid F (\<lambda>s. s = s0) (db_remove path i)
     (\<lambda>b s. b = (db_lookup i (file_at s0 q) \<noteq> None) \<and>
        (if b then wf_fs s \<and> map_of s tp = None \<and> file_at s q = db_remove_bytes i (file_at s0 q) \<and>
           (\<forall>x. x \<noteq> q \<longrightarrow> x \<noteq> tp \<longrightarrow> file_at s x = file_at s0 x)
         else s = s0))
     (\<lambda>_ s. \<forall>x. x \<noteq> tp \<longrightarrow> file_at s x = file_at s0 x)"
    (is "valid F _ _ ?Q ?E")
  unfolding db_remove_def
proof (rule valid_andthen)
  let ?rest = "\<lambda>es. if list_ex (\<lambda>e. e_id e = i) es
     then andthen (db_write_all path (entries_remove i es)) (\<lambda>u. ret True) else ret False"
  show "valid F (\<lambda>s. s = s0) (require (i \<noteq> [])) (\<lambda>_ s. s = s0) ?E"
    by (intro valid_require) auto
  show "valid F (\<lambda>s. s = s0) (andthen (db_load path HERALD_DB_CAP) ?rest) ?Q ?E" for u :: unit
  proof (rule valid_andthen)
    show "valid F (\<lambda>s. s = s0) (db_load path HERALD_DB_CAP) (\<lambda>es s. es = db_entries (file_at s0 q) \<and> s = s0) ?E"
      by (rule valid_conseq[OF db_load_triple[OF p wf]]) (auto simp: q_def)
    show "valid F (\<lambda>s. es = db_entries (file_at s0 q) \<and> s = s0) (?rest es) ?Q ?E" for es
    proof (rule valid_pull)
      assume es: "es = db_entries (file_at s0 q)"
      have f: "list_ex (\<lambda>e. e_id e = i) es \<longleftrightarrow> db_lookup i (file_at s0 q) \<noteq> None"
        unfolding db_lookup_def es[symmetric] entries_find_None by (auto simp: list_ex_iff)
      have b: "db_remove_bytes i (file_at s0 q) = Some (db_bytes (entries_remove i es))"
        by (simp add: db_remove_bytes_def es)
      show "valid F (\<lambda>s. s = s0) (?rest es) ?Q ?E"
      proof (cases "list_ex (\<lambda>e. e_id e = i) es")
        case True
        note wr = db_write_all_triple[OF p wf, of F "entries_remove i es", folded q_def tp_def]
        have "valid F (\<lambda>s. s = s0) (andthen (db_write_all path (entries_remove i es)) (\<lambda>u. ret True)) ?Q ?E"
          by (rule valid_andthen, rule valid_conseq[OF wr, where Q' = "\<lambda>_. ?Q True"]) (use True f b in \<open>auto intro!: valid_ret\<close>)
        then show ?thesis using True by simp
      next
        case False
        then show ?thesis using f by (auto intro!: valid_ret)
      qed
    qed
  qed
qed


text \<open>
  C12: \<open>db_put\<close> succeeds.  When no call fails, the path is usable and the id is bound or the table
  has room, the entry is recorded.
\<close>

theorem db_put_succeeds:
  assumes "wf_fs (fs w)" "db_path_ok path" "within no_faults w" "db_usable (fs w) path" "e_id e \<noteq> []"
    and "db_lookup (e_id e) (file_at (fs w) (resolve path)) \<noteq> None \<or>
      length (db_entries (file_at (fs w) (resolve path))) < HERALD_DB_CAP"
  shows "\<exists>w1. db_put path e w = (Inr (), w1)"
proof -
  obtain r w1 where run: "db_put path e w = (r, w1)" by fastforce
  have "db_put_bytes e (file_at (fs w) (resolve path)) \<noteq> None"
    using assms(6)
  proof
    assume "length (db_entries (file_at (fs w) (resolve path))) < HERALD_DB_CAP"
    then show ?thesis by (auto simp: db_put_bytes_def entries_put_def split: option.splits)
  qed (rule db.put_replaces)
  then show ?thesis
    using valid_run[OF db_put_triple[OF assms(2,1)] refl assms(3) run] assms(4,5) run by (auto split: sum.splits)
qed

section \<open>A concrete database\<close>

definition bash_entry :: herald_db_entry where
  "bash_entry = \<lparr>e_id = ''bash'', e_version = ''5.2'', e_exec = ''bash'', e_sha256 = ''ab''\<rparr>"

definition curl_entry :: herald_db_entry where
  "curl_entry = \<lparr>e_id = ''curl'', e_version = ''8'', e_exec = ''curl'', e_sha256 = ''cd''\<rparr>"

definition small_db :: fsys where
  "small_db = [([], Dir), ([''db''], Reg (db_line bash_entry) 420)]"

definition small_world :: "(nat \<Rightarrow> fault) \<Rightarrow> world" where
  "small_world f = \<lparr>fs = small_db, sched = f\<rparr>"

lemma small_world_simps: "fs (small_world f) = small_db" "within no_faults (small_world (\<lambda>n. NoFault))"
    "e_id curl_entry = ''curl''"
  by (simp_all add: small_world_def within_def curl_entry_def)

lemma small_facts:
  "wf_fs small_db" "db_path_ok ''/db''" "entry_wf curl_entry" "entry_wf bash_entry" "resolve ''/db'' = [''db'']"
  "file_at small_db [''db''] = Some (db_line bash_entry)" "db_usable small_db ''/db''"
proof -
  show "wf_fs small_db" by code_simp
  have "''/db'' = [] @ slash # ''db'' \<and> valid_name ''db''" by (simp add: valid_name_def)
  then have "\<exists>d n. ''/db'' = d @ slash # n \<and> valid_name n" by blast
  then show "db_path_ok ''/db''" by (simp add: db_path_ok_def file_path_def)
  show r: "resolve ''/db'' = [''db'']" by code_simp
  have r': "resolve ''/db.tmp'' = [''db.tmp'']" by code_simp
  show "entry_wf curl_entry" "entry_wf bash_entry"
    by (simp_all add: entry_wf_def field_ok_def curl_entry_def bash_entry_def)
  show "file_at small_db [''db''] = Some (db_line bash_entry)" by (simp add: file_at_def small_db_def)
  show "db_usable small_db ''/db''" using r r' by (simp add: db_usable_def small_db_def clear_upto_def)
qed

lemma small_lookup:
  "db_lookup ''bash'' (Some (db_line bash_entry)) = Some bash_entry" "db_entries (Some (db_line bash_entry)) = [bash_entry]"
proof -
  show "db_entries (Some (db_line bash_entry)) = [bash_entry]"
    using db_entries_bytes[of "[bash_entry]"] small_facts(4) by (simp add: db_bytes_def)
  then show "db_lookup ''bash'' (Some (db_line bash_entry)) = Some bash_entry"
    by (simp add: db_lookup_def entries_find_def bash_entry_def)
qed



theorem db_put_succeeds_witness:
  "\<exists>w1. db_put ''/db'' curl_entry (small_world (\<lambda>n. NoFault)) = (Inr (), w1)"
  using db_put_succeeds[of "small_world (\<lambda>n. NoFault)" "''/db''" curl_entry] small_facts small_lookup(2) by (simp add: small_world_simps)

end
