(* ===== verification/Herald_Repo.thy ===== *)
theory Herald_Repo
  imports Herald_Version Herald_Db
begin

text \<open>
  The repository client, \<open>user/bin/herald/repo.c\<close>, with \<open>verify.c\<close> and \<open>net.c\<close>: sources, the
  Release and Packages parsers, the verified load of a cached list, and the choice of a candidate.

  The cryptographic library, the trusted key and \<open>curl\<close> are not part of the sources.  They are
  parameters: \<open>crypto\<close> holds the hash and the signature check BearSSL computes and the embedded key,
  \<open>curl url path\<close> is the effect of running \<open>/bin/curl\<close>.
\<close>

section \<open>Definitions\<close>

definition HERALD_ARCH :: string where "HERALD_ARCH = ''x86_64''"
definition HERALD_SOURCES :: string where "HERALD_SOURCES = ''/etc/herald/sources.list''"
definition HERALD_LISTS_DIR :: string where "HERALD_LISTS_DIR = ''/var/lib/herald/lists''"

record herald_source =
  s_url :: string
  s_suite :: string
  s_component :: string

record herald_stanza =
  st_name :: string
  st_version :: string
  st_arch :: string
  st_filename :: string
  st_sha256 :: string
  st_depends :: string
  st_display_name :: string
  st_exec :: string
  st_caps :: string
  st_base_url :: string

record crypto =
  sha256 :: "buf \<Rightarrow> buf"
  ecdsa_ok :: "buf \<Rightarrow> buf \<Rightarrow> buf \<Rightarrow> bool"
  trusted_key :: buf

subsection \<open>\<open>verify.c\<close>\<close>

definition herald_verify_p256_sha256 :: "crypto \<Rightarrow> buf \<Rightarrow> buf \<Rightarrow> buf \<Rightarrow> bool" where
  "herald_verify_p256_sha256 cy pubkey msg sig =
     (if length pubkey \<noteq> 65 \<or> hd pubkey \<noteq> CHR 0x04 then False
      else if sig = [] then False
      else ecdsa_ok cy pubkey (sha256 cy msg) sig)"

subsection \<open>\<open>net.c\<close>\<close>

definition herald_fetch :: "(string \<Rightarrow> string \<Rightarrow> unit io) \<Rightarrow> string \<Rightarrow> string \<Rightarrow> unit io" where
  "herald_fetch curl url outpath =
     andthen (curl url outpath) (\<lambda>u.
     andthen (sys_lstat outpath) (\<lambda>n.
     require (case n of Reg c m \<Rightarrow> c \<noteq> [] | _ \<Rightarrow> False)))"

subsection \<open>Helpers\<close>

text \<open>\<open>open\<close>, \<open>fstat\<close> and the read loop.\<close>

definition read_file :: "string \<Rightarrow> buf io" where
  "read_file path =
     andthen (sys_open_read path) (\<lambda>f.
     andthen sys_quiet (\<lambda>u.
     andthen sys_quiet (\<lambda>u. ret (fst f))))"

definition hex_digit :: "nat \<Rightarrow> char" where
  "hex_digit n = ''0123456789abcdef'' ! (n mod 16)"

definition hex32 :: "buf \<Rightarrow> string" where
  "hex32 d = concat (map (\<lambda>c. [hex_digit (byte_of c div 16), hex_digit (byte_of c)]) (take 32 d))"

text \<open>The next line, cut to the buffer and at a NUL, a carriage return dropped; and what follows.\<close>

definition next_line :: "nat \<Rightarrow> buf \<Rightarrow> string \<times> buf" where
  "next_line n b =
     (let raw = take (n - 1) (line_of b) in
      (cstr (if raw \<noteq> [] \<and> last raw = cr then butlast raw else raw), after_line b))"

definition key_char :: "char \<Rightarrow> char" where
  "key_char c =
     (let n = byte_of c in
      if 65 \<le> n \<and> n \<le> 90 \<or> 97 \<le> n \<and> n \<le> 122 \<or> 48 \<le> n \<and> n \<le> 57 then c else CHR ''_'')"

definition srckey :: "herald_source \<Rightarrow> nat \<Rightarrow> string" where
  "srckey s outsz =
     (let raw = fit 400 (s_url s @ ''_'' @ s_suite s @ ''_'' @ s_component s) in
      map key_char (take (outsz - 1) raw))"

text \<open>\<open>sscanf\<close>: white space, a word of at most \<open>n\<close> bytes, a decimal integer.\<close>

definition scan_word :: "nat \<Rightarrow> string \<Rightarrow> (string \<times> string) option" where
  "scan_word n s =
     (let t = dropWhile is_space s; w = take n (takeWhile (\<lambda>c. \<not> is_space c) t) in
      if w = [] then None else Some (w, drop (length w) t))"

definition scan_long :: "string \<Rightarrow> string option" where
  "scan_long s =
     (let t = dropWhile is_space s;
          u = (if t \<noteq> [] \<and> (hd t = CHR ''-'' \<or> hd t = CHR ''+'') then tl t else t) in
      if takeWhile is_digit u = [] then None else Some (dropWhile is_digit u))"

subsection \<open>Sources\<close>

definition source_of_line :: "string \<Rightarrow> herald_source option" where
  "source_of_line line =
     (let p = dropWhile (\<lambda>c. c = space \<or> c = tab) line in
      if p = [] \<or> hd p = CHR ''#'' then None
      else (case scan_word 255 p of None \<Rightarrow> None
      | Some (url, r1) \<Rightarrow> (case scan_word 63 r1 of None \<Rightarrow> None
      | Some (suite, r2) \<Rightarrow> (case scan_word 63 r2 of None \<Rightarrow> None
      | Some (cmp, r3) \<Rightarrow>
          Some \<lparr>s_url = rtrim_of (\<lambda>c. c = slash) url, s_suite = suite, s_component = cmp\<rparr>))))"

function sources_scan :: "nat \<Rightarrow> buf \<Rightarrow> herald_source list" where
  "sources_scan k b =
     (if k = 0 \<or> b = [] then []
      else (case source_of_line (fst (next_line 400 b)) of
          None \<Rightarrow> sources_scan k (after_line b)
        | Some s \<Rightarrow> s # sources_scan (k - 1) (after_line b)))"
  by pat_completeness auto
termination
  by (relation "measure (\<lambda>(k, b). length b)") (auto simp: length_after_line)

declare sources_scan.simps [simp del]

definition sources_load :: "nat \<Rightarrow> herald_source list io" where
  "sources_load k = andthen (read_file HERALD_SOURCES) (\<lambda>b. ret (sources_scan k b))"

subsection \<open>Release and Packages\<close>

definition release_entry :: "string \<Rightarrow> string \<Rightarrow> string option" where
  "release_entry wantpath line =
     (case scan_word 79 (dropWhile (\<lambda>c. c = space) line) of None \<Rightarrow> None
      | Some (hash, r1) \<Rightarrow> (case scan_long r1 of None \<Rightarrow> None
      | Some r2 \<Rightarrow> (case scan_word 255 r2 of None \<Rightarrow> None
      | Some (path, r3) \<Rightarrow> if path = wantpath then Some (take 64 hash) else None)))"

function release_scan :: "string \<Rightarrow> bool \<Rightarrow> buf \<Rightarrow> string option" where
  "release_scan wantpath in_sha b =
     (if b = [] then None
      else (let line = fst (next_line 400 b) in
        if starts_with line ''SHA256:'' then release_scan wantpath True (after_line b)
        else if \<not> in_sha then release_scan wantpath False (after_line b)
        else if line = [] \<or> hd line \<noteq> space then release_scan wantpath False (after_line b)
        else (case release_entry wantpath line of
            Some h \<Rightarrow> Some h
          | None \<Rightarrow> release_scan wantpath True (after_line b))))"
  by pat_completeness auto
termination
  by (relation "measure (\<lambda>(p, s, b). length b)") (auto simp: length_after_line)

declare release_scan.simps [simp del]

definition release_find_hash :: "buf \<Rightarrow> string \<Rightarrow> string option" where
  "release_find_hash b wantpath = release_scan wantpath False b"

definition stanza_zero :: herald_stanza where
  "stanza_zero = \<lparr>st_name = [], st_version = [], st_arch = [], st_filename = [], st_sha256 = [], st_depends = [],
     st_display_name = [], st_exec = [], st_caps = [], st_base_url = []\<rparr>"

definition stanza_field :: "string \<Rightarrow> string \<Rightarrow> herald_stanza \<Rightarrow> herald_stanza" where
  "stanza_field key val s =
     (if key = ''Package'' then s\<lparr>st_name := fit 64 val\<rparr>
      else if key = ''Version'' then s\<lparr>st_version := fit 48 val\<rparr>
      else if key = ''Architecture'' then s\<lparr>st_arch := fit 16 val\<rparr>
      else if key = ''Filename'' then s\<lparr>st_filename := fit 192 val\<rparr>
      else if key = ''SHA256'' then s\<lparr>st_sha256 := fit 65 val\<rparr>
      else if key = ''Depends'' then s\<lparr>st_depends := fit 256 val\<rparr>
      else if key = ''Display-Name'' then s\<lparr>st_display_name := fit 64 val\<rparr>
      else if key = ''Exec'' then s\<lparr>st_exec := fit 64 val\<rparr>
      else if key = ''Caps'' then s\<lparr>st_caps := fit 256 val\<rparr>
      else s)"

definition stanza_line :: "string \<Rightarrow> herald_stanza \<Rightarrow> herald_stanza" where
  "stanza_line line s =
     (case split_first (CHR '':'') line of
        None \<Rightarrow> s
      | Some (key, val) \<Rightarrow> stanza_field key (dropWhile (\<lambda>c. c = space) val) s)"

text \<open>The line loop of \<open>parse_stanza\<close>: whether a line was seen, the fields, and what follows.\<close>

function stanza_loop :: "buf \<Rightarrow> bool \<Rightarrow> herald_stanza \<Rightarrow> bool \<times> herald_stanza \<times> buf" where
  "stanza_loop b got s =
     (if b = [] then (got, s, [])
      else (let line = fst (next_line 400 b); rest = after_line b in
        if line = [] then (if got then (got, s, rest) else stanza_loop rest got s)
        else stanza_loop rest True (stanza_line line s)))"
  by pat_completeness auto
termination
  by (relation "measure (\<lambda>(b, g, s). length b)") (auto simp: length_after_line)

declare stanza_loop.simps [simp del]

definition parse_stanza :: "buf \<Rightarrow> herald_stanza option \<times> buf" where
  "parse_stanza b =
     (case stanza_loop b False stanza_zero of (got, s, rest) \<Rightarrow>
        (if got \<and> st_name s \<noteq> [] then Some s else None, rest))"

lemma stanza_loop_shorter: "length (snd (snd (stanza_loop b g s))) \<le> length b"
proof (induction b g s rule: stanza_loop.induct)
  case (1 b g s)
  show ?case
  proof (cases "b = []")
    case False
    then have "length (after_line b) < length b" by (rule length_after_line)
    then show ?thesis using 1[OF False refl refl] False by (subst stanza_loop.simps) (auto simp: Let_def)
  qed (simp add: stanza_loop.simps)
qed

lemma parse_stanza_shorter: "parse_stanza b = (Some s, rest) \<Longrightarrow> length rest < length b"
proof -
  assume p: "parse_stanza b = (Some s, rest)"
  then have ne: "b \<noteq> []" by (auto simp: parse_stanza_def stanza_loop.simps)
  have "length rest \<le> length (after_line b)"
    using p ne stanza_loop_shorter[of "after_line b"]
    by (auto simp: parse_stanza_def Let_def stanza_loop.simps[of b] split: if_splits prod.splits) (metis snd_conv)+
  then show ?thesis using length_after_line[OF ne] by simp
qed

text \<open>\<open>while (parse_stanza (...))\<close>\<close>

function stanzas :: "buf \<Rightarrow> herald_stanza list" where
  "stanzas b = (case parse_stanza b of (None, rest) \<Rightarrow> [] | (Some s, rest) \<Rightarrow> s # stanzas rest)"
  by pat_completeness auto
termination
  by (relation "measure length") (auto dest: parse_stanza_shorter[OF sym])

declare stanzas.simps [simp del]

subsection \<open>Synchronising and loading lists\<close>

definition release_path :: "string \<Rightarrow> string" where
  "release_path key = fit 520 (HERALD_LISTS_DIR @ ''/'' @ key @ ''.Release'')"

definition sig_path :: "string \<Rightarrow> string" where
  "sig_path key = fit 540 (release_path key @ ''.sig'')"

definition packages_path :: "string \<Rightarrow> string" where
  "packages_path key = fit 520 (HERALD_LISTS_DIR @ ''/'' @ key @ ''.Packages'')"

definition want_path :: "herald_source \<Rightarrow> string" where
  "want_path s = fit 160 (s_component s @ ''/binary-'' @ HERALD_ARCH @ ''/Packages'')"

definition of_option :: "'a option \<Rightarrow> 'a io" where
  "of_option x = (case x of None \<Rightarrow> throw EINVAL | Some y \<Rightarrow> ret y)"

definition lists_load_verified :: "crypto \<Rightarrow> herald_source \<Rightarrow> string \<Rightarrow> buf io" where
  "lists_load_verified cy s key =
     andthen (read_file (release_path key)) (\<lambda>rbuf.
     andthen (read_file (sig_path key)) (\<lambda>sbuf.
     andthen (require (herald_verify_p256_sha256 cy (trusted_key cy) rbuf sbuf)) (\<lambda>u.
     andthen (of_option (release_find_hash rbuf (want_path s))) (\<lambda>wanthash.
     andthen (read_file (packages_path key)) (\<lambda>pbuf.
     andthen (require (hex32 (sha256 cy pbuf) = wanthash)) (\<lambda>u.
     ret pbuf))))))"

text \<open>One source of \<open>repo_sync\<close>: the number of its packages.\<close>

definition sync_source :: "crypto \<Rightarrow> (string \<Rightarrow> string \<Rightarrow> unit io) \<Rightarrow> herald_source \<Rightarrow> nat io" where
  "sync_source cy curl s =
     (let key = srckey s 400; dists = s_url s @ ''/dists/'' @ s_suite s in
      andthen (herald_fetch curl (fit 700 (dists @ ''/Release'')) (release_path key)) (\<lambda>u.
      andthen (herald_fetch curl (fit 700 (dists @ ''/Release.sig'')) (sig_path key)) (\<lambda>u.
      andthen (read_file (release_path key)) (\<lambda>rbuf.
      andthen (read_file (sig_path key)) (\<lambda>sbuf.
      andthen (require (herald_verify_p256_sha256 cy (trusted_key cy) rbuf sbuf)) (\<lambda>u.
      andthen (of_option (release_find_hash rbuf (want_path s))) (\<lambda>wanthash.
      andthen (herald_fetch curl
        (fit 700 (dists @ ''/'' @ s_component s @ ''/binary-'' @ HERALD_ARCH @ ''/Packages'')) (packages_path key)) (\<lambda>u.
      andthen (read_file (packages_path key)) (\<lambda>pbuf.
      andthen (require (hex32 (sha256 cy pbuf) = wanthash)) (\<lambda>u.
      ret (length (stanzas pbuf))))))))))))"

fun sync_sources :: "crypto \<Rightarrow> (string \<Rightarrow> string \<Rightarrow> unit io) \<Rightarrow> herald_source list \<Rightarrow> nat \<Rightarrow> nat io" where
  "sync_sources cy curl [] count = ret count"
| "sync_sources cy curl (s # ss) count =
     andthen (sync_source cy curl s) (\<lambda>n. sync_sources cy curl ss (count + n))"

definition repo_sync :: "crypto \<Rightarrow> (string \<Rightarrow> string \<Rightarrow> unit io) \<Rightarrow> nat io" where
  "repo_sync cy curl =
     andthen (sources_load 16) (\<lambda>srcs.
     andthen (require (srcs \<noteq> [])) (\<lambda>u.
     andthen (db_mkdir_p HERALD_LISTS_DIR) (\<lambda>u.
     sync_sources cy curl srcs 0)))"

subsection \<open>Finding and searching\<close>

definition attempt :: "'a io \<Rightarrow> 'a option io" where
  "attempt m = handle (andthen m (\<lambda>x. ret (Some x))) (\<lambda>e. ret None)"

definition candidate :: "string \<Rightarrow> herald_stanza \<Rightarrow> bool" where
  "candidate name st \<longleftrightarrow> st_name st = name \<and> (st_arch st = [] \<or> st_arch st = HERALD_ARCH)"

text \<open>One stanza of the loop of \<open>repo_find\<close>; the first of equal versions is kept.\<close>

definition better :: "string \<Rightarrow> string \<Rightarrow> herald_stanza option \<Rightarrow> herald_stanza \<Rightarrow> herald_stanza option" where
  "better name url best st =
     (if \<not> candidate name st then best
      else (case best of
          None \<Rightarrow> Some (st\<lparr>st_base_url := fit 256 url\<rparr>)
        | Some b \<Rightarrow> if herald_version_gt (st_version st) (st_version b)
                  then Some (st\<lparr>st_base_url := fit 256 url\<rparr>) else best))"

fun find_sources :: "crypto \<Rightarrow> string \<Rightarrow> herald_source list \<Rightarrow> herald_stanza option \<Rightarrow> herald_stanza option io" where
  "find_sources cy name [] best = ret best"
| "find_sources cy name (s # ss) best =
     andthen (attempt (lists_load_verified cy s (srckey s 400))) (\<lambda>l.
     find_sources cy name ss
       (case l of None \<Rightarrow> best | Some pbuf \<Rightarrow> foldl (better name (s_url s)) best (stanzas pbuf)))"

definition repo_find :: "crypto \<Rightarrow> string \<Rightarrow> herald_stanza option io" where
  "repo_find cy name = andthen (sources_load 16) (\<lambda>srcs. find_sources cy name srcs None)"

definition strstr :: "string \<Rightarrow> string \<Rightarrow> bool" where
  "strstr hay needle \<longleftrightarrow> list_ex (\<lambda>i. take (length needle) (drop i hay) = needle) [0..<Suc (length hay)]"

text \<open>The stanzas \<open>repo_search\<close> prints; an error when no list could be loaded.\<close>

fun search_sources :: "crypto \<Rightarrow> string \<Rightarrow> herald_source list \<Rightarrow> bool \<Rightarrow> herald_stanza list \<Rightarrow> (bool \<times> herald_stanza list) io" where
  "search_sources cy term [] any_list hits = ret (any_list, hits)"
| "search_sources cy term (s # ss) any_list hits =
     andthen (attempt (lists_load_verified cy s (srckey s 400))) (\<lambda>l.
     case l of
       None \<Rightarrow> search_sources cy term ss any_list hits
     | Some pbuf \<Rightarrow> search_sources cy term ss True
         (hits @ filter (\<lambda>st. term = [] \<or> strstr (st_name st) term \<or> strstr (st_display_name st) term) (stanzas pbuf)))"

definition repo_search :: "crypto \<Rightarrow> string \<Rightarrow> herald_stanza list io" where
  "repo_search cy term =
     andthen (sources_load 16) (\<lambda>srcs.
     andthen (search_sources cy term srcs False []) (\<lambda>r.
     andthen (require (fst r)) (\<lambda>u. ret (snd r))))"

section \<open>The trust chain\<close>

text \<open>A Packages list is trusted when a Release that verifies against the embedded key pins its hash.\<close>

definition pinned :: "crypto \<Rightarrow> herald_source \<Rightarrow> buf \<Rightarrow> buf \<Rightarrow> buf \<Rightarrow> bool" where
  "pinned cy s rbuf sbuf pbuf \<longleftrightarrow> herald_verify_p256_sha256 cy (trusted_key cy) rbuf sbuf \<and>
     release_find_hash rbuf (want_path s) = Some (hex32 (sha256 cy pbuf))"

text \<open>The trusted list of a source in the cache.\<close>

definition verified_list :: "crypto \<Rightarrow> (fpath \<Rightarrow> buf option) \<Rightarrow> herald_source \<Rightarrow> buf option" where
  "verified_list cy f s =
     (case (f (resolve (release_path (srckey s 400))), f (resolve (sig_path (srckey s 400))),
        f (resolve (packages_path (srckey s 400)))) of
        (Some r, Some g, Some p) \<Rightarrow> if pinned cy s r g p then Some p else None
      | _ \<Rightarrow> None)"

lemma read_file_triple:
  assumes "wf_fs s0" "last path \<noteq> slash"
  shows "valid F (\<lambda>s. s = s0) (read_file path) (\<lambda>b s. file_at s0 (resolve path) = Some b \<and> s = s0)
     (\<lambda>_ s. s = s0 \<and> (F = no_faults \<longrightarrow> file_at s0 (resolve path) = None))"
  unfolding read_file_def
proof (rule valid_andthen)
  show "valid F (\<lambda>s. s = s0) (sys_open_read path) (\<lambda>f s. file_at s0 (resolve path) = Some (fst f) \<and> s = s0)
     (\<lambda>_ s. s = s0 \<and> (F = no_faults \<longrightarrow> file_at s0 (resolve path) = None))"
    by (rule valid_conseq[OF open_read_triple[OF assms]]) (auto simp: file_at_def split: option.splits node.splits)
  show "valid F (\<lambda>s. file_at s0 (resolve path) = Some (fst f) \<and> s = s0)
      (andthen sys_quiet (\<lambda>u. andthen sys_quiet (\<lambda>u. ret (fst f))))
      (\<lambda>b s. file_at s0 (resolve path) = Some b \<and> s = s0)
      (\<lambda>_ s. s = s0 \<and> (F = no_faults \<longrightarrow> file_at s0 (resolve path) = None))" for f
    by (rule valid_quiet_then, rule valid_quiet_then, rule valid_ret) auto
qed

lemma key_char_plain: "key_char c \<noteq> slash" "key_char c \<noteq> nul" "key_char c \<noteq> dot"
proof -
  have "key_char c = c \<or> key_char c = CHR ''_''" by (simp add: key_char_def Let_def)
  moreover have "key_char slash = CHR ''_''" "key_char nul = CHR ''_''" "key_char dot = CHR ''_''"
    by (simp_all add: key_char_def byte_of_def)
  ultimately show "key_char c \<noteq> slash" "key_char c \<noteq> nul" "key_char c \<noteq> dot" by auto
qed

lemma srckey_plain: "set (srckey s n) \<inter> {slash, nul, dot} = {}" "length (srckey s 400) \<le> 399"
proof -
  have "set (srckey s n) \<subseteq> range key_char" unfolding srckey_def Let_def set_map by blast
  moreover have "range key_char \<inter> {slash, nul, dot} = {}"
    using key_char_plain by (auto simp: image_iff) metis+
  ultimately show "set (srckey s n) \<inter> {slash, nul, dot} = {}" by blast
  show "length (srckey s 400) \<le> 399" by (simp add: srckey_def fit_def Let_def)
qed

lemma list_paths:
  "release_path (srckey s 400) = HERALD_LISTS_DIR @ slash # srckey s 400 @ ''.Release''"
  "sig_path (srckey s 400) = HERALD_LISTS_DIR @ slash # srckey s 400 @ ''.Release.sig''"
  "packages_path (srckey s 400) = HERALD_LISTS_DIR @ slash # srckey s 400 @ ''.Packages''"
  using srckey_plain(2)[of s] by (simp_all add: release_path_def sig_path_def packages_path_def HERALD_LISTS_DIR_def fit_id)

lemma list_paths_last:
  "last (release_path (srckey s 400)) \<noteq> slash" "last (sig_path (srckey s 400)) \<noteq> slash" "last (packages_path (srckey s 400)) \<noteq> slash"
  by (simp_all add: list_paths)

lemma read_file_then:
  assumes "wf_fs s0" "last path \<noteq> slash"
    and "\<And>b. file_at s0 (resolve path) = Some b \<Longrightarrow> valid F (\<lambda>s. s = s0) (f b) Q E"
    and "\<And>e. (F = no_faults \<longrightarrow> file_at s0 (resolve path) = None) \<Longrightarrow> E e s0"
  shows "valid F (\<lambda>s. s = s0) (andthen (read_file path) f) Q E"
proof (rule valid_andthen)
  show "valid F (\<lambda>s. s = s0) (read_file path) (\<lambda>b s. file_at s0 (resolve path) = Some b \<and> s = s0) E"
    by (rule valid_conseq[OF read_file_triple[OF assms(1,2)]]) (use assms(4) in auto)
  show "valid F (\<lambda>s. file_at s0 (resolve path) = Some b \<and> s = s0) (f b) Q E" for b
    by (rule valid_pull) (rule assms(3))
qed

lemma require_then:
  assumes "b \<Longrightarrow> valid F P (f ()) Q E" "\<And>s. \<not> b \<Longrightarrow> P s \<Longrightarrow> E EINVAL s"
  shows "valid F P (andthen (require b) f) Q E"
  using assms by (cases b) (auto intro!: valid_throw)

lemma of_option_then:
  assumes "\<And>y. x = Some y \<Longrightarrow> valid F P (f y) Q E" "\<And>s. x = None \<Longrightarrow> P s \<Longrightarrow> E EINVAL s"
  shows "valid F P (andthen (of_option x) f) Q E"
proof (cases x)
  case None
  then have "andthen (of_option x) f = throw EINVAL" by (auto simp: of_option_def andthen_def throw_def)
  then show ?thesis using assms(2) None by (auto intro!: valid_throw)
next
  case (Some y)
  then have "andthen (of_option x) f = f y" by (auto simp: of_option_def andthen_def ret_def)
  then show ?thesis using assms(1) Some by simp
qed

lemma lists_load_verified_triple:
  assumes wf: "wf_fs s0"
  shows "valid F (\<lambda>s. s = s0) (lists_load_verified cy src (srckey src 400))
     (\<lambda>p s. s = s0 \<and> verified_list cy (file_at s0) src = Some p)
     (\<lambda>_ s. s = s0 \<and> (F = no_faults \<longrightarrow> verified_list cy (file_at s0) src = None))"
  unfolding lists_load_verified_def
  by (intro read_file_then[OF wf] list_paths_last require_then of_option_then valid_ret)
    (auto simp: verified_list_def pinned_def split: option.splits)

lemma attempt_list_triple:
  assumes wf: "wf_fs s0"
  shows "valid F (\<lambda>s. s = s0) (attempt (lists_load_verified cy src (srckey src 400)))
     (\<lambda>l s. (l = None \<or> l = verified_list cy (file_at s0) src) \<and> (F = no_faults \<longrightarrow> l = verified_list cy (file_at s0) src) \<and> s = s0) E"
  unfolding attempt_def
proof (rule valid_handle)
  show "valid F (\<lambda>s. s = s0) (andthen (lists_load_verified cy src (srckey src 400)) (\<lambda>x. ret (Some x)))
     (\<lambda>l s. (l = None \<or> l = verified_list cy (file_at s0) src) \<and> (F = no_faults \<longrightarrow> l = verified_list cy (file_at s0) src) \<and> s = s0)
     (\<lambda>_ s. s = s0 \<and> (F = no_faults \<longrightarrow> verified_list cy (file_at s0) src = None))"
    by (rule valid_andthen[OF lists_load_verified_triple[OF wf]], rule valid_ret) auto
qed (auto intro!: valid_ret)

section \<open>The best candidate\<close>

text \<open>\<open>st\<close> is a candidate of a trusted list of one of the sources, with the source's address.\<close>

definition offered :: "crypto \<Rightarrow> (fpath \<Rightarrow> buf option) \<Rightarrow> string \<Rightarrow> herald_source list \<Rightarrow> herald_stanza \<Rightarrow> bool" where
  "offered cy f name srcs st \<longleftrightarrow>
     (\<exists>src \<in> set srcs. \<exists>p st0. verified_list cy f src = Some p \<and> st0 \<in> set (stanzas p) \<and> candidate name st0 \<and>
        st = st0\<lparr>st_base_url := fit 256 (s_url src)\<rparr>)"

definition not_newer :: "herald_stanza option \<Rightarrow> herald_stanza \<Rightarrow> bool" where
  "not_newer best st \<longleftrightarrow> (\<exists>b. best = Some b \<and> \<not> herald_version_gt (st_version st) (st_version b))"

lemma not_newer_step:
  assumes "not_newer best st \<or> st' = st \<and> candidate name st"
  shows "not_newer (better name url best st') st"
proof -
  have irr: "\<not> herald_version_gt v v" for v by (simp add: herald_version_gt_lex version_less_irrefl)
  have tr: "\<not> herald_version_gt v c" if "\<not> herald_version_gt v b" "herald_version_gt c b" for v b c
    using that version_less_trans[of b c v] by (auto simp: herald_version_gt_lex)
  show ?thesis using assms irr tr by (auto simp: better_def not_newer_def split: option.splits)
qed

lemma fold_better:
  "foldl (better name url) best sts = best \<or>
     (\<exists>st \<in> set sts. candidate name st \<and> foldl (better name url) best sts = Some (st\<lparr>st_base_url := fit 256 url\<rparr>))"
proof (induction sts arbitrary: best)
  case (Cons st sts)
  have "better name url best st = best \<or> candidate name st \<and> better name url best st = Some (st\<lparr>st_base_url := fit 256 url\<rparr>)"
    by (auto simp: better_def split: option.splits)
  then show ?case using Cons[of "better name url best st"] by auto
qed simp

lemma fold_better_max:
  assumes "not_newer best st \<or> st \<in> set sts \<and> candidate name st"
  shows "not_newer (foldl (better name url) best sts) st"
  using assms
proof (induction sts arbitrary: best)
  case (Cons x sts)
  have "not_newer (better name url best x) st \<or> st \<in> set sts \<and> candidate name st"
    using Cons(2) not_newer_step[of best st x name url] by auto
  then show ?case using Cons(1) by simp
qed simp

lemma find_sources_triple:
  assumes wf: "wf_fs s0"
  shows "valid F (\<lambda>s. s = s0) (find_sources cy name srcs best)
     (\<lambda>r s. s = s0 \<and> (r = best \<or> (\<exists>st. r = Some st \<and> offered cy (file_at s0) name srcs st)) \<and>
        (\<forall>st. not_newer best st \<or> F = no_faults \<and> (\<exists>src \<in> set srcs. \<exists>p. verified_list cy (file_at s0) src = Some p \<and>
            st \<in> set (stanzas p) \<and> candidate name st) \<longrightarrow> not_newer r st))
     (\<lambda>_ s. False)"
proof (induction srcs arbitrary: best)
  case Nil
  then show ?case by (auto intro!: valid_ret)
next
  case (Cons src srcs)
  let ?v = "verified_list cy (file_at s0) src"
  let ?best = "\<lambda>l. case l of None \<Rightarrow> best | Some pbuf \<Rightarrow> foldl (better name (s_url src)) best (stanzas pbuf)"
  show ?case unfolding find_sources.simps
  proof (rule valid_andthen[OF attempt_list_triple[OF wf]], rule valid_pull, rule valid_pull)
    fix l assume l: "l = None \<or> l = ?v" "F = no_faults \<longrightarrow> l = ?v"
    have new: "?best l = best \<or> (\<exists>st. ?best l = Some st \<and> offered cy (file_at s0) name (src # srcs) st)"
    proof (cases l)
      case (Some p)
      then have "?v = Some p" using l by auto
      then show ?thesis
        using fold_better[of name "s_url src" best "stanzas p"] Some by (auto simp: offered_def)
    qed simp
    have max: "not_newer (?best l) st" if "not_newer best st \<or> F = no_faults \<and> (\<exists>p. ?v = Some p \<and> st \<in> set (stanzas p) \<and> candidate name st)" for st
    proof (cases l)
      case None
      then show ?thesis using that l by auto
    next
      case (Some p)
      then have "?v = Some p" using l by auto
      then have "not_newer best st \<or> st \<in> set (stanzas p) \<and> candidate name st" using that by auto
      then show ?thesis unfolding Some option.case by (rule fold_better_max)
    qed
    have mono: "offered cy (file_at s0) name srcs st \<Longrightarrow> offered cy (file_at s0) name (src # srcs) st" for st
      by (auto simp: offered_def)
    show "valid F (\<lambda>s. s = s0) (find_sources cy name srcs (?best l))
     (\<lambda>r s. s = s0 \<and> (r = best \<or> (\<exists>st. r = Some st \<and> offered cy (file_at s0) name (src # srcs) st)) \<and>
        (\<forall>st. not_newer best st \<or> F = no_faults \<and> (\<exists>src \<in> set (src # srcs). \<exists>p. verified_list cy (file_at s0) src = Some p \<and>
            st \<in> set (stanzas p) \<and> candidate name st) \<longrightarrow> not_newer r st))
     (\<lambda>_ s. False)"
      by (rule valid_conseq[OF Cons[of "?best l"]]) (use new max mono in \<open>fastforce+\<close>)
  qed
qed

section \<open>Properties\<close>

lemma repo_find_triple:
  assumes wf: "wf_fs s0"
  shows "valid F (\<lambda>s. s = s0) (repo_find cy name)
     (\<lambda>r s. s = s0 \<and> (\<exists>b. file_at s0 (resolve HERALD_SOURCES) = Some b \<and>
        (r = None \<or> (\<exists>st. r = Some st \<and> offered cy (file_at s0) name (sources_scan 16 b) st)) \<and>
        (\<forall>st. F = no_faults \<and> (\<exists>src \<in> set (sources_scan 16 b). \<exists>p. verified_list cy (file_at s0) src = Some p \<and>
            st \<in> set (stanzas p) \<and> candidate name st) \<longrightarrow> not_newer r st)))
     (\<lambda>_ s. s = s0 \<and> (F = no_faults \<longrightarrow> file_at s0 (resolve HERALD_SOURCES) = None))"
  unfolding repo_find_def sources_load_def
proof (rule valid_andthen)
  show "valid F (\<lambda>s. s = s0) (andthen (read_file HERALD_SOURCES) (\<lambda>b. ret (sources_scan 16 b)))
      (\<lambda>srcs s. (\<exists>b. file_at s0 (resolve HERALD_SOURCES) = Some b \<and> srcs = sources_scan 16 b) \<and> s = s0) (\<lambda>_ s. s = s0 \<and> (F = no_faults \<longrightarrow> file_at s0 (resolve HERALD_SOURCES) = None))"
    by (rule read_file_then[OF wf]) (auto simp: HERALD_SOURCES_def intro!: valid_ret)
  show "valid F (\<lambda>s. (\<exists>b. file_at s0 (resolve HERALD_SOURCES) = Some b \<and> srcs = sources_scan 16 b) \<and> s = s0)
      (find_sources cy name srcs None)
      (\<lambda>r s. s = s0 \<and> (\<exists>b. file_at s0 (resolve HERALD_SOURCES) = Some b \<and>
        (r = None \<or> (\<exists>st. r = Some st \<and> offered cy (file_at s0) name (sources_scan 16 b) st)) \<and>
        (\<forall>st. F = no_faults \<and> (\<exists>src \<in> set (sources_scan 16 b). \<exists>p. verified_list cy (file_at s0) src = Some p \<and>
            st \<in> set (stanzas p) \<and> candidate name st) \<longrightarrow> not_newer r st)))
      (\<lambda>_ s. s = s0 \<and> (F = no_faults \<longrightarrow> file_at s0 (resolve HERALD_SOURCES) = None))" for srcs
  proof (rule valid_pull)
    assume "\<exists>b. file_at s0 (resolve HERALD_SOURCES) = Some b \<and> srcs = sources_scan 16 b"
    then obtain b where "file_at s0 (resolve HERALD_SOURCES) = Some b" "srcs = sources_scan 16 b" by blast
    then show "valid F (\<lambda>s. s = s0) (find_sources cy name srcs None)
      (\<lambda>r s. s = s0 \<and> (\<exists>b. file_at s0 (resolve HERALD_SOURCES) = Some b \<and>
        (r = None \<or> (\<exists>st. r = Some st \<and> offered cy (file_at s0) name (sources_scan 16 b) st)) \<and>
        (\<forall>st. F = no_faults \<and> (\<exists>src \<in> set (sources_scan 16 b). \<exists>p. verified_list cy (file_at s0) src = Some p \<and>
            st \<in> set (stanzas p) \<and> candidate name st) \<longrightarrow> not_newer r st)))
      (\<lambda>_ s. s = s0 \<and> (F = no_faults \<longrightarrow> file_at s0 (resolve HERALD_SOURCES) = None))"
      by (intro valid_conseq[OF find_sources_triple[OF wf]]) auto
  qed
qed

text \<open>
  C17: the trust chain holds from the cache on.  Whatever the cached files hold and whatever calls
  fail, a package that \<open>repo_find\<close> returns is a stanza of bytes whose SHA-256 is the one a Release
  pins for the source, and that Release verifies under the embedded key.
\<close>

theorem repo_find_authentic:
  assumes "wf_fs (fs w)" "repo_find cy name w = (Inr (Some st), w1)"
  shows "\<exists>src rbuf sbuf pbuf st0.
     herald_verify_p256_sha256 cy (trusted_key cy) rbuf sbuf \<and>
     release_find_hash rbuf (want_path src) = Some (hex32 (sha256 cy pbuf)) \<and>
     st0 \<in> set (stanzas pbuf) \<and> candidate name st0 \<and> st = st0\<lparr>st_base_url := fit 256 (s_url src)\<rparr>"
proof -
  have "within UNIV w" by (simp add: within_def)
  from valid_run[OF repo_find_triple[OF assms(1)] refl this assms(2)] obtain b where
    "offered cy (file_at (fs w)) name (sources_scan 16 b) st" by auto
  then show ?thesis
    by (auto simp: offered_def verified_list_def pinned_def split: option.splits if_splits) blast
qed


section \<open>A concrete repository\<close>

text \<open>A hash and a signature scheme to run the client with: the first bytes, and the hash itself.\<close>

definition toy_crypto :: crypto where
  "toy_crypto = \<lparr>sha256 = (\<lambda>b. [char_of (length b)]), ecdsa_ok = (\<lambda>k h s. s = h),
     trusted_key = CHR 0x04 # replicate 64 nul\<rparr>"

definition toy_packages :: buf where
  "toy_packages = ''Package: a'' @ newline # ''Version: 1.10'' @ [newline]"

definition toy_release :: buf where
  "toy_release = ''SHA256:'' @ newline # '' 19 9 main/binary-x86_64/Packages'' @ [newline]"

definition toy_repo :: world where
  "toy_repo = \<lparr>fs = [([], Dir), ([''etc''], Dir), ([''etc'', ''herald''], Dir),
     ([''etc'', ''herald'', ''sources.list''], Reg (''http://r s main'' @ [newline]) 420),
     ([''var''], Dir), ([''var'', ''lib''], Dir), ([''var'', ''lib'', ''herald''], Dir), ([''var'', ''lib'', ''herald'', ''lists''], Dir),
     ([''var'', ''lib'', ''herald'', ''lists'', ''http___r_s_main.Release''], Reg toy_release 420),
     ([''var'', ''lib'', ''herald'', ''lists'', ''http___r_s_main.Release.sig''], Reg [CHR ''*''] 420),
     ([''var'', ''lib'', ''herald'', ''lists'', ''http___r_s_main.Packages''], Reg toy_packages 420)], sched = \<lambda>n. NoFault\<rparr>"

definition toy_source :: herald_source where
  "toy_source = \<lparr>s_url = ''http://r'', s_suite = ''s'', s_component = ''main''\<rparr>"

definition toy_stanza :: herald_stanza where
  "toy_stanza = stanza_zero\<lparr>st_name := ''a'', st_version := ''1.10''\<rparr>"

lemma toy_facts:
  "wf_fs (fs toy_repo)" "within no_faults toy_repo"
  "file_at (fs toy_repo) (resolve HERALD_SOURCES) = Some (''http://r s main'' @ [newline])"
  "toy_source \<in> set (sources_scan 16 (''http://r s main'' @ [newline]))"
  "verified_list toy_crypto (file_at (fs toy_repo)) toy_source = Some toy_packages"
  "toy_stanza \<in> set (stanzas toy_packages)" "candidate ''a'' toy_stanza"
proof -
  show "wf_fs (fs toy_repo)" by code_simp
  show "within no_faults toy_repo" by (simp add: within_def toy_repo_def)
  show "file_at (fs toy_repo) (resolve HERALD_SOURCES) = Some (''http://r s main'' @ [newline])" by code_simp
  have "sources_scan 16 (''http://r s main'' @ [newline]) = [toy_source]" by code_simp
  then show "toy_source \<in> set (sources_scan 16 (''http://r s main'' @ [newline]))" by simp
  have r: "release_path (srckey toy_source 400) = ''/var/lib/herald/lists/http___r_s_main.Release''"
      "sig_path (srckey toy_source 400) = ''/var/lib/herald/lists/http___r_s_main.Release.sig''"
      "packages_path (srckey toy_source 400) = ''/var/lib/herald/lists/http___r_s_main.Packages''" by code_simp+
  have "file_at (fs toy_repo) (resolve (release_path (srckey toy_source 400))) = Some toy_release"
       "file_at (fs toy_repo) (resolve (sig_path (srckey toy_source 400))) = Some [CHR ''*'']"
       "file_at (fs toy_repo) (resolve (packages_path (srckey toy_source 400))) = Some toy_packages"
    unfolding r by code_simp+
  moreover have "pinned toy_crypto toy_source toy_release [CHR ''*''] toy_packages" by code_simp
  ultimately show "verified_list toy_crypto (file_at (fs toy_repo)) toy_source = Some toy_packages"
    by (simp add: verified_list_def)
  have "stanzas toy_packages = [toy_stanza]" by code_simp
  then show "toy_stanza \<in> set (stanzas toy_packages)" by simp
  show "candidate ''a'' toy_stanza" by code_simp
qed

lemma toy_runs:
  obtains r w1 where "repo_find toy_crypto ''a'' toy_repo = (Inr r, w1)"
proof -
  obtain x w1 where run: "repo_find toy_crypto ''a'' toy_repo = (x, w1)" by fastforce
  from valid_run[OF repo_find_triple[OF toy_facts(1)] refl toy_facts(2) run] toy_facts(3) run that
  show ?thesis by (cases x) auto
qed


theorem repo_find_authentic_witness:
  "\<exists>src rbuf sbuf pbuf st0.
     herald_verify_p256_sha256 toy_crypto (trusted_key toy_crypto) rbuf sbuf \<and>
     release_find_hash rbuf (want_path src) = Some (hex32 (sha256 toy_crypto pbuf)) \<and>
     st0 \<in> set (stanzas pbuf) \<and> candidate ''a'' st0"
proof -
  obtain r w1 where w1: "repo_find toy_crypto ''a'' toy_repo = (Inr r, w1)" by (rule toy_runs)
  from valid_run[OF repo_find_triple[OF toy_facts(1)] refl toy_facts(2) w1] toy_facts(3-7)
  obtain st where "r = Some st" by (auto simp: not_newer_def)
  with w1 show ?thesis using repo_find_authentic[OF toy_facts(1), of toy_crypto "''a''" st w1] by blast
qed

end
