(* ===== verification/Herald_Main.thy ===== *)
theory Herald_Main
  imports Herald_Manifest Herald_Extract Herald_Repo
begin

text \<open>
  The commands of herald, \<open>user/bin/herald/main.c\<close>: loading a verified package, the guards and the
  steps of an installation, dependency resolution, the application of a set of packages, removal,
  and the dispatch of \<open>main\<close>.

  The static path of the database is an argument: the staged copy inside a transaction, the live
  one outside.  \<open>env\<close> holds what is not part of the sources: the cryptography, \<open>curl\<close>, and whether
  \<open>HERALD_ALLOW_DOWNGRADE\<close> is set.  Messages are not modelled; a command that prints returns
  what it prints.
\<close>

section \<open>Definitions\<close>

record env =
  env_crypto :: crypto
  env_curl :: "string \<Rightarrow> string \<Rightarrow> unit io"
  env_allow_downgrade :: bool

definition HERALD_CACHE_DIR :: string where "HERALD_CACHE_DIR = ''/var/lib/herald/cache''"
abbreviation HERALD_MAX_INSTALL :: nat where "HERALD_MAX_INSTALL \<equiv> 64"
definition HERALD_ANCHORS_FILE :: string where "HERALD_ANCHORS_FILE = ''/etc/aegis/anchors''"

definition staged_db :: string where "staged_db = HERALD_TXN_STAGE @ HERALD_DB_PATH"

subsection \<open>Helpers\<close>

definition ends_with :: "string \<Rightarrow> string \<Rightarrow> bool" where
  "ends_with s suf \<longleftrightarrow> length suf \<le> length s \<and> drop (length s - length suf) s = suf"

definition is_blank :: "char \<Rightarrow> bool" where
  "is_blank c \<longleftrightarrow> c = space \<or> c = tab"

definition allowed_caps :: "string list" where
  "allowed_caps = [''FB'', ''IPC'', ''NET_SOCKET'', ''PROC_READ'', ''THREAD_CREATE'', ''VFS_OPEN'', ''VFS_READ'', ''VFS_WRITE'']"

text \<open>The first capability outside the allow-list.\<close>

function caps_scan :: "string \<Rightarrow> string option" where
  "caps_scan p =
     (let q = dropWhile is_blank p; tok = takeWhile (\<lambda>c. \<not> is_blank c) q in
      if q = [] then None
      else if tok \<in> set allowed_caps then caps_scan (dropWhile (\<lambda>c. \<not> is_blank c) q)
      else Some tok)"
  by pat_completeness auto
termination
proof (relation "measure length", goal_cases)
  case (2 p q tok)
  have "length q \<le> length p" using 2(1) by (simp add: length_dropWhile_le)
  moreover have "length (dropWhile (\<lambda>c. \<not> is_blank c) q) < length q"
  proof (cases q)
    case (Cons c r)
    have "\<not> is_blank c" using 2(1) Cons hd_dropWhile[of is_blank p] by (metis list.distinct(1) list.sel(1))
    then show ?thesis using Cons length_dropWhile_le[of "\<lambda>c. \<not> is_blank c" r] by simp
  qed (use 2 in simp)
  ultimately show ?case by simp
qed simp

declare caps_scan.simps [simp del]

definition caps_are_safe :: "string \<Rightarrow> bool" where
  "caps_are_safe caps \<longleftrightarrow> caps_scan caps = None"

definition load_verified_pkg :: "crypto \<Rightarrow> string \<Rightarrow> (buf \<times> herald_manifest) io" where
  "load_verified_pkg cy path =
     andthen (read_file path) (\<lambda>b.
     andthen (require (length (path @ ''.sig'') < 1024)) (\<lambda>u.
     andthen (read_file (path @ ''.sig'')) (\<lambda>sig.
     andthen (require (herald_verify_p256_sha256 cy (trusted_key cy) b sig)) (\<lambda>u.
     case tar_find_mem b ''manifest'' of
       Inr (Some md) \<Rightarrow> andthen (of_option (manifest_parse md)) (\<lambda>m. ret (b, m))
     | _ \<Rightarrow> throw EINVAL))))"

text \<open>\<open>fopen (path, "a")\<close>: append, creating the file.\<close>

definition fs_open_append_create :: "string \<Rightarrow> fsys \<Rightarrow> (errno + fpath) \<times> fsys" where
  "fs_open_append_create path s =
     (case fs_find path s of
        Inl ENOENT \<Rightarrow> fs_open_trunc path 438 s
      | _ \<Rightarrow> fs_open_append path s)"

text \<open>The trailing white space of a line of the anchors file is dropped before the comparison.\<close>

definition anchor_listed :: "string \<Rightarrow> buf \<Rightarrow> bool" where
  "anchor_listed abspath c \<longleftrightarrow>
     abspath \<in> set (map (\<lambda>l. rtrim_of (\<lambda>c. c = newline \<or> c = cr \<or> c = space \<or> c = tab) (cstr l)) (fgets_lines 160 c))"

definition anchor_register :: "string \<Rightarrow> unit io" where
  "anchor_register relprefix =
     (let rel = rtrim_of (\<lambda>c. c = slash) relprefix; abspath = slash # rel; file = HERALD_TXN_STAGE @ HERALD_ANCHORS_FILE in
      andthen (require (rel \<noteq> [] \<and> length rel + 1 < 128)) (\<lambda>u.
      andthen (attempt (sys_open_read file)) (\<lambda>f.
      if (case f of Some c \<Rightarrow> anchor_listed abspath (fst c) | None \<Rightarrow> False) then ret ()
      else
        andthen (syscall (fs_open_append_create file)) (\<lambda>fd.
        ignore (write_all fd (abspath @ [newline]))))))"

definition transaction_begin :: "unit io" where
  "transaction_begin =
     andthen (on_fail (andthen txn_begin (\<lambda>u. txn_stage_existing ''etc/aegis/anchors'')) txn_abort) (\<lambda>u.
     db_mkdir_p (HERALD_TXN_STAGE @ ''/etc/aegis/caps.d''))"

text \<open>The reload of the kernel's policy may fail, with a warning.\<close>

definition transaction_finish :: "bool \<Rightarrow> unit io" where
  "transaction_finish ok =
     andthen (on_fail (if ok then txn_commit else throw EINVAL) txn_abort) (\<lambda>u.
     ignore sys_quiet)"

definition owner_finish :: "fpath \<Rightarrow> string \<Rightarrow> unit io" where
  "owner_finish fd i =
     andthen (succeeds sys_quiet) (\<lambda>synced.
     andthen (succeeds sys_quiet) (\<lambda>closed.
     andthen (require (synced \<and> closed \<and> length (owner_list i) < 160)) (\<lambda>u.
     andthen (of_option (txn_stage_path 768 (tl (owner_list i)))) (\<lambda>path.
     txn_remove_stale i path))))"

definition staged_policy_path :: "string \<Rightarrow> string option" where
  "staged_policy_path name =
     (let rel = ''etc/aegis/caps.d/'' @ name in
      if length rel \<ge> 256 then None else txn_stage_path 768 rel)"

definition policy_exists :: "string \<Rightarrow> bool io" where
  "policy_exists name =
     andthen (succeeds (sys_lstat (fit 256 (''/etc/aegis/caps.d/'' @ name)))) (\<lambda>live.
     if live then ret True
     else (case staged_policy_path name of
         None \<Rightarrow> ret False
       | Some staged \<Rightarrow> succeeds (sys_lstat staged)))"

subsection \<open>Installing a package\<close>

text \<open>\<open>db_find (id, &e) == 1\<close>: an error counts as not found.\<close>

definition db_has :: "string \<Rightarrow> string \<Rightarrow> herald_db_entry option io" where
  "db_has dbp i =
     andthen (attempt (db_find dbp i)) (\<lambda>r. ret (case r of Some (Some e) \<Rightarrow> Some e | _ \<Rightarrow> None))"

definition find_manifest :: "buf \<Rightarrow> herald_manifest option" where
  "find_manifest b =
     (case tar_find_mem b ''manifest'' of Inr (Some md) \<Rightarrow> manifest_parse md | _ \<Rightarrow> None)"

definition rollback_guard :: "env \<Rightarrow> string \<Rightarrow> herald_manifest \<Rightarrow> unit io" where
  "rollback_guard ev dbp m =
     andthen (db_has dbp (m_id m)) (\<lambda>cur.
     require (case cur of
         None \<Rightarrow> True
       | Some e \<Rightarrow> \<not> herald_version_gt (e_version e) (m_version m) \<or> env_allow_downgrade ev))"

definition package_entry :: "env \<Rightarrow> buf \<Rightarrow> herald_manifest \<Rightarrow> herald_db_entry" where
  "package_entry ev b m =
     \<lparr>e_id = fit 64 (m_id m), e_version = fit 32 (m_version m), e_exec = fit 64 (m_exec m),
      e_sha256 = fit 65 (hex32 (sha256 (env_crypto ev) b))\<rparr>"

definition install_record :: "env \<Rightarrow> string \<Rightarrow> buf \<Rightarrow> herald_manifest \<Rightarrow> fpath \<Rightarrow> unit io" where
  "install_record ev dbp b m owner_fd =
     andthen (owner_finish owner_fd (m_id m)) (\<lambda>u.
     db_put dbp (package_entry ev b m))"

text \<open>A system package; \<open>close (owner_fd)\<close> on the error path is the quiet call.\<close>

definition install_system :: "env \<Rightarrow> string \<Rightarrow> buf \<Rightarrow> herald_manifest \<Rightarrow> unit io" where
  "install_system ev dbp b m =
     andthen (require (case tar_find_mem b ''var/lib/lorica-update/pending'' of Inr (Some d) \<Rightarrow> False | _ \<Rightarrow> True)) (\<lambda>u.
     andthen (txn_owner_open (m_id m)) (\<lambda>owner_fd.
     andthen (on_fail (tar_extract_mem_owned b HERALD_TXN_STAGE None owner_fd) sys_quiet) (\<lambda>u.
     install_record ev dbp b m owner_fd)))"

definition caps_guard :: "string \<Rightarrow> herald_manifest \<Rightarrow> unit io" where
  "caps_guard dbp m =
     andthen (require (m_caps m = [] \<or> caps_are_safe (m_caps m))) (\<lambda>u.
     andthen (require (m_exec m = m_id m)) (\<lambda>u.
     if m_caps m = [] then ret ()
     else
       andthen (policy_exists (m_exec m)) (\<lambda>ex.
       if ex then andthen (db_has dbp (m_id m)) (\<lambda>prev. require (prev \<noteq> None)) else ret ())))"

definition bincap_guard :: "bool \<Rightarrow> herald_bincap \<Rightarrow> unit io" where
  "bincap_guard reinstall bc =
     andthen (require (slash \<notin> set (bc_binary bc))) (\<lambda>u.
     andthen (require (caps_are_safe (bc_caps bc))) (\<lambda>u.
     andthen (policy_exists (bc_binary bc)) (\<lambda>ex.
     require (\<not> ex \<or> reinstall))))"

definition bincaps_guard :: "string \<Rightarrow> herald_manifest \<Rightarrow> unit io" where
  "bincaps_guard dbp m =
     andthen (db_has dbp (m_id m)) (\<lambda>prev.
     each (bincap_guard (prev \<noteq> None)) (m_bincaps m))"

text \<open>A declared install path is refused when it is absolute, not a directory, has \<open>..\<close> or is below \<open>etc/aegis/\<close>.\<close>

definition path_illegal :: "string \<Rightarrow> bool" where
  "path_illegal tok \<longleftrightarrow> hd tok = slash \<or> tok = [] \<or> last tok \<noteq> slash \<or> strstr tok ''..'' \<or> starts_with tok ''etc/aegis/''"

function paths_loop :: "nat \<Rightarrow> string \<Rightarrow> string list option" where
  "paths_loop np s =
     (let q = dropWhile is_blank s; tok = takeWhile (\<lambda>c. \<not> is_blank c) q in
      if np \<ge> 16 \<or> q = [] then Some []
      else if path_illegal tok then None
      else map_option ((#) tok) (paths_loop (np + 1) (drop 1 (dropWhile (\<lambda>c. \<not> is_blank c) q))))"
  by pat_completeness auto
termination
  by (relation "measure (\<lambda>(np, s). 16 - np)") auto

declare paths_loop.simps [simp del]

definition install_prefixes :: "herald_manifest \<Rightarrow> string list option" where
  "install_prefixes m = map_option ((#) (fit 80 (''apps/'' @ m_id m @ ''/''))) (paths_loop 1 (m_paths m))"

definition write_policy :: "fpath \<Rightarrow> string \<Rightarrow> string \<Rightarrow> unit io" where
  "write_policy owner_fd name caps =
     on_fail
       (andthen (of_option (staged_policy_path name)) (\<lambda>cp.
        andthen (sys_open_trunc cp 438) (\<lambda>cf.
        andthen (write_all cf (''service '' @ caps @ [newline])) (\<lambda>u.
        andthen sys_quiet (\<lambda>u.
        txn_owner_add owner_fd (drop (length HERALD_TXN_STAGE + 1) cp))))))
       sys_quiet"

definition install_app :: "env \<Rightarrow> string \<Rightarrow> buf \<Rightarrow> herald_manifest \<Rightarrow> unit io" where
  "install_app ev dbp b m =
     andthen (caps_guard dbp m) (\<lambda>u.
     andthen (bincaps_guard dbp m) (\<lambda>u.
     andthen (of_option (install_prefixes m)) (\<lambda>pps.
     andthen (txn_owner_open (m_id m)) (\<lambda>owner_fd.
     andthen (on_fail (tar_extract_mem_owned b HERALD_TXN_STAGE (Some pps) owner_fd) sys_quiet) (\<lambda>u.
     andthen (on_fail (each anchor_register (filter (\<lambda>p. \<not> starts_with p ''apps/'') pps)) sys_quiet) (\<lambda>u.
     andthen (if m_caps m = [] then ret () else write_policy owner_fd (m_exec m) (m_caps m)) (\<lambda>u.
     andthen (each (\<lambda>bc. write_policy owner_fd (bc_binary bc) (bc_caps bc)) (m_bincaps m)) (\<lambda>u.
     install_record ev dbp b m owner_fd))))))))"

definition install_bytes :: "env \<Rightarrow> string \<Rightarrow> buf \<Rightarrow> unit io" where
  "install_bytes ev dbp b =
     andthen (of_option (find_manifest b)) (\<lambda>m.
     andthen (rollback_guard ev dbp m) (\<lambda>u.
     if m_is_system m then install_system ev dbp b m else install_app ev dbp b m))"

subsection \<open>Commands\<close>

text \<open>\<open>strtok_r (deps, " ")\<close>\<close>

definition dep_names :: "string \<Rightarrow> string list" where
  "dep_names s = filter (\<lambda>t. t \<noteq> []) (split_on space (fit 256 s))"

fun unmet :: "string \<Rightarrow> string list \<Rightarrow> string list io" where
  "unmet dbp [] = ret []"
| "unmet dbp (t # ts) =
     andthen (db_has dbp t) (\<lambda>e.
     andthen (unmet dbp ts) (\<lambda>r. ret (if e = None then t # r else r)))"

definition warn_unmet_depends :: "herald_manifest \<Rightarrow> string list io" where
  "warn_unmet_depends m =
     (if m_depends m = [] then ret [] else unmet HERALD_DB_PATH (dep_names (m_depends m)))"

definition cmd_verify :: "env \<Rightarrow> string \<Rightarrow> herald_manifest io" where
  "cmd_verify ev path = andthen (load_verified_pkg (env_crypto ev) path) (\<lambda>bm. ret (snd bm))"

datatype info = Package_info herald_manifest | Installed_info herald_db_entry

definition cmd_info :: "env \<Rightarrow> string \<Rightarrow> info io" where
  "cmd_info ev arg =
     (if ends_with arg ''.hpkg''
      then andthen (load_verified_pkg (env_crypto ev) arg) (\<lambda>bm. ret (Package_info (snd bm)))
      else andthen (db_find HERALD_DB_PATH arg) (\<lambda>f.
        case f of None \<Rightarrow> throw EINVAL | Some e \<Rightarrow> ret (Installed_info e)))"

definition cmd_list :: "herald_db_entry list io" where
  "cmd_list = db_read HERALD_DB_PATH 256"

definition cmd_install :: "env \<Rightarrow> string \<Rightarrow> unit io" where
  "cmd_install ev path =
     andthen (load_verified_pkg (env_crypto ev) path) (\<lambda>bm.
     andthen transaction_begin (\<lambda>u.
     andthen (succeeds (install_bytes ev staged_db (fst bm))) (\<lambda>r.
     andthen (transaction_finish r) (\<lambda>u.
     ignore (warn_unmet_depends (snd bm))))))"

definition cmd_sync :: "env \<Rightarrow> nat io" where
  "cmd_sync ev = repo_sync (env_crypto ev) (env_curl ev)"

definition cmd_search :: "env \<Rightarrow> string \<Rightarrow> herald_stanza list io" where
  "cmd_search ev t = repo_search (env_crypto ev) t"

subsection \<open>Dependency resolution\<close>

text \<open>A loop over tokens that threads a set and stops at the first error.\<close>

fun through :: "('t \<Rightarrow> 's \<Rightarrow> 's io) \<Rightarrow> 't list \<Rightarrow> 's \<Rightarrow> 's io" where
  "through f [] s = ret s"
| "through f (t # ts) s = andthen (f t s) (\<lambda>s'. through f ts s')"

text \<open>The move of a package behind the dependencies that were queued after it.\<close>

definition move_last :: "nat \<Rightarrow> herald_stanza \<Rightarrow> herald_stanza list \<Rightarrow> herald_stanza list" where
  "move_last slot st queue =
     (if slot \<noteq> length queue - 1 then take slot queue @ drop (slot + 1) queue @ [st] else queue)"

text \<open>
  The recursion is bounded by the fuel.  Every level queues one package and the queue holds at
  most 64, so that 65 is enough.
\<close>

primrec resolve_pkg :: "env \<Rightarrow> bool \<Rightarrow> nat \<Rightarrow> string \<Rightarrow> herald_stanza list \<Rightarrow> herald_stanza list io" where
  "resolve_pkg ev upgrade 0 name queue = throw EINVAL"
| "resolve_pkg ev upgrade (Suc fuel) name queue =
     andthen (require (manifest_is_bare_name name)) (\<lambda>u.
     andthen (db_has HERALD_DB_PATH name) (\<lambda>de.
     if \<not> upgrade \<and> de \<noteq> None then ret queue
     else if list_ex (\<lambda>st. st_name st = name) queue then ret queue
     else
       andthen (repo_find (env_crypto ev) name) (\<lambda>f.
       case f of
         None \<Rightarrow> if de \<noteq> None then ret queue else throw EINVAL
       | Some st \<Rightarrow>
           if (case de of Some e \<Rightarrow> \<not> herald_version_gt (st_version st) (e_version e) | None \<Rightarrow> False) then ret queue
           else if length queue \<ge> HERALD_MAX_INSTALL then throw EINVAL
           else
             andthen (through (resolve_pkg ev upgrade fuel) (dep_names (st_depends st)) (queue @ [st])) (\<lambda>queue'.
             ret (move_last (length queue) st queue')))))"

definition resolve_fuel :: nat where
  "resolve_fuel = HERALD_MAX_INSTALL + 1"

subsection \<open>Applying a set\<close>

definition cache_path :: "herald_stanza \<Rightarrow> string" where
  "cache_path st = fit 256 (HERALD_CACHE_DIR @ ''/'' @ st_name st @ ''.hpkg'')"

definition fetch_one :: "env \<Rightarrow> herald_stanza \<Rightarrow> unit io" where
  "fetch_one ev st =
     andthen (herald_fetch (env_curl ev) (fit 800 (st_base_url st @ ''/'' @ st_filename st)) (cache_path st)) (\<lambda>u.
     andthen (read_file (cache_path st)) (\<lambda>pb.
     require (hex32 (sha256 (env_crypto ev) pb) = st_sha256 st)))"

definition apply_one :: "env \<Rightarrow> herald_stanza \<Rightarrow> unit io" where
  "apply_one ev st =
     andthen (read_file (cache_path st)) (\<lambda>pb.
     andthen (require (hex32 (sha256 (env_crypto ev) pb) = st_sha256 st)) (\<lambda>u.
     install_bytes ev staged_db pb))"

definition apply_set :: "env \<Rightarrow> herald_stanza list \<Rightarrow> unit io" where
  "apply_set ev queue =
     andthen (db_mkdir_p HERALD_CACHE_DIR) (\<lambda>u.
     andthen (each (fetch_one ev) queue) (\<lambda>u.
     andthen transaction_begin (\<lambda>u.
     andthen (succeeds (each (apply_one ev) queue)) (\<lambda>ok.
     transaction_finish ok))))"

definition cmd_install_named :: "env \<Rightarrow> string \<Rightarrow> unit io" where
  "cmd_install_named ev name =
     andthen (require (manifest_is_bare_name name)) (\<lambda>u.
     andthen (resolve_pkg ev False resolve_fuel name []) (\<lambda>queue.
     if queue = [] then ret () else apply_set ev queue))"

definition cmd_upgrade :: "env \<Rightarrow> string option \<Rightarrow> unit io" where
  "cmd_upgrade ev name =
     andthen (case name of
         Some i \<Rightarrow>
           andthen (require (manifest_is_bare_name i)) (\<lambda>u.
           andthen (db_has HERALD_DB_PATH i) (\<lambda>e.
           andthen (require (e \<noteq> None)) (\<lambda>u.
           resolve_pkg ev True resolve_fuel i [])))
       | None \<Rightarrow>
           andthen (db_read HERALD_DB_PATH 256) (\<lambda>es.
           through (resolve_pkg ev True resolve_fuel) (map e_id es) [])) (\<lambda>queue.
     if queue = [] then ret () else apply_set ev queue)"

text \<open>The removal of a package without an owner list; the file system has no permission errors.\<close>

definition legacy_remove :: "string \<Rightarrow> string \<Rightarrow> unit io" where
  "legacy_remove i ex =
     andthen (ignore (sys_unlink (fit 256 (''/apps/'' @ i @ ''/'' @ ex)))) (\<lambda>u.
     andthen (ignore (sys_unlink (fit 256 (''/apps/'' @ i @ ''/app.ini'')))) (\<lambda>u.
     andthen (ignore (sys_rmdir (fit 256 (''/apps/'' @ i)))) (\<lambda>u.
     andthen (ignore (sys_unlink (fit 256 (''/etc/aegis/caps.d/'' @ ex)))) (\<lambda>u.
     ignore (db_remove HERALD_DB_PATH i)))))"

definition cmd_remove :: "string \<Rightarrow> unit io" where
  "cmd_remove i =
     andthen (require (manifest_is_bare_name i)) (\<lambda>u.
     andthen (db_find HERALD_DB_PATH i) (\<lambda>f.
     case f of
       None \<Rightarrow> throw EINVAL
     | Some e \<Rightarrow>
         andthen (require (manifest_is_bare_name (e_exec e))) (\<lambda>u.
         andthen (succeeds (sys_lstat (fit 256 (owner_list i)))) (\<lambda>owned.
         if owned then
           andthen transaction_begin (\<lambda>u.
           andthen (txn_remove_owned i) (\<lambda>u.
           andthen (db_remove staged_db i) (\<lambda>removed.
           andthen (require removed) (\<lambda>u.
           transaction_finish True))))
         else legacy_remove i (e_exec e)))))"

subsection \<open>The dispatch\<close>

definition exit_of :: "'a io \<Rightarrow> nat io" where
  "exit_of m = handle (andthen m (\<lambda>x. ret 0)) (\<lambda>e. ret 1)"

definition dispatch :: "env \<Rightarrow> string list \<Rightarrow> nat io" where
  "dispatch ev args =
     (case args of
        [] \<Rightarrow> ret 2
      | c # rest \<Rightarrow>
          if c = ''list'' then exit_of cmd_list
          else if c = ''sync'' then exit_of (cmd_sync ev)
          else if c = ''upgrade'' then exit_of (cmd_upgrade ev (case rest of [] \<Rightarrow> None | a # r \<Rightarrow> Some a))
          else (case rest of
              [] \<Rightarrow> ret 2
            | a # r \<Rightarrow>
                if c = ''install'' then
                  (if ends_with a ''.hpkg'' then exit_of (cmd_install ev a) else exit_of (cmd_install_named ev a))
                else if c = ''verify'' then exit_of (cmd_verify ev a)
                else if c = ''info'' then exit_of (cmd_info ev a)
                else if c = ''remove'' then exit_of (cmd_remove a)
                else if c = ''search'' then exit_of (cmd_search ev a)
                else ret 2))"

text \<open>\<open>args\<close> is \<open>argv\<close> without the program name; the result is the exit status.\<close>

definition herald_main :: "env \<Rightarrow> string list \<Rightarrow> nat io" where
  "herald_main ev args =
     andthen (attempt txn_recover) (\<lambda>recovery.
     if recovery = Some True \<and> length args = 2 \<and> hd args = ''recover'' then
       (if args ! 1 = ''complete'' then exit_of txn_finalize
        else if args ! 1 = ''rollback'' then exit_of (andthen txn_rollback (\<lambda>u. ignore sys_quiet))
        else ret 1)
     else if recovery \<noteq> Some False then ret 1
     else dispatch ev args)"

end
