(* ===== verification/Herald_Resolve.thy ===== *)
theory Herald_Resolve
  imports Herald_Main
begin

text \<open>
  Dependency resolution: the recursion needs no more fuel than the bound on the queue, and the
  queue it builds has every package once and behind its dependencies.
\<close>

section \<open>The fuel is enough\<close>

lemma through_inv:
  assumes "\<And>t s w s' w'. P s \<Longrightarrow> f t s w = (Inr s', w') \<Longrightarrow> P s'" "P s" "through f ts s w = (Inr s', w')"
  shows "P s'"
  using assms(2,3)
proof (induction ts arbitrary: s w)
  case Nil
  then show ?case by (simp add: ret_def)
next
  case (Cons t ts)
  then obtain s1 w1 where "f t s w = (Inr s1, w1)" "through f ts s1 w1 = (Inr s', w')"
    by (auto simp: andthen_def split: prod.splits sum.splits)
  then show ?case using Cons assms(1) by blast
qed

lemma through_cong_inv:
  assumes "\<And>t s w. P s \<Longrightarrow> f t s w = g t s w" "\<And>t s w s' w'. P s \<Longrightarrow> f t s w = (Inr s', w') \<Longrightarrow> P s'" "P s"
  shows "through f ts s w = through g ts s w"
  using assms(3)
proof (induction ts arbitrary: s w)
  case (Cons t ts)
  show ?case
    using Cons assms(1)[OF Cons(2), of t w] assms(2)[OF Cons(2), of t w]
    by (auto simp: andthen_def split: prod.splits sum.splits)
qed simp

lemma move_last_length: "slot < length q \<Longrightarrow> length (move_last slot st q) = length q"
  by (auto simp: move_last_def)

lemma resolve_grows: "resolve_pkg ev up n name q w = (Inr q', w') \<Longrightarrow> length q \<le> length q'"
proof (induction n arbitrary: up name q w q' w')
  case 0
  then show ?case by (simp add: throw_def)
next
  case (Suc n)
  have t: "Suc (length q) \<le> length q2" if "through (resolve_pkg ev u n) ts (q @ [st]) w1 = (Inr q2, w2)" for u ts st w1 q2 w2
    using through_inv[where P = "\<lambda>s. Suc (length q) \<le> length s", OF _ _ that] Suc(1) by fastforce
  show ?case
    using Suc(2) by (auto simp: andthen_def ret_def throw_def move_last_length
        split: prod.splits sum.splits if_splits option.splits dest!: t)
qed

lemma resolve_fuel_enough:
  "1 \<le> n \<Longrightarrow> 1 \<le> m \<Longrightarrow> 65 \<le> n + length q \<Longrightarrow> 65 \<le> m + length q \<Longrightarrow>
   resolve_pkg ev up n name q w = resolve_pkg ev up m name q w"
proof (induction n arbitrary: m name q w)
  case (Suc n)
  then obtain k where m: "m = Suc k" by (cases m) auto
  have "through (resolve_pkg ev up n) ts (q @ [st]) w1 = through (resolve_pkg ev up k) ts (q @ [st]) w1"
    if "\<not> 64 \<le> length q" for ts st w1
  proof (rule through_cong_inv[where P = "\<lambda>s. Suc (length q) \<le> length s"])
    fix t w and s :: "herald_stanza list" assume "Suc (length q) \<le> length s"
    then show "resolve_pkg ev up n t s w = resolve_pkg ev up k t s w"
      using Suc(3-5) m that by (intro Suc(1)) auto
  qed (auto dest: resolve_grows)
  then show ?case
    unfolding m resolve_pkg.simps
    by (auto simp: andthen_def split: prod.splits sum.splits option.splits if_splits intro!: ext)
qed simp

section \<open>The order of the queue\<close>

definition deps :: "herald_stanza \<Rightarrow> string set" where
  "deps st = set (dep_names (st_depends st))"

abbreviation names :: "herald_stanza list \<Rightarrow> string set" where
  "names q \<equiv> st_name ` set q"

text \<open>
  Every package that is not still open has each dependency installed or, closed, among the packages
  \<open>S\<close> before it.
\<close>

fun ordered :: "(string \<Rightarrow> bool) \<Rightarrow> string set \<Rightarrow> string set \<Rightarrow> herald_stanza list \<Rightarrow> bool" where
  "ordered inst op S [] = True"
| "ordered inst op S (st # q) =
     ((st_name st \<in> op \<or> (\<forall>d \<in> deps st. inst d \<or> d \<in> S - op)) \<and> ordered inst op (insert (st_name st) S) q)"

lemma ordered_append: "ordered inst op S (xs @ ys) \<longleftrightarrow> ordered inst op S xs \<and> ordered inst op (S \<union> names xs) ys"
  by (induction xs arbitrary: S) auto

lemma ordered_close:
  assumes "ordered inst (insert n op) S q" "n \<notin> names q" "S - insert n op \<subseteq> T"
  shows "ordered inst op T q"
  using assms
proof (induction q arbitrary: S T)
  case (Cons st q)
  have "ordered inst op (insert (st_name st) T) q"
    using Cons(2-4) by (intro Cons(1)[of "insert (st_name st) S"]) auto
  moreover have "st_name st \<noteq> n" using Cons(3) by auto
  ultimately show ?case using Cons(2,4) by auto
qed simp

definition queue_ok :: "(string \<Rightarrow> bool) \<Rightarrow> (herald_stanza \<Rightarrow> bool) \<Rightarrow> string set \<Rightarrow> herald_stanza list \<Rightarrow> bool" where
  "queue_ok inst off op q \<longleftrightarrow> ordered inst op {} q \<and> distinct (map st_name q) \<and> op \<subseteq> names q \<and>
     (\<forall>st \<in> set q. off st) \<and> length q \<le> HERALD_MAX_INSTALL"

lemma queue_open:
  assumes "queue_ok inst off op q" "st_name st \<notin> names q" "off st" "length q < HERALD_MAX_INSTALL"
  shows "queue_ok inst off (insert (st_name st) op) (q @ [st])"
proof -
  have "ordered inst (insert n op) S q" if "ordered inst op S q" "n \<notin> S \<union> names q" for S n
    using that
  proof (induction q arbitrary: S)
    case (Cons x q)
    then show ?case by auto
  qed simp
  then show ?thesis using assms by (auto simp: queue_ok_def ordered_append image_iff)
qed

lemma queue_close:
  assumes q: "queue_ok inst off (insert (st_name st) op) (q @ st # add)" and n: "op \<subseteq> names q"
    and d: "\<forall>d \<in> deps st. inst d \<or> d \<in> names (q @ st # add) - insert (st_name st) op"
  shows "move_last (length q) st (q @ st # add) = q @ add @ [st]" "queue_ok inst off op (q @ add @ [st])"
proof -
  show "move_last (length q) st (q @ st # add) = q @ add @ [st]" by (simp add: move_last_def)
  have dn: "st_name st \<notin> names q" "st_name st \<notin> names add" "distinct (map st_name (q @ add @ [st]))"
    using q by (auto simp: queue_ok_def)
  have o: "ordered inst (insert (st_name st) op) {} q" "ordered inst (insert (st_name st) op) (insert (st_name st) (names q)) add"
    using q by (auto simp: queue_ok_def ordered_append)
  have "ordered inst op {} (q @ add)"
    unfolding ordered_append using ordered_close[OF o(1) dn(1), of "{}"] ordered_close[OF o(2) dn(2), of "names q"] by auto
  moreover have "\<forall>d \<in> deps st. inst d \<or> d \<in> names (q @ add) - op" using d by auto
  ultimately have "ordered inst op {} ((q @ add) @ [st])" unfolding ordered_append by simp
  then show "queue_ok inst off op (q @ add @ [st])" using q n dn(3) by (auto simp: queue_ok_def)
qed

section \<open>Resolution keeps the order\<close>

lemma db_path_live: "db_path_ok HERALD_DB_PATH"
proof -
  have "HERALD_DB_PATH = ''/etc/aegis/herald'' @ slash # ''db'' \<and> valid_name ''db''"
    by (simp add: HERALD_DB_PATH_def valid_name_def)
  then have "\<exists>d n. HERALD_DB_PATH = d @ slash # n \<and> valid_name n" by blast
  then show ?thesis by (simp add: db_path_ok_def file_path_def HERALD_DB_PATH_def)
qed

definition installed :: "fsys \<Rightarrow> string \<Rightarrow> bool" where
  "installed s i \<longleftrightarrow> db_lookup i (file_at s (resolve HERALD_DB_PATH)) \<noteq> None"

lemma db_has_triple:
  assumes "wf_fs s0"
  shows "valid F (\<lambda>s. s = s0) (db_has HERALD_DB_PATH i)
     (\<lambda>r s. (r \<noteq> None \<longrightarrow> installed s0 i) \<and> (F = no_faults \<and> db_usable s0 HERALD_DB_PATH \<longrightarrow> r = db_lookup i (file_at s0 (resolve HERALD_DB_PATH))) \<and> s = s0) E"
    (is "valid F _ _ ?Q _")
proof -
  let ?l = "db_lookup i (file_at s0 (resolve HERALD_DB_PATH))"
  have f: "valid F (\<lambda>s. s = s0) (db_find HERALD_DB_PATH i) (\<lambda>r s. r = ?l \<and> s = s0)
      (\<lambda>_ s. (F = no_faults \<longrightarrow> \<not> db_usable s0 HERALD_DB_PATH) \<and> s = s0)"
    unfolding db_find_def
    by (rule valid_andthen[where R = "\<lambda>es s. es = db_entries (file_at s0 (resolve HERALD_DB_PATH)) \<and> s = s0"],
        rule valid_conseq[OF db_load_triple[OF db_path_live assms]])
      (auto simp: db_lookup_def intro!: valid_ret)
  have "valid F (\<lambda>s. s = s0) (attempt (db_find HERALD_DB_PATH i))
      (\<lambda>r s. (r = Some ?l \<or> r = None \<and> (F = no_faults \<longrightarrow> \<not> db_usable s0 HERALD_DB_PATH)) \<and> s = s0) E"
    unfolding attempt_def
    by (rule valid_handle[where R = "\<lambda>_ s. (F = no_faults \<longrightarrow> \<not> db_usable s0 HERALD_DB_PATH) \<and> s = s0"],
        rule valid_andthen[OF f]) (auto intro!: valid_ret)
  then show ?thesis
    unfolding db_has_def
    by (rule valid_andthen) (auto simp: installed_def split: option.splits intro!: valid_ret dest: sym[of "Some _"])
qed

text \<open>What the trusted lists of the configured sources offer under a name.\<close>

definition repo_offers :: "crypto \<Rightarrow> fsys \<Rightarrow> herald_stanza \<Rightarrow> bool" where
  "repo_offers cy s st \<longleftrightarrow>
     (\<exists>b. file_at s (resolve HERALD_SOURCES) = Some b \<and> offered cy (file_at s) (st_name st) (sources_scan 16 b) st)"

lemma offered_name: "offered cy f name srcs st \<Longrightarrow> st_name st = name"
  by (auto simp: offered_def candidate_def)

lemma repo_find_offers:
  assumes "wf_fs s0"
  shows "valid F (\<lambda>s. s = s0) (repo_find cy name)
     (\<lambda>r s. (case r of None \<Rightarrow> True | Some st \<Rightarrow> repo_offers cy s0 st \<and> st_name st = name) \<and> s = s0) (\<lambda>_ s. s = s0)"
  by (rule valid_conseq[OF repo_find_triple[OF assms]])
    (auto simp: repo_offers_def split: option.splits dest: offered_name, (metis offered_name)+)

definition resolved :: "env \<Rightarrow> fsys \<Rightarrow> string set \<Rightarrow> string \<Rightarrow> herald_stanza list \<Rightarrow> herald_stanza list \<Rightarrow> bool" where
  "resolved ev s op name q q' \<longleftrightarrow> queue_ok (installed s) (repo_offers (env_crypto ev) s) op q' \<and>
     (\<exists>add. q' = q @ add) \<and> (installed s name \<or> name \<in> names q' - op)"

lemma through_resolved:
  assumes "\<And>t q. t \<in> set ts \<Longrightarrow> queue_ok (installed s0) (repo_offers (env_crypto ev) s0) op q \<Longrightarrow>
      valid F (\<lambda>s. s = s0) (f t q) (\<lambda>q' s. resolved ev s0 op t q q' \<and> s = s0) (\<lambda>_ s. s = s0)"
    and "queue_ok (installed s0) (repo_offers (env_crypto ev) s0) op q"
  shows "valid F (\<lambda>s. s = s0) (through f ts q)
     (\<lambda>q' s. (queue_ok (installed s0) (repo_offers (env_crypto ev) s0) op q' \<and> (\<exists>add. q' = q @ add) \<and>
        (\<forall>t \<in> set ts. installed s0 t \<or> t \<in> names q' - op)) \<and> s = s0) (\<lambda>_ s. s = s0)"
  using assms
proof (induction ts arbitrary: q)
  case Nil
  then show ?case by (auto intro!: valid_ret)
next
  case (Cons t ts)
  show ?case unfolding through.simps
  proof (rule valid_andthen[OF Cons(2)], goal_cases)
    case (3 q1)
    show ?case
    proof (rule valid_pull)
      assume r: "resolved ev s0 op t q q1"
      then have "valid F (\<lambda>s. s = s0) (through f ts q1)
         (\<lambda>q' s. (queue_ok (installed s0) (repo_offers (env_crypto ev) s0) op q' \<and> (\<exists>add. q' = q1 @ add) \<and>
            (\<forall>t \<in> set ts. installed s0 t \<or> t \<in> names q' - op)) \<and> s = s0) (\<lambda>_ s. s = s0)"
        by (intro Cons(1) Cons(2)) (auto simp: resolved_def)
      then show "valid F (\<lambda>s. s = s0) (through f ts q1)
         (\<lambda>q' s. (queue_ok (installed s0) (repo_offers (env_crypto ev) s0) op q' \<and> (\<exists>add. q' = q @ add) \<and>
            (\<forall>t \<in> set (t # ts). installed s0 t \<or> t \<in> names q' - op)) \<and> s = s0) (\<lambda>_ s. s = s0)"
        by (rule valid_conseq) (use r in \<open>auto simp: resolved_def\<close>)
    qed
  qed (use Cons(3) in auto)
qed

lemma resolve_pkg_triple:
  assumes wf: "wf_fs s0"
    and rank: "\<And>st d. repo_offers (env_crypto ev) s0 st \<Longrightarrow> d \<in> deps st \<Longrightarrow> rank d < (rank (st_name st) :: nat)"
  shows "queue_ok (installed s0) (repo_offers (env_crypto ev) s0) op q \<Longrightarrow> \<forall>x \<in> op. rank name < rank x \<Longrightarrow>
     valid F (\<lambda>s. s = s0) (resolve_pkg ev up n name q) (\<lambda>q' s. resolved ev s0 op name q q' \<and> s = s0) (\<lambda>_ s. s = s0)"
proof (induction n arbitrary: op q name)
  case 0
  then show ?case by (auto intro!: valid_throw)
next
  case (Suc n)
  let ?ok = "queue_ok (installed s0) (repo_offers (env_crypto ev) s0)"
  let ?Q = "\<lambda>q' s. resolved ev s0 op name q q' \<and> s = s0"
  have keep: "valid F (\<lambda>s. s = s0) (ret q) ?Q (\<lambda>_ s. s = s0)" if "installed s0 name \<or> name \<in> names q"
    using that Suc(2,3) by (auto simp: resolved_def intro!: valid_ret)
  have enq: "valid F (\<lambda>s. s = s0) (andthen (through (resolve_pkg ev up n) (dep_names (st_depends st)) (q @ [st]))
      (\<lambda>q'. ret (move_last (length q) st q'))) ?Q (\<lambda>_ s. s = s0)"
    if st: "repo_offers (env_crypto ev) s0 st" "st_name st = name" and nq: "name \<notin> names q" and l: "length q < HERALD_MAX_INSTALL" for st
  proof (rule valid_andthen)
    have o: "?ok (insert name op) (q @ [st])" using queue_open[OF Suc(2), of st] st nq l by auto
    show "valid F (\<lambda>s. s = s0) (through (resolve_pkg ev up n) (dep_names (st_depends st)) (q @ [st]))
       (\<lambda>q' s. (?ok (insert name op) q' \<and> (\<exists>add. q' = (q @ [st]) @ add) \<and>
          (\<forall>t \<in> set (dep_names (st_depends st)). installed s0 t \<or> t \<in> names q' - insert name op)) \<and> s = s0) (\<lambda>_ s. s = s0)"
    proof (rule through_resolved[OF _ o])
      fix t q1 assume "t \<in> set (dep_names (st_depends st))" and q1: "?ok (insert name op) q1"
      then have "rank t < rank name" using rank[OF st(1)] st(2) by (simp add: deps_def)
      then show "valid F (\<lambda>s. s = s0) (resolve_pkg ev up n t q1) (\<lambda>q' s. resolved ev s0 (insert name op) t q1 q' \<and> s = s0) (\<lambda>_ s. s = s0)"
        using Suc(3) by (intro Suc(1)[OF q1]) auto
    qed
    have oq: "op \<subseteq> names q" using Suc(2) by (simp add: queue_ok_def)
    show "valid F (\<lambda>s. (?ok (insert name op) q' \<and> (\<exists>add. q' = (q @ [st]) @ add) \<and>
          (\<forall>t \<in> set (dep_names (st_depends st)). installed s0 t \<or> t \<in> names q' - insert name op)) \<and> s = s0)
       (ret (move_last (length q) st q')) ?Q (\<lambda>_ s. s = s0)" for q'
    proof (rule valid_pull, rule valid_ret)
      fix s assume h: "?ok (insert name op) q' \<and> (\<exists>add. q' = (q @ [st]) @ add) \<and>
          (\<forall>t \<in> set (dep_names (st_depends st)). installed s0 t \<or> t \<in> names q' - insert name op)" and s: "s = s0"
      then obtain add where a: "q' = q @ st # add" by auto
      have c: "move_last (length q) st q' = q @ add @ [st]" "?ok op (q @ add @ [st])"
        using queue_close[of "installed s0" "repo_offers (env_crypto ev) s0" st op q add] h oq st(2)
        by (simp_all add: a deps_def)
      show "resolved ev s0 op name q (move_last (length q) st q') \<and> s = s0"
        unfolding c(1) using c(2) s nq oq st(2) by (auto simp: resolved_def)
    qed
  qed
  let ?go = "\<lambda>(de :: herald_db_entry option) f. case f of
      None \<Rightarrow> if de \<noteq> None then ret q else throw EINVAL
    | Some st \<Rightarrow>
        if (case de of Some e \<Rightarrow> \<not> herald_version_gt (st_version st) (e_version e) | None \<Rightarrow> False) then ret q
        else if length q \<ge> HERALD_MAX_INSTALL then throw EINVAL
        else andthen (through (resolve_pkg ev up n) (dep_names (st_depends st)) (q @ [st])) (\<lambda>q'.
          ret (move_last (length q) st q'))"
  let ?look = "\<lambda>de. if \<not> up \<and> de \<noteq> None then ret q
    else if list_ex (\<lambda>st. st_name st = name) q then ret q
    else andthen (repo_find (env_crypto ev) name) (?go de)"
  have inq: "list_ex (\<lambda>st. st_name st = name) q \<longleftrightarrow> name \<in> names q" by (auto simp: list_ex_iff)
  have rf: "valid F (\<lambda>s. s = s0) (andthen (repo_find (env_crypto ev) name) (?go de)) ?Q (\<lambda>_ s. s = s0)"
    if "name \<notin> names q" "de \<noteq> None \<longrightarrow> installed s0 name" for de
    by (rule valid_andthen[OF repo_find_offers[OF wf]], rule valid_pull)
      (use keep enq that in \<open>auto simp: not_le split: option.splits intro!: valid_throw\<close>)
  have look: "valid F (\<lambda>s. s = s0) (?look de) ?Q (\<lambda>_ s. s = s0)" if "de \<noteq> None \<longrightarrow> installed s0 name" for de
    unfolding inq by (intro valid_if) ((rule keep; use that in blast) | (rule rf; use that in blast))+
  have "valid F (\<lambda>s. s = s0) (andthen (db_has HERALD_DB_PATH name) ?look) ?Q (\<lambda>_ s. s = s0)"
    by (rule valid_andthen[OF db_has_triple[OF wf]], rule valid_pull, rule valid_pull, rule look)
  then show ?case
    unfolding resolve_pkg.simps by (rule require_then) auto
qed

section \<open>Properties\<close>

text \<open>
  C19: resolution terminates.  The recursion of \<open>resolve\<close> never goes deeper than the bound on the
  queue: more fuel than \<open>resolve_fuel\<close> changes no result, dependency cycles included.
\<close>

theorem resolve_terminates:
  assumes "resolve_fuel \<le> n"
  shows "resolve_pkg ev upgrade n name [] w = resolve_pkg ev upgrade resolve_fuel name [] w"
  using assms by (intro resolve_fuel_enough) (simp_all add: resolve_fuel_def)

lemma ordered_nth:
  "ordered inst {} S q \<Longrightarrow> i < length q \<Longrightarrow> d \<in> deps (q ! i) \<Longrightarrow> inst d \<or> d \<in> S \<union> names (take i q)"
proof (induction q arbitrary: S i)
  case (Cons st q)
  then show ?case by (cases i) auto
qed simp


section \<open>A concrete resolution\<close>

lemma calm_world: "within no_faults w \<Longrightarrow> within no_faults w' \<Longrightarrow> fs w = fs w' \<Longrightarrow> w = w'"
  by (cases w, cases w') (auto simp: within_def)

definition toy_env :: env where
  "toy_env = \<lparr>env_crypto = toy_crypto, env_curl = (\<lambda>u p. throw EIO), env_allow_downgrade = False\<rparr>"

theorem resolve_terminates_witness:
  "resolve_pkg toy_env False 1000 ''a'' [] toy_repo = resolve_pkg toy_env False resolve_fuel ''a'' [] toy_repo"
  by (rule resolve_terminates) (simp add: resolve_fuel_def)

lemma toy_not_installed: "db_has HERALD_DB_PATH ''a'' toy_repo = (Inr None, toy_repo)"
proof -
  obtain r w1 where run: "db_has HERALD_DB_PATH ''a'' toy_repo = (r, w1)" by fastforce
  have u: "db_usable (fs toy_repo) HERALD_DB_PATH" 
  proof -
    have r: "resolve HERALD_DB_PATH = [''etc'', ''aegis'', ''herald'', ''db'']"
      "resolve (db_tmp HERALD_DB_PATH) = [''etc'', ''aegis'', ''herald'', ''db.tmp'']" by code_simp+
    show ?thesis unfolding db_usable_def r
      by (auto simp: clear_upto_def toy_repo_def prefix_Cons)
  qed
  have n: "file_at (fs toy_repo) (resolve HERALD_DB_PATH) = None" by code_simp
  have l: "db_lookup ''a'' None = None" by (simp add: db_lookup_def db_entries_def entries_find_def)
  from valid_run[OF db_has_triple[OF toy_facts(1), where E = "\<lambda>_ _. False"] refl toy_facts(2) run] u n l
  have "r = Inr None" "within no_faults w1" "fs w1 = fs toy_repo" by (auto split: sum.splits)
  then show ?thesis using run calm_world[OF _ toy_facts(2)] by simp
qed

lemma toy_offers:
  assumes "repo_offers (env_crypto toy_env) (fs toy_repo) st"
  shows "st = toy_stanza\<lparr>st_base_url := ''http://r''\<rparr>"
proof -
  obtain src p st0 where "src \<in> set (sources_scan 16 (''http://r s main'' @ [newline]))"
    "verified_list toy_crypto (file_at (fs toy_repo)) src = Some p" "st0 \<in> set (stanzas p)"
    "st = st0\<lparr>st_base_url := fit 256 (s_url src)\<rparr>"
    using assms toy_facts(3) by (auto simp: repo_offers_def offered_def toy_env_def)
  moreover have "sources_scan 16 (''http://r s main'' @ [newline]) = [toy_source]" "stanzas toy_packages = [toy_stanza]"
    "fit 256 (s_url toy_source) = ''http://r''" by code_simp+
  ultimately show ?thesis using toy_facts(5) by simp
qed


end
