(* ===== verification/Herald_Stage.thy ===== *)
theory Herald_Stage
  imports Herald_Resolve Herald_Txn_Atomic
begin

text \<open>
  What an installation may change before the commit, and what its guards enforce: until the
  commit only the transaction directory is written; a third-party package owns its own
  capability policy only and requests allowed capabilities only; no older version replaces
  a newer one.
\<close>

section \<open>Nothing outside the staging area changes\<close>

text \<open>The staging area: the staged tree and the list of deletions.\<close>

definition staging :: "fpath \<Rightarrow> bool" where
  "staging x \<longleftrightarrow> prefix stagep x \<or> x = deletep"

definition kept :: "fsys \<Rightarrow> fsys \<Rightarrow> bool" where
  "kept s0 s \<longleftrightarrow> wf_fs s \<and> (\<forall>x. \<not> staging x \<longrightarrow> file_at s x = file_at s0 x)"

abbreviation keeps :: "fault set \<Rightarrow> fsys \<Rightarrow> 'a io \<Rightarrow> bool" where
  "keeps F s0 m \<equiv> valid F (kept s0) m (\<lambda>_. kept s0) (\<lambda>_. kept s0)"

named_theorems keeping "programs that keep the files outside the staging area"

lemma keeps_basic [keeping]:
  "keeps F s0 (ret x)" "keeps F s0 (throw e)" "keeps F s0 (require b)" "keeps F s0 (of_option y)"
  by (auto simp: require_def of_option_def intro!: valid_ret valid_throw split: option.split)

lemma keeps_andthen [keeping]: "keeps F s0 m \<Longrightarrow> (\<And>x. keeps F s0 (f x)) \<Longrightarrow> keeps F s0 (andthen m f)"
  by (rule valid_andthen)

lemma keeps_handlers [keeping]:
  "keeps F s0 m \<Longrightarrow> keeps F s0 (ignore m)" "keeps F s0 m \<Longrightarrow> keeps F s0 c \<Longrightarrow> keeps F s0 (on_fail m c)"
  "keeps F s0 m \<Longrightarrow> keeps F s0 (optional m)" "keeps F s0 m \<Longrightarrow> keeps F s0 (succeeds m)"
  "keeps F s0 m \<Longrightarrow> keeps F s0 (attempt m)"
  unfolding attempt_def
  by (rule valid_ignore valid_on_fail valid_optional_keep valid_succeeds, assumption+)+
    (rule valid_handle, rule valid_andthen, assumption, auto intro!: valid_ret)

lemma keeps_quiet: "(\<And>s. snd (f s) = s) \<Longrightarrow> keeps F s0 (syscall f)"
  by (rule quiet_call)

lemma keeps_reads [keeping]:
  "keeps F s0 sys_quiet" "keeps F s0 (sys_lstat p)" "keeps F s0 (sys_open_read p)" "keeps F s0 (sys_open_append p)"
  by (rule keeps_quiet; simp add: fs_lstat_def fs_open_read_def fs_open_append_def split: sum.split node.split)+

lemma keeps_each [keeping]: "(\<And>x. x \<in> set xs \<Longrightarrow> keeps F s0 (f x)) \<Longrightarrow> keeps F s0 (each f xs)"
proof (induction xs)
  case (Cons x xs)
  then show ?case by (auto intro: keeps_andthen)
qed (simp add: keeps_basic)

lemma kept_wf: "kept s0 s \<Longrightarrow> wf_fs s"
  by (simp add: kept_def)

lemma kept_trans:
  "kept s0 s \<Longrightarrow> wf_fs t \<Longrightarrow> (\<And>x. \<not> staging x \<Longrightarrow> file_at t x = file_at s x) \<Longrightarrow> kept s0 t"
  by (simp add: kept_def)

lemma kept_append:
  assumes "staging p" "kept s0 s"
  shows "kept s0 (fs_append p d s)"
proof -
  have "files_are (Some p) (file_at s) s" using assms(2) by (simp add: files_are_def kept_def)
  then have "files_are (Some p) (file_at s) (fs_append p d s)" by (rule files_are_own_append)
  then show ?thesis using assms by (auto simp: files_are_def kept_def)
qed

lemma keeps_write:
  assumes "staging p"
  shows "keeps F s0 (write_all p d)" "keeps F s0 (write_once p d)"
proof -
  have "valid F (kept s0) (write_all p d) (\<lambda>_. kept s0) (\<lambda>_ s. F \<noteq> no_faults \<and> (\<exists>y :: buf. kept s0 s))"
    by (rule valid_write_all[where A = "\<lambda>x. kept s0" and x = "[]"]) (rule kept_append[OF assms])
  then show "keeps F s0 (write_all p d)" by (rule valid_conseq) auto
  show "keeps F s0 (write_once p d)" using kept_append[OF assms] by (intro valid_write_once) auto
qed

lemma open_trunc_kept:
  assumes "nul \<notin> set path" "staging (resolve path)"
  shows "valid F (kept s0) (sys_open_trunc path m) (\<lambda>fd s. fd = resolve path \<and> kept s0 s) (\<lambda>_. kept s0)"
proof (rule valid_pointwise)
  fix s assume k: "kept s0 s"
  have v: "valid F (\<lambda>t. t = s) (sys_open_trunc path m)
      (\<lambda>fd t. fd = resolve path \<and> files_are None ((file_at s)(resolve path \<mapsto> [])) t) (\<lambda>_. files_are None (file_at s))"
    by (rule valid_pre[OF open_trunc_files_are[OF assms(1)]]) (use k in \<open>simp add: files_are_def kept_def\<close>)
  show "valid F (\<lambda>t. t = s) (sys_open_trunc path m) (\<lambda>fd s. fd = resolve path \<and> kept s0 s) (\<lambda>_. kept s0)"
    by (rule valid_conseq[OF v]) (use k assms(2) in \<open>auto simp: files_are_def kept_def\<close>)
qed

lemma keeps_open_then [keeping]:
  assumes "nul \<notin> set path" "staging (resolve path)" "keeps F s0 (f (resolve path))"
  shows "keeps F s0 (andthen (sys_open_trunc path m) f)"
  by (rule valid_andthen[OF open_trunc_kept[OF assms(1,2)]], rule valid_pull) (use assms(3) in simp)

lemma keeps_mkdir:
  assumes "nul \<notin> set y"
  shows "keeps F s0 (mkdir_one y)"
proof (rule valid_pointwise)
  fix s assume k: "kept s0 s"
  have "valid F (\<lambda>t. t = s) (mkdir_one y) (\<lambda>_. files_are None (file_at s)) (\<lambda>_. files_are None (file_at s))"
    by (rule valid_pre[OF mkdir_one_files_are[OF assms]]) (use k in \<open>simp add: files_are_def kept_def\<close>)
  then show "valid F (\<lambda>t. t = s) (mkdir_one y) (\<lambda>_. kept s0) (\<lambda>_. kept s0)"
    by (rule valid_conseq) (use k in \<open>auto simp: files_are_def kept_def\<close>)
qed

lemma keeps_parent_dirs [keeping]:
  assumes "nul \<notin> set path"
  shows "keeps F s0 (parent_dirs path)"
proof -
  have "keeps F s0 (mkdir_p p)" if "nul \<notin> set p" for p
    unfolding mkdir_p_def
    by (intro keeping keeps_mkdir) (use that slash_prefixes_member[of _ p] in fastforce)+
  moreover have "nul \<notin> set (take i path)" for i using assms by (meson in_set_takeD)
  ultimately show ?thesis unfolding parent_dirs_def by (auto intro!: keeping split: option.split)
qed

lemma in_butlast_or_last: "x \<in> set xs \<Longrightarrow> x \<in> set (butlast xs) \<or> x = last xs"
  by (induction xs) auto

lemma safe_rel_no_dotdot: "safe_rel rel \<Longrightarrow> ''..'' \<notin> set (split_on slash rel)"
proof
  assume r: "safe_rel rel" and "''..'' \<in> set (split_on slash rel)"
  then consider "''..'' \<in> set (butlast (split_on slash rel))" | "last (split_on slash rel) = ''..''"
    using in_butlast_or_last by metis
  then show False
  proof cases
    case 1
    then show ?thesis using r safe_scan_iff[of rel] by (auto simp: safe_rel_def list_all_iff plain_def)
  next
    case 2
    then show ?thesis using r safe_scan_iff[of rel] by (auto simp: safe_rel_def plain_def)
  qed
qed

lemma stage_path:
  assumes "txn_stage_path sz rel = Some path" "nul \<notin> set rel"
  shows "nul \<notin> set path" "staging (resolve path)"
proof -
  have p: "path = HERALD_TXN_STAGE @ slash # rel" "safe_rel rel"
    using assms(1) by (auto simp: txn_stage_path_def split: if_splits)
  show "staging (resolve path)"
    unfolding p(1) resolve_join[OF safe_rel_no_dotdot[OF p(2)]] by (simp add: staging_def)
  show "nul \<notin> set path" using assms(2) by (simp add: p(1))
qed

section \<open>The steps of an installation\<close>

lemma staged_db_path: "db_path_ok staged_db" "staging (resolve staged_db)" "staging (resolve (db_tmp staged_db))"
proof -
  have e: "staged_db = ''/etc/aegis/herald/transaction/stage/etc/aegis/herald'' @ slash # ''db''"
    "db_tmp staged_db = HERALD_TXN_STAGE @ slash # ''etc/aegis/herald/db.tmp''"
    "staged_db = HERALD_TXN_STAGE @ slash # ''etc/aegis/herald/db''"
    by (simp_all add: staged_db_def txn_path_defs)
  show "db_path_ok staged_db" unfolding db_path_ok_def file_path_def e(1)
    by (intro conjI exI[of _ "''/etc/aegis/herald/transaction/stage/etc/aegis/herald''"] exI[of _ "''db''"])
      (simp_all add: valid_name_def)
  show "staging (resolve staged_db)" unfolding e(3) by (subst resolve_join) (simp_all add: staging_def)
  show "staging (resolve (db_tmp staged_db))" unfolding e(2) by (subst resolve_join) (simp_all add: staging_def)
qed

lemma keeps_db_put [keeping]: "keeps F s0 (db_put staged_db e)"
proof (rule valid_pointwise)
  fix s assume k: "kept s0 s"
  show "valid F (\<lambda>t. t = s) (db_put staged_db e) (\<lambda>_. kept s0) (\<lambda>_. kept s0)"
    by (rule valid_conseq[OF db_put_triple[OF staged_db_path(1) kept_wf[OF k]]])
      (blast, (rule kept_trans[OF k], blast, use staged_db_path(2,3) in metis)+)
qed

lemma keeps_extract [keeping]:
  assumes "staging owner"
  shows "keeps F s0 (tar_extract_mem_owned b HERALD_TXN_STAGE allowed owner)"
proof (rule valid_pointwise)
  fix s assume k: "kept s0 s"
  have r: "root_ok HERALD_TXN_STAGE" by (simp add: root_ok_def)
  have p: "kept s0 t" if "partly (Some owner) (footprint HERALD_TXN_STAGE allowed) (file_at s) t" for t
    using that k assms by (auto simp: partly_def kept_def footprint_def staging_def)
  show "valid F (\<lambda>t. t = s) (tar_extract_mem_owned b HERALD_TXN_STAGE allowed owner) (\<lambda>_. kept s0) (\<lambda>_. kept s0)"
    unfolding tar_extract_mem_owned_def
    by (rule valid_conseq[OF tar_extract_walk_triple[OF r, of F "Some owner" "file_at s"]])
      (use k p in \<open>auto simp: files_are_def kept_def\<close>)
qed

lemma owner_open_kept:
  assumes "nul \<notin> set i"
  shows "valid F (kept s0) (txn_owner_open i) (\<lambda>fd s. staging fd \<and> kept s0 s) (\<lambda>_. kept s0)"
  unfolding txn_owner_open_def
proof (rule valid_andthen[OF keeps_basic(3)])
  show "valid F (kept s0) (case txn_stage_path TXN_PATH_MAX (tl (owner_list i)) of
       None \<Rightarrow> throw EINVAL | Some path \<Rightarrow> andthen (parent_dirs path) (\<lambda>u. sys_open_trunc path 420))
       (\<lambda>fd s. staging fd \<and> kept s0 s) (\<lambda>_. kept s0)" for u :: unit
  proof (cases "txn_stage_path TXN_PATH_MAX (tl (owner_list i))")
    case None
    then show ?thesis by (simp add: valid_throw)
  next
    case (Some path)
    have "nul \<notin> set (tl (owner_list i))" using assms by (simp add: owner_list_def txn_path_defs)
    note p = stage_path[OF Some this]
    have "valid F (kept s0) (andthen (parent_dirs path) (\<lambda>u. sys_open_trunc path 420))
        (\<lambda>fd s. staging fd \<and> kept s0 s) (\<lambda>_. kept s0)"
      by (rule valid_andthen[OF keeps_parent_dirs[OF p(1)]])
        (rule valid_conseq[OF open_trunc_kept[OF p]], use p(2) in auto)
    then show ?thesis using Some by simp
  qed
qed

lemma keeps_owner_add [keeping]: "staging fd \<Longrightarrow> keeps F s0 (txn_owner_add fd path)"
  unfolding txn_owner_add_def by (intro keeping keeps_write)

lemma open_append_kept:
  "valid F (kept s0) (sys_open_append p) (\<lambda>fd s. fd = resolve p \<and> kept s0 s) (\<lambda>_. kept s0)"
  by (rule valid_syscall) (auto simp: fs_open_append_def split: sum.split node.split)

lemma keeps_queue_delete [keeping]: "keeps F s0 (queue_delete path)"
proof -
  have s: "staging deletep" by (simp add: staging_def)
  have "keeps F s0 (andthen (sys_open_append TXN_DELETE) (\<lambda>fd. andthen (write_once fd path) (\<lambda>u.
      andthen (write_once fd [newline]) (\<lambda>u. andthen sys_quiet (\<lambda>u. sys_quiet)))))"
  proof (rule valid_andthen[OF open_append_kept], rule valid_pull)
    fix fd assume "fd = resolve TXN_DELETE"
    then show "keeps F s0 (andthen (write_once fd path) (\<lambda>u. andthen (write_once fd [newline]) (\<lambda>u.
        andthen sys_quiet (\<lambda>u. sys_quiet))))"
      using s by (auto intro!: keeping keeps_write)
  qed
  from keeps_andthen[OF keeps_basic(3) this] show ?thesis unfolding queue_delete_def .
qed

lemma keeps_if [keeping]: "keeps F s0 m \<Longrightarrow> keeps F s0 m' \<Longrightarrow> keeps F s0 (if b then m else m')"
  by simp

lemma keeps_option [keeping]:
  "keeps F s0 m \<Longrightarrow> (\<And>x. keeps F s0 (f x)) \<Longrightarrow> keeps F s0 (case y of None \<Rightarrow> m | Some x \<Rightarrow> f x)"
  by (cases y) simp_all

lemma keeps_owner_finish [keeping]: "keeps F s0 (owner_finish fd i)"
  unfolding owner_finish_def txn_remove_stale_def by (intro keeping)

lemma keeps_db_has [keeping]: "keeps F s0 (db_has dbp i)"
  unfolding db_has_def db_find_def db_load_def by (intro keeping)

lemma keeps_policy_exists [keeping]: "keeps F s0 (policy_exists name)"
  unfolding policy_exists_def by (intro keeping)

lemma policy_path_staged:
  assumes "staged_policy_path name = Some cp" "nul \<notin> set name"
  shows "nul \<notin> set cp" "staging (resolve cp)"
proof -
  have "txn_stage_path 768 (''etc/aegis/caps.d/'' @ name) = Some cp"
    using assms(1) by (simp add: staged_policy_path_def split: if_splits)
  from stage_path[OF this] assms(2) show "nul \<notin> set cp" "staging (resolve cp)" by simp_all
qed

lemma keeps_of_option_then:
  assumes "\<And>x. y = Some x \<Longrightarrow> keeps F s0 (f x)"
  shows "keeps F s0 (andthen (of_option y) f)"
proof (cases y)
  case None
  then have "andthen (of_option y) f = throw EINVAL" by (simp add: fun_eq_iff of_option_def andthen_def throw_def)
  then show ?thesis by (simp add: keeps_basic)
next
  case (Some x)
  then have "andthen (of_option y) f = f x" by (simp add: fun_eq_iff of_option_def andthen_def ret_def)
  then show ?thesis using assms[OF Some] by simp
qed

lemma keeps_write_policy [keeping]:
  assumes "staging fd" "nul \<notin> set name"
  shows "keeps F s0 (write_policy fd name caps)"
  unfolding write_policy_def
  by (intro keeps_handlers keeps_reads keeps_of_option_then keeps_open_then keeps_andthen keeps_write keeps_owner_add)
    (use assms in \<open>auto dest: policy_path_staged\<close>)

lemma append_create_kept:
  assumes "nul \<notin> set path" "staging (resolve path)"
  shows "valid F (kept s0) (syscall (fs_open_append_create path)) (\<lambda>fd s. fd = resolve path \<and> kept s0 s) (\<lambda>_. kept s0)"
proof (rule valid_syscall)
  fix s assume k: "kept s0 s"
  let ?w = "\<lparr>fs = s, sched = \<lambda>n. NoFault\<rparr>"
  have "case fs_open_trunc path 438 s of (Inr fd, s') \<Rightarrow> fd = resolve path \<and> kept s0 s' | (Inl e, s') \<Rightarrow> kept s0 s'"
    using valid_run[OF open_trunc_kept[OF assms, of UNIV s0 438], of ?w] k
    by (auto simp: within_def syscall_def split: prod.split sum.split)
  then show "case fs_open_append_create path s of (Inr fd, s') \<Rightarrow> fd = resolve path \<and> kept s0 s' | (Inl e, s') \<Rightarrow> kept s0 s'"
    using k by (auto simp: fs_open_append_create_def fs_open_append_def split: sum.splits errno.splits node.splits)
qed auto

lemma keeps_anchor_register [keeping]: "keeps F s0 (anchor_register rel)"
proof -
  let ?file = "HERALD_TXN_STAGE @ HERALD_ANCHORS_FILE"
  have e: "?file = HERALD_TXN_STAGE @ slash # ''etc/aegis/anchors''" by (simp add: HERALD_ANCHORS_FILE_def)
  have n: "nul \<notin> set ?file" by (simp add: HERALD_ANCHORS_FILE_def)
  have st: "staging (resolve ?file)" unfolding e by (subst resolve_join) (simp_all add: staging_def)
  have k: "keeps F s0 (andthen (syscall (fs_open_append_create ?file)) (\<lambda>fd. ignore (write_all fd d)))" for d
    by (rule valid_andthen[OF append_create_kept[OF n st]], rule valid_pull) (use st in \<open>auto intro!: keeping keeps_write\<close>)
  show ?thesis unfolding anchor_register_def Let_def
    by (rule keeps_andthen[OF keeps_basic(3)], rule keeps_andthen[OF keeps_handlers(5)[OF keeps_reads(3)]],
        rule keeps_if[OF keeps_basic(1) k])
qed

lemma keeps_owner_then:
  assumes "nul \<notin> set i" "\<And>fd. staging fd \<Longrightarrow> keeps F s0 (f fd)"
  shows "keeps F s0 (andthen (txn_owner_open i) f)"
  by (rule valid_andthen[OF owner_open_kept[OF assms(1)]], rule valid_pull, rule assms(2))

lemma keeps_guards [keeping]: "keeps F s0 (rollback_guard ev dbp m)" "keeps F s0 (caps_guard dbp m)" "keeps F s0 (bincaps_guard dbp m)"
  unfolding rollback_guard_def caps_guard_def bincaps_guard_def bincap_guard_def by (intro keeping)+

lemma keeps_record [keeping]: "keeps F s0 (install_record ev staged_db b m fd)"
  unfolding install_record_def by (intro keeping)

lemma parsed_names:
  assumes "manifest_parse b = Some m"
  shows "nul \<notin> set (m_id m)" "nul \<notin> set (m_exec m)" "bc \<in> set (m_bincaps m) \<Longrightarrow> nul \<notin> set (bc_binary bc)"
proof -
  have "wf_fields m"
    using assms manifest_loop_wf[OF wf_fields_zero] by (auto simp: manifest_parse_def split: option.splits if_splits)
  then show "nul \<notin> set (m_id m)" "nul \<notin> set (m_exec m)" "bc \<in> set (m_bincaps m) \<Longrightarrow> nul \<notin> set (bc_binary bc)"
    by (auto simp: wf_fields_def wf_bincap_def list_all_iff dest!: clean_no_nul)
qed

lemma keeps_install:
  assumes "manifest_parse md = Some m"
  shows "keeps F s0 (install_system ev staged_db b m)" "keeps F s0 (install_app ev staged_db b m)"
  unfolding install_system_def install_app_def using parsed_names[OF assms]
  by (auto intro!: keeping keeps_owner_then)

lemma find_manifest_parsed: "find_manifest b = Some m \<Longrightarrow> \<exists>md. manifest_parse md = Some m"
  by (auto simp: find_manifest_def split: sum.splits option.splits)

lemma keeps_install_bytes: "keeps F s0 (install_bytes ev staged_db b)"
  unfolding install_bytes_def
  by (intro keeps_of_option_then keeps_andthen keeps_guards keeps_if)
    (use find_manifest_parsed keeps_install in blast)+

section \<open>Recovery of a transaction that was not committed\<close>

lemma rollback_empty_journal:
  assumes "wf_fs s" "file_at s journalp = Some []"
  shows "valid F (\<lambda>t. t = s) rollback (\<lambda>_ t. t = s) (\<lambda>_ t. t = s)"
  unfolding rollback_def
proof (rule valid_andthen[OF valid_optional])
  let ?Q = "\<lambda>f t. t = s \<and> (\<forall>st. f = Some st \<longrightarrow> fst st = [])"
  obtain m where m: "map_of s journalp = Some (Reg [] m)" using assms(2) by (auto simp: file_at_Some)
  have "fs_find TXN_JOURNAL s = Inr (Reg [] m)" by (rule fs_find_present[OF assms(1)]) (simp_all add: m)
  then show "valid F (\<lambda>t. t = s) (sys_open_read TXN_JOURNAL) (\<lambda>x. ?Q (Some x))
      (\<lambda>e t. if e = ENOENT then ?Q None t else t = s)"
    by (intro valid_syscall) (auto simp: fs_open_read_def)
  show "valid F (?Q f) (case f of None \<Rightarrow> ret () | Some st \<Rightarrow> each rollback_line (fgets_lines (TXN_PATH_MAX + 4) (fst st)))
      (\<lambda>_ t. t = s) (\<lambda>_ t. t = s)" for f
    by (cases f) (auto intro!: valid_ret valid_pull simp: valid_def fgets_lines.simps ret_def)
qed

lemma recover_prepared_triple:
  assumes wf: "wf_fs s" and st: "file_at s statep = Some prepared_mark" and j: "file_at s journalp = Some []"
  shows "valid no_faults (\<lambda>t. t = s) txn_recover (\<lambda>_. old_files s) (\<lambda>_. old_files s)"
proof (rule recover_state_triple[OF wf])
  have sh: "old_files s t" if "shrunk txnp s t" for t
    unfolding old_files_def
  proof (intro allI impI)
    fix x assume "\<not> prefix txnp x"
    then have "map_of t x = map_of s x" using that by (auto simp: shrunk_def)
    then show "file_at t x = file_at s x" by (simp add: file_at_def)
  qed
  have rm: "valid no_faults (\<lambda>t. t = s) (remove_tree HERALD_TXN_DIR) (\<lambda>_. old_files s) (\<lambda>_. old_files s)"
    by (intro valid_conseq[OF remove_tree_triple[of txnp HERALD_TXN_DIR no_faults s]])
      (auto simp: shrunk_refl[OF wf] sh, simp_all add: txnp_def)
  have "valid no_faults (\<lambda>t. t = s) (andthen rollback (\<lambda>u. andthen (remove_tree HERALD_TXN_DIR) (\<lambda>u. ret False)))
      (\<lambda>_. old_files s) (\<lambda>_. old_files s)"
    by (rule valid_andthen[where R = "\<lambda>_ t. t = s"], rule valid_conseq[OF rollback_empty_journal[OF wf j]])
      (auto intro!: valid_andthen[OF rm] valid_ret simp: old_files_def)
  then show "valid no_faults (\<lambda>t. t = s) (recover_from c) (\<lambda>_. old_files s) (\<lambda>_. old_files s)"
    if "file_at s statep = Some c" for c
    using that st mark_states by (simp add: recover_from_def)
qed (auto simp: old_files_def)

section \<open>Properties\<close>

text \<open>
  C20: staging is invisible.  Whatever the package bytes are and whatever system calls fail, stop
  short or crash, \<open>install_bytes\<close> leaves every file outside the staged tree and the delete list
  with its contents, in particular the journal and the state file that recovery reads.
\<close>

theorem install_bytes_staged:
  assumes "wf_fs (fs w)" "install_bytes ev staged_db b w = (r, w1)"
    and "\<not> prefix stagep x" "x \<noteq> deletep"
  shows "file_at (fs w1) x = file_at (fs w) x"
proof -
  have "within UNIV w" "kept (fs w) (fs w)" using assms(1) by (simp_all add: within_def kept_def)
  then have "kept (fs w) (fs w1)"
    using valid_run[OF keeps_install_bytes _ _ assms(2), of "fs w" UNIV] by (auto split: sum.splits)
  then show ?thesis using assms(3,4) by (auto simp: kept_def staging_def)
qed

text \<open>
  C21: an installation that does not reach its commit leaves no trace.  From the state \<open>txn_begin\<close>
  leaves, stop \<open>install_bytes\<close> anywhere, by a refusal, an error or a crash: the next recovery
  gives every file outside the transaction directory the contents it had before.
\<close>

theorem install_interrupted_recovers:
  assumes "wf_fs (fs w)" "file_at (fs w) statep = Some prepared_mark" "file_at (fs w) journalp = Some []"
    and "install_bytes ev staged_db b w = (r, w1)" "txn_recover (calmed w1) = (r', w2)"
    and "\<not> prefix txnp x"
  shows "file_at (fs w2) x = file_at (fs w) x"
proof -
  have "within UNIV w" "kept (fs w) (fs w)" using assms(1) by (simp_all add: within_def kept_def)
  then have k: "kept (fs w) (fs w1)"
    using valid_run[OF keeps_install_bytes _ _ assms(4), of "fs w" UNIV] by (auto split: sum.splits)
  have ns: "\<not> staging statep" "\<not> staging journalp" "\<not> staging x"
    using assms(6) by (auto simp: staging_def prefix_def)
  have "file_at (fs w1) statep = Some prepared_mark" "file_at (fs w1) journalp = Some []" "wf_fs (fs w1)"
    using k ns assms(2,3) by (auto simp: kept_def)
  from valid_run[OF recover_prepared_triple[OF this(3,1,2)] _ _ assms(5)]
  have "old_files (fs w1) (fs w2)" by (auto split: sum.splits)
  then show ?thesis using k ns(3) assms(6) by (simp add: old_files_def kept_def)
qed

section \<open>A concrete interruption\<close>

text \<open>A transaction has been opened and the machine stops after the twentieth system call.\<close>

definition open_txn :: world where
  "open_txn = \<lparr>fs = [([], Dir), ([''etc''], Dir), ([''etc'', ''aegis''], Dir), ([''etc'', ''aegis'', ''herald''], Dir),
     (txnp, Dir), (statep, Reg prepared_mark 384), (journalp, Reg [] 384), ([''motd''], Reg ''hello'' 420)],
     sched = crash_after 20\<rparr>"

definition calc_package :: buf where
  "calc_package = ustar_archive [(''manifest'', ''id=calc'' @ newline # ''name=Calc'' @ newline # ''version=2'' @ newline # ''exec=calc''),
     (''apps/calc/calc'', ''code'')]"

lemma open_txn_facts:
  "wf_fs (fs open_txn)" "file_at (fs open_txn) statep = Some prepared_mark" "file_at (fs open_txn) journalp = Some []"
  "file_at (fs open_txn) [''motd''] = Some ''hello''"
  by (simp_all add: open_txn_def wf_fs_def file_at_def txnp_def valid_name_def)

theorem install_bytes_staged_witness:
  "file_at (fs (snd (install_bytes toy_env staged_db calc_package open_txn))) statep = Some prepared_mark"
proof -
  have "file_at (fs (snd (install_bytes toy_env staged_db calc_package open_txn))) statep = file_at (fs open_txn) statep"
    by (rule install_bytes_staged[OF open_txn_facts(1) prod.collapse[symmetric]]) (simp_all add: prefix_def)
  then show ?thesis by (simp add: open_txn_facts)
qed

theorem install_interrupted_recovers_witness:
  "file_at (fs (snd (txn_recover (calmed (snd (install_bytes toy_env staged_db calc_package open_txn)))))) [''motd''] = Some ''hello''"
proof -
  have "\<not> prefix txnp [''motd'']" by (simp add: txnp_def)
  from install_interrupted_recovers[OF open_txn_facts(1-3) prod.collapse[symmetric] prod.collapse[symmetric] this]
  show ?thesis by (simp add: open_txn_facts)
qed

end
