(* ===== verification/Herald_Guards.thy ===== *)
theory Herald_Guards
  imports Herald_Stage
begin

text \<open>
  What the guards of \<open>install_bytes\<close>, \<open>user/bin/herald/main.c\<close>, enforce on a package that is not a
  system package: the capabilities it may request, the policy files it may own, the paths it may
  declare, and the versions it may replace; and where they let something through.
\<close>

section \<open>Words of a string\<close>

text \<open>The blank-separated words of a string.\<close>

definition words :: "string \<Rightarrow> string list" where
  "words s = filter (\<lambda>t. t \<noteq> []) (split_on space (map (\<lambda>c. if is_blank c then space else c) s))"

lemma words_Nil [simp]: "words [] = []"
  by (simp add: words_def)

lemma words_blank: "is_blank c \<Longrightarrow> words (c # s) = words s"
  by (simp add: words_def)

lemma words_dropWhile: "words (dropWhile is_blank s) = words s"
  by (induction s) (auto simp: words_blank)

lemma words_append_blank: "is_blank c \<Longrightarrow> words (a @ c # b) = words a @ words b"
  by (simp add: words_def split_on_append)

lemma words_single:
  assumes "\<forall>c \<in> set s. \<not> is_blank c"
  shows "words s = (if s = [] then [] else [s])"
proof -
  have "map (\<lambda>c. if is_blank c then space else c) s = s" using assms by (induction s) auto
  moreover have "space \<notin> set s" using assms by (auto simp: is_blank_def)
  ultimately show ?thesis by (simp add: words_def split_on_single)
qed

lemma words_unfold:
  assumes "q = dropWhile is_blank s" "q \<noteq> []"
  shows "words s = takeWhile (\<lambda>c. \<not> is_blank c) q # words (dropWhile (\<lambda>c. \<not> is_blank c) q)"
proof -
  let ?t = "takeWhile (\<lambda>c. \<not> is_blank c) q" and ?d = "dropWhile (\<lambda>c. \<not> is_blank c) q"
  have h: "\<not> is_blank (hd q)" using assms hd_dropWhile[of is_blank s] by simp
  then have t: "words ?t = [?t]" using assms(2) by (subst words_single) (auto dest: set_takeWhileD, cases q, auto)
  have w: "words q = words s" using assms(1) by (simp add: words_dropWhile)
  show ?thesis
  proof (cases ?d)
    case Nil
    then have "?t = q" by (metis append.right_neutral takeWhile_dropWhile_id)
    then show ?thesis using t w unfolding Nil words_Nil by metis
  next
    case (Cons c r)
    then have c: "is_blank c" using hd_dropWhile[of "\<lambda>c. \<not> is_blank c" q] by simp
    have "q = ?t @ c # r" using Cons takeWhile_dropWhile_id[of "\<lambda>c. \<not> is_blank c" q] by simp
    then have "words q = words ?t @ words r" using words_append_blank[OF c] by metis
    then show ?thesis using t w c by (simp add: Cons words_blank)
  qed
qed

lemma caps_scan_words:
  "caps_scan s = find (\<lambda>t. t \<notin> set allowed_caps) (words s)"
proof (induction s rule: caps_scan.induct)
  case (1 p)
  define q where "q = dropWhile is_blank p"
  define tok where "tok = takeWhile (\<lambda>c. \<not> is_blank c) q"
  show ?case
  proof (cases "q = []")
    case True
    then have "words p = []" using words_dropWhile[of p] unfolding q_def[symmetric] by simp
    then show ?thesis using True by (subst caps_scan.simps) (simp add: q_def)
  next
    case False
    note u = words_unfold[OF q_def False]
    have "caps_scan p = (if tok \<in> set allowed_caps then caps_scan (dropWhile (\<lambda>c. \<not> is_blank c) q) else Some tok)"
      using False by (subst caps_scan.simps) (simp add: q_def[symmetric] tok_def[symmetric] Let_def)
    then show ?thesis using 1[OF q_def tok_def False] u by (simp add: tok_def[symmetric])
  qed
qed

section \<open>Properties\<close>

text \<open>
  C23: the capability scan is the allow-list.  \<open>caps_are_safe\<close> holds exactly when every word of the
  list is one of the eight allowed names; blanks and tabs in any number separate and surround
  words, and the empty list is safe.
\<close>

theorem caps_are_safe_iff:
  "caps_are_safe caps \<longleftrightarrow> set (words caps) \<subseteq>
     {''FB'', ''IPC'', ''NET_SOCKET'', ''PROC_READ'', ''THREAD_CREATE'', ''VFS_OPEN'', ''VFS_READ'', ''VFS_WRITE''}"
proof -
  have "caps_are_safe caps \<longleftrightarrow> set (words caps) \<subseteq> set allowed_caps"
    by (auto simp: caps_are_safe_def caps_scan_words find_None_iff)
  then show ?thesis unfolding allowed_caps_def by simp
qed

section \<open>The declared paths\<close>

lemma paths_loop_words:
  "paths_loop np s = Some pps \<Longrightarrow> pps = take (16 - np) (words s) \<and> list_all (\<lambda>p. \<not> path_illegal p) pps"
proof (induction np s arbitrary: pps rule: paths_loop.induct)
  case (1 np s)
  define q where "q = dropWhile is_blank s"
  define tok where "tok = takeWhile (\<lambda>c. \<not> is_blank c) q"
  let ?rest = "drop 1 (dropWhile (\<lambda>c. \<not> is_blank c) q)"
  have e: "paths_loop np s = (if np \<ge> 16 \<or> q = [] then Some [] else if path_illegal tok then None
      else map_option ((#) tok) (paths_loop (np + 1) ?rest))"
    by (subst paths_loop.simps) (simp add: q_def[symmetric] tok_def[symmetric] Let_def)
  show ?case
  proof (cases "np \<ge> 16 \<or> q = []")
    case True
    moreover have "words s = []" if "q = []" using words_dropWhile[of s] that unfolding q_def[symmetric] by simp
    ultimately show ?thesis using 1(2) e by auto
  next
    case False
    then obtain r where r: "\<not> path_illegal tok" "paths_loop (np + 1) ?rest = Some r" "pps = tok # r"
      using 1(2) e by (auto split: if_splits)
    have "words ?rest = words (dropWhile (\<lambda>c. \<not> is_blank c) q)"
    proof (cases "dropWhile (\<lambda>c. \<not> is_blank c) q")
      case Nil
      show ?thesis unfolding Nil by simp
    next
      case (Cons c cs)
      then show ?thesis using hd_dropWhile[of "\<lambda>c. \<not> is_blank c" q] by (simp add: words_blank)
    qed
    then have "words s = tok # words ?rest" using words_unfold[OF q_def] False by (simp add: tok_def)
    moreover have ih: "r = take (16 - (np + 1)) (words ?rest)" "list_all (\<lambda>p. \<not> path_illegal p) r"
      using 1(1)[OF q_def tok_def False r(1,2)] by blast+
    moreover have "16 - np = Suc (16 - (np + 1))" using False by auto
    ultimately have "pps = take (16 - np) (words s)" using r(3) by simp
    moreover have "list_all (\<lambda>p. \<not> path_illegal p) pps" using r(1,3) ih(2) by simp
    ultimately show ?thesis by blast
  qed
qed

section \<open>Runs that succeed\<close>

lemma andthen_Inr: "andthen m f w = (Inr y, w2) \<Longrightarrow> \<exists>x w1. m w = (Inr x, w1) \<and> f x w1 = (Inr y, w2)"
  by (auto simp: andthen_def split: prod.splits sum.splits)

lemma require_Inr: "require b w = (Inr u, w1) \<longleftrightarrow> b \<and> w1 = w"
  by (auto simp: require_def ret_def throw_def)

lemma of_option_Inr: "of_option x w = (Inr y, w1) \<longleftrightarrow> x = Some y \<and> w1 = w"
  by (auto simp: of_option_def ret_def throw_def split: option.split)

lemma each_Inr: "each f xs w = (Inr u, w1) \<Longrightarrow> x \<in> set xs \<Longrightarrow> \<exists>w2 w3. f x w2 = (Inr (), w3)"
proof (induction xs arbitrary: w)
  case (Cons y ys)
  then obtain w' where "f y w = (Inr (), w')" "each f ys w' = (Inr u, w1)" by (auto dest!: andthen_Inr)
  then show ?case using Cons by (cases "x = y") auto
qed simp

lemma caps_guard_Inr:
  "caps_guard dbp m w = (Inr u, w1) \<Longrightarrow> m_exec m = m_id m \<and> caps_are_safe (m_caps m)"
  unfolding caps_guard_def
  by (auto dest!: andthen_Inr simp: require_Inr caps_are_safe_def caps_scan_words)

lemma bincaps_guard_Inr:
  assumes "bincaps_guard dbp m w = (Inr u, w1)" "bc \<in> set (m_bincaps m)"
  shows "slash \<notin> set (bc_binary bc) \<and> caps_are_safe (bc_caps bc)"
proof -
  obtain r w2 w3 where "bincap_guard r bc w2 = (Inr (), w3)"
    using assms unfolding bincaps_guard_def by (auto dest!: andthen_Inr each_Inr)
  then show ?thesis unfolding bincap_guard_def by (auto dest!: andthen_Inr simp: require_Inr)
qed

text \<open>Programs that only read.\<close>

definition read_only :: "'a io \<Rightarrow> bool" where
  "read_only m \<longleftrightarrow> (\<forall>w. fs (snd (m w)) = fs w)"

lemma read_only_basic:
  "read_only (ret x)" "read_only (throw e)" "read_only (require b)" "read_only (of_option y)"
  by (simp_all add: read_only_def ret_def throw_def require_def of_option_def split: option.split)

lemma read_only_andthen: "read_only m \<Longrightarrow> (\<And>x. read_only (f x)) \<Longrightarrow> read_only (andthen m f)"
  by (simp add: read_only_def andthen_def split: prod.split sum.split) (metis snd_conv)

lemma read_only_handle: "read_only m \<Longrightarrow> (\<And>e. read_only (h e)) \<Longrightarrow> read_only (handle m h)"
  by (simp add: read_only_def handle_def split: prod.split sum.split) (metis snd_conv)

lemma read_only_syscall: "(\<And>s. snd (f s) = s) \<Longrightarrow> read_only (syscall f)"
  unfolding read_only_def syscall_def by (auto split: prod.split) (metis snd_conv)

lemma read_only_reads: "read_only (sys_lstat p)" "read_only (sys_open_read p)"
  by (rule read_only_syscall; simp add: fs_lstat_def fs_open_read_def split: sum.split node.split)+

lemma read_only_if: "read_only m \<Longrightarrow> read_only m' \<Longrightarrow> read_only (if b then m else m')"
  by simp

lemma read_only_option: "read_only m \<Longrightarrow> (\<And>x. read_only (f x)) \<Longrightarrow> read_only (case y of None \<Rightarrow> m | Some x \<Rightarrow> f x)"
  by (cases y) simp_all

lemma read_only_each: "(\<And>x. read_only (f x)) \<Longrightarrow> read_only (each f xs)"
  by (induction xs) (simp_all add: read_only_basic read_only_andthen)

lemmas read_only_rules = read_only_basic read_only_andthen read_only_handle read_only_reads read_only_if
  read_only_option read_only_each

lemma read_only_guards:
  "read_only (db_find dbp i)" "read_only (rollback_guard ev dbp m)" "read_only (caps_guard dbp m)" "read_only (bincaps_guard dbp m)"
  unfolding rollback_guard_def caps_guard_def bincaps_guard_def bincap_guard_def db_has_def db_find_def db_load_def
    policy_exists_def attempt_def optional_def succeeds_def
  by (intro read_only_rules)+

lemma guarded_fails:
  assumes "read_only g" "\<And>x w1. g w = (Inr x, w1) \<Longrightarrow> \<exists>e w2. f x w1 = (Inl e, w2) \<and> fs w2 = fs w1"
  shows "\<exists>e w1. andthen g f w = (Inl e, w1) \<and> fs w1 = fs w"
proof (cases "g w")
  case (Pair r w1)
  then have "fs w1 = fs w" using assms(1) unfolding read_only_def by (metis snd_conv)
  then show ?thesis using Pair assms(2)[of _ w1] by (cases r) (auto simp: andthen_def)
qed

text \<open>What an application package may ask for.\<close>

definition app_allowed :: "herald_manifest \<Rightarrow> bool" where
  "app_allowed m \<longleftrightarrow> m_exec m = m_id m \<and> caps_are_safe (m_caps m) \<and>
     (\<forall>bc \<in> set (m_bincaps m). slash \<notin> set (bc_binary bc) \<and> caps_are_safe (bc_caps bc)) \<and>
     (\<forall>p \<in> set (take 15 (words (m_paths m))).
        hd p \<noteq> slash \<and> last p = slash \<and> \<not> strstr p ''..'' \<and> \<not> prefix ''etc/aegis/'' p)"


section \<open>Refusals\<close>

lemma db_has_calm:
  assumes "wf_fs (fs w)" "db_path_ok path" "db_usable (fs w) path" "within no_faults w"
  shows "db_has path i w = (Inr (db_lookup i (file_at (fs w) (resolve path))), w)"
proof -
  let ?l = "db_lookup i (file_at (fs w) (resolve path))"
  have f: "valid no_faults (\<lambda>s. s = fs w) (db_find path i) (\<lambda>r s. r = ?l \<and> s = fs w) (\<lambda>_ s. False)"
    unfolding db_find_def
    by (rule valid_andthen[where R = "\<lambda>es s. es = db_entries (file_at (fs w) (resolve path)) \<and> s = fs w"],
        rule valid_conseq[OF db_load_triple[OF assms(2,1)]])
      (use assms(3) in \<open>auto simp: db_lookup_def intro!: valid_ret\<close>)
  obtain r w1 where run: "db_find path i w = (r, w1)" by fastforce
  from valid_run[OF f refl assms(4) run] have "r = Inr ?l" "within no_faults w1" "fs w1 = fs w"
    by (auto split: sum.splits)
  then have "db_find path i w = (Inr ?l, w)" using run calm_world[OF _ assms(4)] by simp
  then show ?thesis by (simp add: db_has_def attempt_def andthen_def handle_def ret_def split: option.split)
qed

text \<open>
  no downgrade.  When the database can be read and lists the package at a version that
  compares greater than the offered one, and no override is set, \<open>install_bytes\<close> refuses and
  changes nothing, for system packages too.
\<close>

theorem install_refuses_downgrade:
  assumes "wf_fs (fs w)" "within no_faults w" "db_path_ok dbp" "db_usable (fs w) dbp"
    and "find_manifest b = Some m" "db_lookup (m_id m) (file_at (fs w) (resolve dbp)) = Some e"
    and "herald_version_gt (e_version e) (m_version m)" "\<not> env_allow_downgrade ev"
  shows "install_bytes ev dbp b w = (Inl EINVAL, w)"
proof -
  have "rollback_guard ev dbp m w = (Inl EINVAL, w)"
    using assms(6-8) db_has_calm[OF assms(1,3,4,2), of "m_id m"]
    by (simp add: rollback_guard_def andthen_def require_def throw_def)
  then show ?thesis by (simp add: install_bytes_def assms(5) of_option_def andthen_def ret_def)
qed

lemma policy_exists_calm:
  assumes "wf_fs (fs w)" "within no_faults w" "map_of (fs w) [''etc'', ''aegis'', ''caps.d'', name] \<noteq> None"
    and "valid_name name" "length name < 64"
  shows "policy_exists name w = (Inr True, w)"
proof -
  let ?p = "''/etc/aegis/caps.d/'' @ name"
  have e: "?p = ''/etc/aegis/caps.d'' @ slash # name" by simp
  have l: "name \<noteq> []" "last name \<noteq> slash" using assms(4) last_in_set[of name] unfolding valid_name_def by (blast, metis)
  have r: "resolve ?p = [''etc'', ''aegis'', ''caps.d'', name]"
    unfolding e resolve_snoc_name[OF assms(4)] by (simp add: resolve_def path_step_def)
  have "fit 256 ?p = ?p" using assms(5) by (simp add: fit_def)
  moreover obtain n where "map_of (fs w) (resolve ?p) = Some n" using assms(3) r by auto
  then have "fs_find ?p (fs w) = Inr n"
    by (rule fs_find_present[OF assms(1)]) (use l in auto)
  ultimately have f: "fs_find (fit 256 ?p) (fs w) = Inr n" by simp
  have s: "sched w 0 \<noteq> Fail" using assms(2) by (auto simp: within_def)
  have "next_step w\<lparr>fs := fs w\<rparr> = w" by (rule calm_world[OF _ assms(2)]) (use assms(2) in simp_all)
  then have "sys_lstat (fit 256 ?p) w = (Inr n, w)" using f s by (simp add: syscall_def fs_lstat_def)
  then have "succeeds (sys_lstat (fit 256 ?p)) w = (Inr True, w)"
    by (simp add: succeeds_def handle_def andthen_def ret_def)
  then show ?thesis by (simp add: policy_exists_def andthen_def ret_def)
qed

text \<open>
  no policy is taken over.  When a capability policy of the package's name exists and the
  database does not list the package, an application package that requests capabilities is
  refused and nothing changes: a package cannot replace the policy of a system program.
\<close>

theorem install_keeps_foreign_policy:
  assumes "wf_fs (fs w)" "within no_faults w" "db_path_ok dbp" "db_usable (fs w) dbp"
    and "find_manifest b = Some m" "\<not> m_is_system m" "m_caps m \<noteq> []"
    and "map_of (fs w) [''etc'', ''aegis'', ''caps.d'', m_id m] \<noteq> None"
    and "db_lookup (m_id m) (file_at (fs w) (resolve dbp)) = None"
  shows "install_bytes ev dbp b w = (Inl EINVAL, w)"
proof -
  note has = db_has_calm[OF assms(1,3,4,2), of "m_id m"]
  obtain md where "manifest_parse md = Some m" using find_manifest_parsed[OF assms(5)] by blast
  then have "wf_fields m" "m_id m \<noteq> []"
    using manifest_loop_wf[OF wf_fields_zero] by (auto simp: manifest_parse_def split: option.splits if_splits)
  then have "valid_name (m_id m)" "length (m_id m) < 64"
    by (auto simp: wf_fields_def manifest_is_bare_name_def valid_name_def dest!: clean_no_nul)
  note ex = policy_exists_calm[OF assms(1,2,8) this]
  have "caps_guard dbp m w = (Inl EINVAL, w)"
    using ex has assms(7,9) by (simp add: caps_guard_def andthen_def require_def throw_def ret_def)
  moreover have "rollback_guard ev dbp m w = (Inr (), w)"
    using has assms(9) by (simp add: rollback_guard_def andthen_def require_def ret_def)
  ultimately show ?thesis
    using assms(5,6) by (simp add: install_bytes_def install_app_def of_option_def andthen_def ret_def)
qed

text \<open>
  a system package cannot be removed.  Its database entry has an empty executable, which is
  not a bare name, so \<open>cmd_remove\<close> returns an error and changes nothing, whatever calls fail.
\<close>

theorem remove_refuses_system_package:
  assumes "wf_fs (fs w)" "db_lookup i (file_at (fs w) (resolve HERALD_DB_PATH)) = Some e" "e_exec e = []"
  shows "\<exists>err w1. cmd_remove i w = (Inl err, w1) \<and> fs w1 = fs w"
proof -
  have d: "valid UNIV (\<lambda>s. s = fs w) (db_find HERALD_DB_PATH i) (\<lambda>r s. r = Some e \<and> s = fs w) (\<lambda>_ s. s = fs w)"
    unfolding db_find_def
    by (rule valid_andthen[where R = "\<lambda>es s. es = db_entries (file_at (fs w) (resolve HERALD_DB_PATH)) \<and> s = fs w"],
        rule valid_conseq[OF db_load_triple[OF db_path_live assms(1)]])
      (use assms(2) in \<open>auto simp: db_lookup_def intro!: valid_ret\<close>)
  have "r = Some e" if "db_find HERALD_DB_PATH i w = (Inr r, w1)" for r w1
    using valid_run[OF d refl _ that] by (simp add: within_def)
  then show ?thesis
    unfolding cmd_remove_def
    by (intro guarded_fails read_only_basic read_only_guards)
      (auto simp: require_Inr assms(3) manifest_is_bare_name_def throw_def)
qed

section \<open>Concrete packages\<close>

lemma db_resolves: "resolve ''db'' = [''db'']" "resolve ''db.tmp'' = [''db.tmp'']"
  by code_simp+

definition package :: "buf \<Rightarrow> buf" where
  "package md = ustar_archive [(''manifest'', md)]"

lemma find_manifest_package:
  assumes "length md < 8 ^ 11"
  shows "find_manifest (package md) = manifest_parse md"
proof -
  have "archivable (''manifest'', md)"
    using assms by (simp add: archivable_def path_is_safe_def path_scan_iff strip_dot_slash_def)
  then have "tar_find_walk (package md) 0 ''manifest'' = Inr (Some md)"
    using tar_find_walk_member[of "(''manifest'', md)"] by (simp add: ustar_archive_def package_def)
  then show ?thesis by (simp add: find_manifest_def tar_find_mem_def strip_dot_slash_def)
qed

definition bash_md :: buf where
  "bash_md = ''id=bash'' @ newline # ''name=b'' @ newline # ''version=5.1'' @ newline # ''exec=bash'' @ newline # ''caps=IPC''"

definition bash_manifest :: herald_manifest where
  "bash_manifest = \<lparr>m_id = ''bash'', m_name = ''b'', m_version = ''5.1'', m_exec = ''bash'', m_is_system = False,
     m_caps = ''IPC'', m_depends = [], m_paths = [], m_bincaps = []\<rparr>"

definition evil_md :: buf where
  "evil_md = ''id=evil'' @ newline # ''name=e'' @ newline # ''version=1'' @ newline # ''exec=reboot''"

lemma evil_parse: "\<exists>m. find_manifest (package evil_md) = Some m \<and> m_id m = ''evil'' \<and> m_exec m = ''reboot'' \<and> \<not> m_is_system m"
  by (simp add: find_manifest_package evil_md_def manifest_parse_def manifest_loop.simps manifest_zero_def manifest_line_def
      manifest_key_def line_of_def after_line_def bounded_copy_def cstr_def rtrim_def rtrim_of_def
      skip_blanks_def is_ctrl_def byte_of_def manifest_is_bare_name_def)

lemma bash_parse: "find_manifest (package bash_md) = Some bash_manifest"
  by (simp add: find_manifest_package bash_md_def bash_manifest_def manifest_parse_def manifest_loop.simps manifest_zero_def
      manifest_line_def manifest_key_def line_of_def after_line_def bounded_copy_def cstr_def rtrim_def rtrim_of_def
      skip_blanks_def is_ctrl_def byte_of_def manifest_is_bare_name_def)


lemma bash_older: "herald_version_gt (e_version bash_entry) (m_version bash_manifest)"
  by (simp add: bash_entry_def bash_manifest_def herald_version_gt.simps ver_component_def is_digit_def byte_of_def skip_dot_def)

theorem install_refuses_downgrade_witness:
  "install_bytes toy_env ''/db'' (package bash_md) (small_world (\<lambda>n. NoFault)) = (Inl EINVAL, small_world (\<lambda>n. NoFault))"
proof (rule install_refuses_downgrade[OF _ small_world_simps(2) small_facts(2) _ bash_parse _ bash_older])
  show "db_lookup (m_id bash_manifest) (file_at (fs (small_world (\<lambda>n. NoFault))) (resolve ''/db'')) = Some bash_entry"
    by (simp add: small_world_simps small_facts small_lookup bash_manifest_def db_resolves)
qed (simp_all add: small_world_simps small_facts toy_env_def)

definition policy_world :: world where
  "policy_world = \<lparr>fs = [([], Dir), ([''etc''], Dir), ([''etc'', ''aegis''], Dir), ([''etc'', ''aegis'', ''caps.d''], Dir),
     ([''etc'', ''aegis'', ''caps.d'', ''bash''], Reg ''service POWER'' 420)], sched = \<lambda>n. NoFault\<rparr>"

theorem install_keeps_foreign_policy_witness:
  "install_bytes toy_env ''/db'' (package bash_md) policy_world = (Inl EINVAL, policy_world)"
proof (rule install_keeps_foreign_policy[OF _ _ small_facts(2) _ bash_parse])
  show "wf_fs (fs policy_world)" by code_simp
  show "within no_faults policy_world" by (simp add: within_def policy_world_def)
  show "db_usable (fs policy_world) ''/db''"
    by (simp add: db_usable_def db_resolves policy_world_def clear_upto_def)
  show "db_lookup (m_id bash_manifest) (file_at (fs policy_world) (resolve ''/db'')) = None"
    by (simp add: db_resolves policy_world_def file_at_def db_lookup_def db_entries_def entries_find_def)
qed (simp_all add: bash_manifest_def policy_world_def)

definition system_entry :: herald_db_entry where
  "system_entry = \<lparr>e_id = ''desktop'', e_version = ''1'', e_exec = [], e_sha256 = ''ab''\<rparr>"

definition system_world :: world where
  "system_world = \<lparr>fs = [([], Dir), ([''etc''], Dir), ([''etc'', ''aegis''], Dir), ([''etc'', ''aegis'', ''herald''], Dir),
     ([''etc'', ''aegis'', ''herald'', ''db''], Reg (db_line system_entry) 420)], sched = \<lambda>n. NoFault\<rparr>"

theorem remove_refuses_system_package_witness:
  "\<exists>err w1. cmd_remove ''desktop'' system_world = (Inl err, w1) \<and> fs w1 = fs system_world"
proof (rule remove_refuses_system_package)
  show "wf_fs (fs system_world)" by code_simp
  have "resolve HERALD_DB_PATH = [''etc'', ''aegis'', ''herald'', ''db'']" by code_simp
  moreover have "db_entries (Some (db_line system_entry)) = [system_entry]"
    using db_entries_bytes[of "[system_entry]"] by (simp add: db_bytes_def entry_wf_def field_ok_def system_entry_def)
  ultimately show "db_lookup ''desktop'' (file_at (fs system_world) (resolve HERALD_DB_PATH)) = Some system_entry"
    by (simp add: system_world_def file_at_def db_lookup_def entries_find_def system_entry_def)
qed (simp add: system_entry_def)

text \<open>
  a read error opens the anti-rollback guard.  With the database listing \<open>bash\<close> at 5.2 the
  guard refuses version 5.1, and accepts it when the one call that opens the database fails.
\<close>

theorem rollback_guard_fails_open:
  "fst (rollback_guard toy_env ''/db'' bash_manifest (small_world (\<lambda>n. NoFault))) = Inl EINVAL \<and>
   fst (rollback_guard toy_env ''/db'' bash_manifest (small_world (\<lambda>n. if n = 0 then Fail else NoFault))) = Inr ()"
proof
  have "db_has ''/db'' ''bash'' (small_world (\<lambda>n. NoFault)) = (Inr (Some bash_entry), small_world (\<lambda>n. NoFault))"
    using db_has_calm[of "small_world (\<lambda>n. NoFault)" "''/db''" "''bash''"] small_facts small_lookup by (simp add: small_world_simps db_resolves)
  then show "fst (rollback_guard toy_env ''/db'' bash_manifest (small_world (\<lambda>n. NoFault))) = Inl EINVAL"
    using bash_older by (simp add: rollback_guard_def andthen_def require_def throw_def bash_manifest_def toy_env_def)
  show "fst (rollback_guard toy_env ''/db'' bash_manifest (small_world (\<lambda>n. if n = 0 then Fail else NoFault))) = Inr ()"
    by (simp add: rollback_guard_def db_has_def db_find_def db_load_def attempt_def optional_def andthen_def handle_def
        syscall_def small_world_def require_def ret_def throw_def)
qed

text \<open>
  the path \<open>etc/\<close> passes the check that keeps packages out of \<open>etc/aegis/\<close>.  A package may
  declare it, and the extraction then accepts an entry for the policy of \<open>reboot\<close>.
\<close>

theorem etc_path_reaches_policies:
  "install_prefixes (bash_manifest\<lparr>m_paths := ''etc/''\<rparr>) = Some [''apps/bash/'', ''etc/''] \<and>
   path_allowed (Some [''apps/bash/'', ''etc/'']) ''etc/aegis/caps.d/reboot'' \<and>
   install_prefixes (bash_manifest\<lparr>m_paths := ''etc/aegis/''\<rparr>) = None"
  by (simp add: install_prefixes_def bash_manifest_def paths_loop.simps is_blank_def path_illegal_def strstr_def starts_with_def
      fit_def path_allowed_def str_starts_with_def upt_rec Let_def)

end
