(* ===== verification/C_Bytes.thy ===== *)
theory C_Bytes
  imports C_Prelude
begin

text \<open>
  Binary buffers: a byte is an \<open>8 word\<close>, a buffer a list of bytes.  \<open>poke\<close> is \<open>memcpy\<close> into a
  buffer, \<open>peek\<close> the bytes at an offset; integers are stored and read little-endian, as the
  machines the sources run on do and as \<open>rd16\<close>, \<open>rd32\<close>, \<open>wr16\<close> and \<open>wr32\<close> of the ext2 code
  spell out.
\<close>

unbundle bit_operations_syntax

type_synonym byte = "8 word"

named_theorems byte_simps "reading back what was stored in a buffer"

section \<open>Definitions\<close>

definition poke :: "nat \<Rightarrow> byte list \<Rightarrow> byte list \<Rightarrow> byte list" where
  "poke off d b = take off b @ d @ drop (off + length d) b"

definition peek :: "nat \<Rightarrow> nat \<Rightarrow> byte list \<Rightarrow> byte list" where
  "peek off n b = take n (drop off b)"

text \<open>A record laid out in a buffer: a \<open>memcpy\<close> per field.\<close>

definition pokes :: "(nat \<times> byte list) list \<Rightarrow> byte list \<Rightarrow> byte list" where
  "pokes fs b = foldl (\<lambda>b (off, d). poke off d b) b fs"

text \<open>The \<open>n\<close> low bytes of a word, and the word a list of bytes spells.\<close>

definition le_bytes :: "nat \<Rightarrow> 'a::len word \<Rightarrow> byte list" where
  "le_bytes n w = map (\<lambda>i. ucast (drop_bit (8 * i) w)) [0..<n]"

fun le_word :: "byte list \<Rightarrow> 'a::len word" where
  "le_word [] = 0"
| "le_word (b # bs) = ucast b OR push_bit 8 (le_word bs)"

definition rd16 :: "byte list \<Rightarrow> nat \<Rightarrow> 16 word" where
  "rd16 p off = ucast (p ! off) OR push_bit 8 (ucast (p ! (off + 1)))"

definition rd32 :: "byte list \<Rightarrow> nat \<Rightarrow> 32 word" where
  "rd32 p off = ucast (p ! off) OR push_bit 8 (ucast (p ! (off + 1))) OR
     push_bit 16 (ucast (p ! (off + 2))) OR push_bit 24 (ucast (p ! (off + 3)))"

definition wr16 :: "byte list \<Rightarrow> nat \<Rightarrow> 16 word \<Rightarrow> byte list" where
  "wr16 p off v = p[off := ucast v, off + 1 := ucast (drop_bit 8 v)]"

definition wr32 :: "byte list \<Rightarrow> nat \<Rightarrow> 32 word \<Rightarrow> byte list" where
  "wr32 p off v = p[off := ucast v, off + 1 := ucast (drop_bit 8 v),
     off + 2 := ucast (drop_bit 16 v), off + 3 := ucast (drop_bit 24 v)]"

text \<open>The decimals \<open>printf\<close> writes for \<open>%u\<close>.\<close>

fun fmt_u :: "nat \<Rightarrow> string" where
  "fmt_u n = (if n < 10 then [char_of (48 + n)] else fmt_u (n div 10) @ [char_of (48 + n mod 10)])"

declare fmt_u.simps [simp del]

section \<open>Buffers\<close>

lemma length_poke [simp]: "off + length d \<le> length b \<Longrightarrow> length (poke off d b) = length b"
  by (simp add: poke_def)

lemma nth_poke:
  "off + length d \<le> length b \<Longrightarrow> i < length b \<Longrightarrow>
   poke off d b ! i = (if off \<le> i \<and> i < off + length d then d ! (i - off) else b ! i)"
  by (auto simp: poke_def nth_append min_def)

lemma peek_poke [byte_simps]:
  "off + length d \<le> length b \<Longrightarrow> peek off (length d) (poke off d b) = d"
  by (simp add: peek_def poke_def)

lemma peek_poke_eq: "off + n \<le> length b \<Longrightarrow> length d = n \<Longrightarrow> peek off n (poke off d b) = d"
  using peek_poke by blast

lemma peek_poke_other [byte_simps]:
  assumes "off + length d \<le> length b" "o' + n \<le> off \<or> off + length d \<le> o'"
  shows "peek o' n (poke off d b) = peek o' n b"
proof (rule nth_equalityI)
  show "length (peek o' n (poke off d b)) = length (peek o' n b)" using assms(1) by (simp add: peek_def)
  fix i assume "i < length (peek o' n (poke off d b))"
  then have "i < n" "o' + i < length b" using assms(1) by (auto simp: peek_def)
  then show "peek o' n (poke off d b) ! i = peek o' n b ! i"
    using assms by (auto simp: peek_def nth_poke)
qed

lemma length_peek: "off + n \<le> length b \<Longrightarrow> length (peek off n b) = n"
  by (simp add: peek_def)

lemma peek_append: "off + n \<le> length a \<Longrightarrow> peek off n (a @ b) = peek off n a"
  by (simp add: peek_def)

lemma poke_append: "off + length d \<le> length a \<Longrightarrow> poke off d (a @ b) = poke off d a @ b"
  by (simp add: poke_def)

lemma take_poke:
  "off + length d \<le> n \<Longrightarrow> off \<le> length b \<Longrightarrow> take n (poke off d b) = poke off d (take n b)"
  by (simp add: poke_def min_absorb1 min_absorb2 drop_take)

lemma peek_take: "off + n \<le> m \<Longrightarrow> peek off n (take m b) = peek off n b"
  by (simp add: peek_def drop_take min_def)

lemma poke_poke: "length d = length d' \<Longrightarrow> off + length d \<le> length b \<Longrightarrow> poke off d (poke off d' b) = poke off d b"
  by (simp add: poke_def)

lemma poke_peek: "off + n \<le> length b \<Longrightarrow> poke off (peek off n b) b = b"
  by (simp add: poke_def peek_def) (metis add.commute append_take_drop_id drop_drop)

lemma peek_replicate [byte_simps]: "off + n \<le> m \<Longrightarrow> peek off n (replicate m x) = replicate n x"
  by (simp add: peek_def)

section \<open>Fields\<close>

text \<open>The fields lie in a buffer of \<open>n\<close> bytes and do not overlap.\<close>

fun fields_ok :: "nat \<Rightarrow> (nat \<times> byte list) list \<Rightarrow> bool" where
  "fields_ok n [] = True"
| "fields_ok n ((off, d) # fs) = (off + length d \<le> n \<and>
     list_all (\<lambda>(off', d'). off + length d \<le> off' \<or> off' + length d' \<le> off) fs \<and> fields_ok n fs)"

lemma length_pokes: "fields_ok (length b) fs \<Longrightarrow> length (pokes fs b) = length b"
  by (induction fs arbitrary: b) (auto simp: pokes_def)

lemma peek_pokes_other:
  "fields_ok (length b) fs \<Longrightarrow> list_all (\<lambda>(off', d'). off + n \<le> off' \<or> off' + length d' \<le> off) fs \<Longrightarrow>
   peek off n (pokes fs b) = peek off n b"
  by (induction fs arbitrary: b) (auto simp: pokes_def peek_poke_other)

lemma peek_pokes:
  "fields_ok (length b) fs \<Longrightarrow> (off, d) \<in> set fs \<Longrightarrow> n = length d \<Longrightarrow> peek off n (pokes fs b) = d"
proof (induction fs arbitrary: b)
  case (Cons f fs)
  obtain o' d' where f: "f = (o', d')" by (cases f)
  have s: "pokes (f # fs) b = pokes fs (poke o' d' b)" by (simp add: f pokes_def)
  have l: "length (poke o' d' b) = length b" using Cons.prems(1) by (simp add: f)
  show ?case
  proof (cases "f = (off, d)")
    case True
    then show ?thesis
      unfolding s using Cons.prems f l
      by (subst peek_pokes_other) (auto simp: peek_poke_eq)
  next
    case False
    then show ?thesis unfolding s using Cons.prems f l by (intro Cons.IH) auto
  qed
qed simp

section \<open>Little-endian integers\<close>

lemma length_le_bytes [simp]: "length (le_bytes n w) = n"
  by (simp add: le_bytes_def)

lemma bit_le_word:
  "n < LENGTH('a) \<Longrightarrow> bit (le_word bs :: 'a::len word) n \<longleftrightarrow> n div 8 < length bs \<and> bit (bs ! (n div 8)) (n mod 8)"
proof (induction bs arbitrary: n)
  case (Cons b bs)
  show ?case
  proof (cases "n < 8")
    case True
    then show ?thesis using Cons.prems by (simp add: bit_or_iff bit_push_bit_iff bit_ucast_iff)
  next
    case False
    then have "n div 8 = Suc ((n - 8) div 8)" "(n - 8) mod 8 = n mod 8" by (simp_all add: le_div_geq le_mod_geq)
    moreover have "\<not> bit (ucast b :: 'a word) n" using False by (auto simp: bit_ucast_iff dest: bit_imp_le_length)
    ultimately show ?thesis
      using False Cons.prems Cons.IH[of "n - 8"] by (simp add: bit_or_iff bit_push_bit_iff)
  qed
qed simp

lemma le_word_bytes:
  assumes "8 * n = LENGTH('a)"
  shows "le_word (le_bytes n w) = (w :: 'a::len word)"
proof (rule bit_word_eqI)
  fix i assume i: "i < LENGTH('a)"
  then have "i div 8 < n" using assms by auto
  moreover have "i mod 8 < 8" by simp
  moreover have "8 * (i div 8) + i mod 8 = i" by simp
  ultimately show "bit (le_word (le_bytes n w) :: 'a word) i = bit w i"
    using i by (simp add: bit_le_word le_bytes_def bit_ucast_iff bit_drop_bit_eq)
qed

lemma le_word_bytes_sizes [byte_simps]:
  "le_word (le_bytes 2 (w :: 16 word)) = w" "le_word (le_bytes 4 (v :: 32 word)) = v" "le_word (le_bytes 8 (u :: 64 word)) = u"
  by (rule le_word_bytes; simp)+

lemma rd32_le_word:
  assumes "off + 4 \<le> length p"
  shows "rd32 p off = le_word (peek off 4 p)"
proof -
  have "peek off 4 p = [p ! off, p ! (off + 1), p ! (off + 2), p ! (off + 3)]"
    using assms by (intro nth_equalityI) (auto simp: peek_def less_Suc_eq numeral_eq_Suc)
  then show ?thesis by (simp add: rd32_def push_bit_or or.assoc)
qed

lemma rd16_le_word:
  assumes "off + 2 \<le> length p"
  shows "rd16 p off = le_word (peek off 2 p)"
proof -
  have "peek off 2 p = [p ! off, p ! (off + 1)]"
    using assms by (intro nth_equalityI) (auto simp: peek_def less_Suc_eq numeral_eq_Suc)
  then show ?thesis by (simp add: rd16_def)
qed

lemma wr16_poke: "off + 2 \<le> length p \<Longrightarrow> wr16 p off v = poke off (le_bytes 2 v) p"
  by (rule nth_equalityI)
    (auto simp: wr16_def nth_poke le_bytes_def nth_list_update less_Suc_eq numeral_eq_Suc)

lemma wr32_poke: "off + 4 \<le> length p \<Longrightarrow> wr32 p off v = poke off (le_bytes 4 v) p"
  by (rule nth_equalityI)
    (auto simp: wr32_def nth_poke le_bytes_def nth_list_update less_Suc_eq numeral_eq_Suc)

lemma length_wr [simp]: "length (wr16 p off v) = length p" "length (wr32 p off u) = length p"
  by (simp_all add: wr16_def wr32_def)

lemma rd_wr [byte_simps]:
  "off + 2 \<le> length p \<Longrightarrow> rd16 (wr16 p off v) off = v" "off + 4 \<le> length p \<Longrightarrow> rd32 (wr32 p off u) off = u"
  by (simp_all add: rd16_le_word rd32_le_word wr16_poke wr32_poke peek_poke_eq le_word_bytes_sizes)

lemma rd_wr_other [byte_simps]:
  "i + 2 \<le> length p \<Longrightarrow> off + 2 \<le> length p \<Longrightarrow> i + 2 \<le> off \<or> off + 2 \<le> i \<Longrightarrow> rd16 (wr16 p off v) i = rd16 p i"
  "i + 2 \<le> length p \<Longrightarrow> off + 4 \<le> length p \<Longrightarrow> i + 2 \<le> off \<or> off + 4 \<le> i \<Longrightarrow> rd16 (wr32 p off u) i = rd16 p i"
  "i + 4 \<le> length p \<Longrightarrow> off + 2 \<le> length p \<Longrightarrow> i + 4 \<le> off \<or> off + 2 \<le> i \<Longrightarrow> rd32 (wr16 p off v) i = rd32 p i"
  "i + 4 \<le> length p \<Longrightarrow> off + 4 \<le> length p \<Longrightarrow> i + 4 \<le> off \<or> off + 4 \<le> i \<Longrightarrow> rd32 (wr32 p off u) i = rd32 p i"
  by (simp_all add: rd16_le_word rd32_le_word wr16_poke wr32_poke peek_poke_other)

end
