(* ===== verification/Install_Gpt.thy ===== *)
theory Install_Gpt
  imports C_Bytes
begin

unbundle bit_operations_syntax

text \<open>
  The partition table writer of the installer, \<open>user/lib/libinstall/gpt.c\<close>: CRC-32, the protective
  MBR, the two headers and the two copies of the entry array.

  The disk is the map from block numbers to blocks that the raw device shows, with a schedule
  that says which transfers fail.  Progress callbacks are not modelled.  The static CRC table is
  a constant: \<open>crc32_init\<close> runs before its first use and never changes it again.
\<close>

section \<open>Definitions\<close>

subsection \<open>CRC-32\<close>

definition crc_step :: "32 word \<Rightarrow> 32 word" where
  "crc_step c = drop_bit 1 c XOR (if c AND 1 \<noteq> 0 then 0xEDB88320 else 0)"

definition crc32_table :: "32 word list" where
  "crc32_table = map (\<lambda>i. (crc_step ^^ 8) (of_nat i)) [0..<256]"

definition crc32_byte :: "32 word \<Rightarrow> byte \<Rightarrow> 32 word" where
  "crc32_byte crc b = drop_bit 8 crc XOR crc32_table ! unat ((crc XOR ucast b) AND 0xFF)"

definition crc32_calc :: "byte list \<Rightarrow> 32 word" where
  "crc32_calc data = foldl crc32_byte 0xFFFFFFFF data XOR 0xFFFFFFFF"

subsection \<open>The disk\<close>

record blkdev =
  blocks :: "64 word \<Rightarrow> byte list"
  io_fails :: "nat \<Rightarrow> bool"

definition li_blkdev_write :: "64 word \<Rightarrow> byte list \<Rightarrow> blkdev \<Rightarrow> bool \<times> blkdev" where
  "li_blkdev_write lba d dv =
     (let dv1 = dv\<lparr>io_fails := \<lambda>n. io_fails dv (Suc n)\<rparr> in
      if io_fails dv 0 then (False, dv1) else (True, dv1\<lparr>blocks := (blocks dv)(lba := d)\<rparr>))"

text \<open>\<open>if (f () < 0) return -1; ...\<close>\<close>

definition wthen :: "(blkdev \<Rightarrow> bool \<times> blkdev) \<Rightarrow> (blkdev \<Rightarrow> bool \<times> blkdev) \<Rightarrow> blkdev \<Rightarrow> bool \<times> blkdev" where
  "wthen m k dv = (case m dv of (ok, dv1) \<Rightarrow> if ok then k dv1 else (False, dv1))"

fun wall :: "('a \<Rightarrow> blkdev \<Rightarrow> bool \<times> blkdev) \<Rightarrow> 'a list \<Rightarrow> blkdev \<Rightarrow> bool \<times> blkdev" where
  "wall f [] dv = (True, dv)"
| "wall f (x # xs) dv = wthen (f x) (wall f xs) dv"

definition write_block :: "64 word \<Rightarrow> byte list \<Rightarrow> nat \<Rightarrow> blkdev \<Rightarrow> bool \<times> blkdev" where
  "write_block lba data block_size =
     li_blkdev_write lba (take block_size data @ replicate (block_size - length data) 0)"

subsection \<open>The protective MBR\<close>

definition write_protective_mbr :: "64 word \<Rightarrow> byte list" where
  "write_protective_mbr disk_sectors =
     (let sz = (if disk_sectors - 1 > 0xFFFFFFFF then 0xFFFFFFFF else ucast (disk_sectors - 1)) :: 32 word in
      pokes [(446, [0x00, 0x00, 0x02, 0x00, 0xEE, 0xFF, 0xFF, 0xFF, 0x01, 0, 0, 0]),
             (458, le_bytes 4 sz), (510, [0x55, 0xAA])] (replicate 512 0))"

subsection \<open>Layout\<close>

definition ESP_ALIGN_BYTES :: "64 word" where "ESP_ALIGN_BYTES = 1048576"
definition ESP_SIZE_BYTES :: "64 word" where "ESP_SIZE_BYTES = 8388608"

record gpt_layout =
  esp_start :: "64 word"
  esp_end :: "64 word"
  root_start :: "64 word"
  root_end :: "64 word"
  entry_lbas :: "64 word"
  last_lba :: "64 word"
  first_usable :: "64 word"
  last_usable :: "64 word"

definition gpt_geometry :: "64 word \<Rightarrow> 32 word \<Rightarrow> gpt_layout" where
  "gpt_geometry disk_blocks block_size =
     (let bs = ucast block_size;
          es = ESP_ALIGN_BYTES div bs;
          el = ESP_SIZE_BYTES div bs;
          ee = es + el - 1;
          n = (128 * 128 + bs - 1) div bs;
          last = disk_blocks - 1;
          lu = last - n - 1 in
      \<lparr>esp_start = es, esp_end = ee, root_start = ee + 1, root_end = lu, entry_lbas = n, last_lba = last,
       first_usable = 2 + n, last_usable = lu\<rparr>)"

definition ESP_GUID :: "byte list" where
  "ESP_GUID = [0x28, 0x73, 0x2A, 0xC1, 0x1F, 0xF8, 0xD2, 0x11, 0xBA, 0x4B, 0x00, 0xA0, 0xC9, 0x3E, 0xC9, 0x3B]"

definition AEGIS_ROOT_GUID :: "byte list" where
  "AEGIS_ROOT_GUID = [0x24, 0x8F, 0x61, 0xA3, 0x76, 0x0C, 0x3D, 0x4B, 0x00, 0x01, 0x00, 0x00, 0x00, 0x00, 0x00, 0x00]"

definition gpt_entries :: "gpt_layout \<Rightarrow> byte list" where
  "gpt_entries g =
     pokes [(0, ESP_GUID), (16, [0x01, 0x02, 0x03, 0x04]),
            (32, le_bytes 8 (esp_start g)), (40, le_bytes 8 (esp_end g)),
            (128, AEGIS_ROOT_GUID), (144, [0x05, 0x06, 0x07, 0x08]),
            (160, le_bytes 8 (root_start g)), (168, le_bytes 8 (root_end g))] (replicate (128 * 128) 0)"

text \<open>\<open>"EFI PART"\<close> and the fields the two headers share; the CRC field is still zero.\<close>

definition efi_part :: "byte list" where
  "efi_part = [0x45, 0x46, 0x49, 0x20, 0x50, 0x41, 0x52, 0x54]"

definition header_fields :: "64 word \<Rightarrow> 64 word \<Rightarrow> 64 word \<Rightarrow> gpt_layout \<Rightarrow> 32 word \<Rightarrow> byte list" where
  "header_fields my_lba alt_lba entry_lba g entry_crc =
     pokes [(0, efi_part), (8, le_bytes 4 (0x00010000 :: 32 word)), (12, le_bytes 4 (92 :: 32 word)),
            (24, le_bytes 8 my_lba), (32, le_bytes 8 alt_lba),
            (40, le_bytes 8 (first_usable g)), (48, le_bytes 8 (last_usable g)),
            (56, [0xAE, 0x61, 0x15, 0x00]), (72, le_bytes 8 entry_lba),
            (80, le_bytes 4 (128 :: 32 word)), (84, le_bytes 4 (128 :: 32 word)),
            (88, le_bytes 4 entry_crc)] (replicate 512 0)"

definition seal_header :: "byte list \<Rightarrow> byte list" where
  "seal_header sector = poke 16 (le_bytes 4 (crc32_calc (take 92 sector))) sector"

definition primary_header :: "gpt_layout \<Rightarrow> 32 word \<Rightarrow> byte list" where
  "primary_header g entry_crc = seal_header (header_fields 1 (last_lba g) 2 g entry_crc)"

definition backup_header :: "gpt_layout \<Rightarrow> 32 word \<Rightarrow> byte list" where
  "backup_header g entry_crc = seal_header (header_fields (last_lba g) 1 (last_lba g - entry_lbas g) g entry_crc)"

text \<open>The part of the entry array that goes to the \<open>i\<close>-th block.\<close>

definition entry_block :: "byte list \<Rightarrow> nat \<Rightarrow> nat \<Rightarrow> byte list" where
  "entry_block entries bs i =
     (let to_copy = (if i * bs + bs > length entries then length entries - i * bs else bs) in
      take to_copy (drop (i * bs) entries))"

definition write_entry_blocks :: "byte list \<Rightarrow> 64 word \<Rightarrow> nat \<Rightarrow> nat \<Rightarrow> blkdev \<Rightarrow> bool \<times> blkdev" where
  "write_entry_blocks entries first bs n =
     wall (\<lambda>i. write_block (first + of_nat i) (entry_block entries bs i) bs) [0..<n]"

definition install_write_gpt :: "64 word \<Rightarrow> 32 word \<Rightarrow> blkdev \<Rightarrow> bool \<times> blkdev" where
  "install_write_gpt disk_blocks block_size =
     (let g = gpt_geometry disk_blocks block_size;
          bs = unat block_size;
          n = unat (entry_lbas g);
          entries = gpt_entries g;
          entry_crc = crc32_calc entries in
      if root_end g \<le> root_start g then (\<lambda>dv. (False, dv))
      else
        wthen (write_block 0 (write_protective_mbr disk_blocks) bs) (
        wthen (write_block 1 (primary_header g entry_crc) bs) (
        wthen (write_entry_blocks entries 2 bs n) (
        wthen (write_entry_blocks entries (last_lba g - entry_lbas g) bs n) (
        write_block (last_lba g) (backup_header g entry_crc) bs)))))"

section \<open>CRC-32 against the bit-by-bit division\<close>

text \<open>The register shifted out bit by bit, as the polynomial division is specified.\<close>

definition crc_bitwise :: "byte list \<Rightarrow> 32 word" where
  "crc_bitwise data = foldl (\<lambda>crc b. (crc_step ^^ 8) (crc XOR ucast b)) 0xFFFFFFFF data XOR 0xFFFFFFFF"

lemma and_1_bit: "(c :: 32 word) AND 1 \<noteq> 0 \<longleftrightarrow> bit c 0"
  by (auto simp: and_one_eq bit_0 odd_iff_mod_2_eq_one)

lemma crc_step_xor: "crc_step (a XOR b) = crc_step a XOR crc_step b"
  unfolding crc_step_def and_1_bit drop_bit_xor bit_xor_iff
  by (auto simp: ac_simps xor.left_commute)

lemma crc_steps_xor: "(crc_step ^^ n) (a XOR b) = (crc_step ^^ n) a XOR (crc_step ^^ n) b"
  by (induction n) (simp_all add: crc_step_xor)

lemma crc_steps_high:
  "(\<forall>i < n. \<not> bit c i) \<Longrightarrow> (crc_step ^^ n) c = drop_bit n c"
proof (induction n arbitrary: c)
  case (Suc n)
  have "crc_step c = drop_bit 1 c" using Suc.prems by (simp add: crc_step_def and_1_bit)
  moreover have "\<forall>i < n. \<not> bit (drop_bit 1 c) i" using Suc.prems by (simp add: bit_drop_bit_eq)
  ultimately show ?case using Suc.IH[of "drop_bit 1 c"] by (simp add: funpow_Suc_right del: funpow.simps)
qed simp

lemma and_0xFF: "(x :: 32 word) AND 0xFF = take_bit 8 x"
proof -
  have "(0xFF :: 32 word) = mask 8" by (simp add: mask_eq_exp_minus_1)
  then show ?thesis by (simp only: take_bit_eq_mask)
qed

lemma crc32_byte_bitwise: "crc32_byte crc b = (crc_step ^^ 8) (crc XOR ucast b)"
proof -
  define x where "x = crc XOR ucast b"
  define h where "h = push_bit 8 (drop_bit 8 x)"
  have x: "x = h XOR take_bit 8 x"
    unfolding h_def by (rule bit_word_eqI) (auto simp: bit_simps)
  have l: "unat (take_bit 8 x) < 256" by (simp add: unsigned_take_bit_eq take_bit_nat_def)
  have "crc32_table ! unat (take_bit 8 x) = (crc_step ^^ 8) (take_bit 8 x)"
    using l by (simp add: crc32_table_def)
  moreover have "(crc_step ^^ 8) h = drop_bit 8 h" by (rule crc_steps_high) (simp add: h_def bit_simps)
  moreover have "drop_bit 8 h = drop_bit 8 crc"
    unfolding h_def x_def by (rule bit_word_eqI) (auto simp: bit_simps dest: bit_imp_le_length)
  ultimately show ?thesis
    unfolding crc32_byte_def and_0xFF x_def[symmetric] by (subst (2) x) (simp add: crc_steps_xor)
qed

lemma xor_right_cancel: "(a :: 'a::len word) XOR c = b XOR c \<longleftrightarrow> a = b"
  by (metis xor.assoc xor_self_eq xor.right_neutral)

lemma xor_left_cancel: "(c :: 'a::len word) XOR a = c XOR b \<longleftrightarrow> a = b"
  by (metis xor_right_cancel xor.commute)

lemma inj_crc_step: "inj crc_step"
proof (rule injI)
  fix a b assume e: "crc_step a = crc_step b"
  have top: "bit (crc_step c) 31 \<longleftrightarrow> bit c 0" for c :: "32 word"
    by (auto simp: crc_step_def and_1_bit bit_xor_iff bit_drop_bit_eq dest: bit_imp_le_length)
  have z: "bit a 0 = bit b 0" using e top by metis
  then have "drop_bit 1 a = drop_bit 1 b" using e by (simp add: crc_step_def and_1_bit xor_right_cancel)
  then have "bit a (Suc i) = bit b (Suc i)" for i by (metis bit_drop_bit_eq comp_apply plus_1_eq_Suc)
  then show "a = b" using z by (intro bit_word_eqI) (metis not0_implies_Suc)
qed

lemma inj_crc32_byte: "crc32_byte a b = crc32_byte a' b' \<longleftrightarrow> a XOR ucast b = a' XOR ucast b'"
  unfolding crc32_byte_bitwise by (rule inj_eq[OF inj_fn[OF inj_crc_step]])

lemma inj_crc_register: "foldl crc32_byte a bs = foldl crc32_byte a' bs \<longleftrightarrow> a = a'"
  by (induction bs arbitrary: a a') (simp_all add: inj_crc32_byte xor_right_cancel)

lemma inj_ucast_byte: "(ucast (b :: byte) :: 32 word) = ucast c \<longleftrightarrow> b = c"
proof
  assume e: "(ucast b :: 32 word) = ucast c"
  show "b = c"
  proof (rule bit_word_eqI)
    fix i assume "i < LENGTH(8)"
    then show "bit b i = bit c i" using arg_cong[OF e, of "\<lambda>w. bit w i"] by (simp add: bit_ucast_iff)
  qed
qed simp

text \<open>
  C28: The table-driven CRC-32 is the division of the message by the polynomial one bit at a time,
  and a change of a single byte always changes it.\<close>

theorem crc32_calc_bitwise:
  "crc32_calc data = crc_bitwise data \<and> (crc32_calc (xs @ b # ys) = crc32_calc (xs @ c # ys) \<longleftrightarrow> b = c)"
  by (simp add: crc32_calc_def crc_bitwise_def crc32_byte_bitwise[symmetric] xor_right_cancel inj_crc_register
    inj_crc32_byte xor_left_cancel inj_ucast_byte)

section \<open>Sequences of block writes\<close>

type_synonym wr = "64 word \<times> byte list"

definition wseq :: "wr list \<Rightarrow> blkdev \<Rightarrow> bool \<times> blkdev" where
  "wseq = wall (\<lambda>(lba, d). li_blkdev_write lba d)"

definition after :: "wr list \<Rightarrow> (64 word \<Rightarrow> byte list) \<Rightarrow> 64 word \<Rightarrow> byte list" where
  "after ops f = (\<lambda>lba. case map_of (rev ops) lba of None \<Rightarrow> f lba | Some d \<Rightarrow> d)"

lemma wseq_simps:
  "wseq [] dv = (True, dv)"
  "wseq ((lba, d) # ops) dv = wthen (li_blkdev_write lba d) (wseq ops) dv"
  by (simp_all add: wseq_def)

lemma wthen_assoc: "wthen (wthen a b) c = wthen a (wthen b c)"
  by (rule ext) (simp add: wthen_def split: prod.split)

lemma wseq_Cons: "wseq ((lba, d) # ops) = wthen (li_blkdev_write lba d) (wseq ops)"
  by (rule ext) (rule wseq_simps)

lemma wseq_append: "wthen (wseq a) (wseq b) = wseq (a @ b)"
proof (induction a)
  case Nil
  show ?case by (rule ext) (simp add: wseq_simps wthen_def)
next
  case (Cons op a)
  then show ?case by (cases op) (simp add: wseq_Cons wthen_assoc)
qed

lemma after_Cons: "after ((lba, d) # ops) f = after ops (f(lba := d))"
  by (auto simp: after_def map_add_def fun_eq_iff split: option.split)

lemma wseq_ok:
  "(\<And>n. \<not> io_fails dv n) \<Longrightarrow>
   fst (wseq ops dv) \<and> blocks (snd (wseq ops dv)) = after ops (blocks dv)"
proof (induction ops arbitrary: dv)
  case Nil
  show ?case by (simp add: wseq_simps after_def)
next
  case (Cons op ops)
  obtain lba d where op: "op = (lba, d)" by (cases op)
  show ?case
    using Cons.prems Cons.IH[of "dv\<lparr>io_fails := \<lambda>n. io_fails dv (Suc n), blocks := (blocks dv)(lba := d)\<rparr>"]
    by (auto simp: op wseq_simps wthen_def li_blkdev_write_def Let_def after_Cons fun_upd_def)
qed

lemma wseq_prefix:
  "\<exists>k \<le> length ops. blocks (snd (wseq ops dv)) = after (take k ops) (blocks dv) \<and> (fst (wseq ops dv) \<longleftrightarrow> k = length ops)"
proof (induction ops arbitrary: dv)
  case Nil
  show ?case by (simp add: wseq_simps after_def)
next
  case (Cons op ops)
  obtain lba d where op: "op = (lba, d)" by (cases op)
  let ?dv = "dv\<lparr>io_fails := \<lambda>n. io_fails dv (Suc n), blocks := (blocks dv)(lba := d)\<rparr>"
  show ?case
  proof (cases "io_fails dv 0")
    case True
    then show ?thesis
      by (intro exI[of _ 0]) (simp add: op wseq_simps wthen_def li_blkdev_write_def Let_def after_def)
  next
    case False
    obtain k where "k \<le> length ops" "blocks (snd (wseq ops ?dv)) = after (take k ops) (blocks ?dv)"
      "fst (wseq ops ?dv) \<longleftrightarrow> k = length ops" using Cons.IH by blast
    then show ?thesis using False
      by (intro exI[of _ "Suc k"]) (simp add: op wseq_simps wthen_def li_blkdev_write_def Let_def after_Cons)
  qed
qed

lemma wseq_fails_at:
  "k < length ops \<Longrightarrow> \<forall>n < k. \<not> io_fails dv n \<Longrightarrow> io_fails dv k \<Longrightarrow>
   \<not> fst (wseq ops dv) \<and> blocks (snd (wseq ops dv)) = after (take k ops) (blocks dv)"
proof (induction ops arbitrary: dv k)
  case (Cons op ops)
  obtain lba d where op: "op = (lba, d)" by (cases op)
  let ?dv = "dv\<lparr>io_fails := \<lambda>n. io_fails dv (Suc n), blocks := (blocks dv)(lba := d)\<rparr>"
  show ?case
  proof (cases k)
    case 0
    then show ?thesis
      using Cons.prems by (simp add: op wseq_simps wthen_def li_blkdev_write_def Let_def after_def)
  next
    case (Suc j)
    then show ?thesis using Cons.prems Cons.IH[of j ?dv]
      by (simp add: op wseq_simps wthen_def li_blkdev_write_def Let_def after_Cons fun_upd_def)
  qed
qed simp

lemma after_notin: "lba \<notin> fst ` set ops \<Longrightarrow> after ops f lba = f lba"
  by (simp add: after_def map_of_eq_None_iff[THEN iffD2])

lemma after_in: "distinct (map fst ops) \<Longrightarrow> (lba, d) \<in> set ops \<Longrightarrow> after ops f lba = d"
  using map_of_is_SomeI[of "rev ops" lba d] by (simp add: after_def rev_map[symmetric])

section \<open>The writes of \<open>install_write_gpt\<close>\<close>

definition padded :: "nat \<Rightarrow> byte list \<Rightarrow> byte list" where
  "padded bs d = take bs d @ replicate (bs - length d) 0"

definition array_ops :: "byte list \<Rightarrow> 64 word \<Rightarrow> nat \<Rightarrow> nat \<Rightarrow> wr list" where
  "array_ops entries first bs n = map (\<lambda>i. (first + of_nat i, padded bs (entry_block entries bs i))) [0..<n]"

definition gpt_ops :: "64 word \<Rightarrow> 32 word \<Rightarrow> wr list" where
  "gpt_ops disk_blocks block_size =
     (let g = gpt_geometry disk_blocks block_size; bs = unat block_size; n = unat (entry_lbas g);
          e = gpt_entries g in
      (0, padded bs (write_protective_mbr disk_blocks)) # (1, padded bs (primary_header g (crc32_calc e))) #
      array_ops e 2 bs n @ array_ops e (last_lba g - entry_lbas g) bs n @
      [(last_lba g, padded bs (backup_header g (crc32_calc e)))])"

lemma wall_map: "wall (\<lambda>i. li_blkdev_write (f i) (h i)) xs = wseq (map (\<lambda>i. (f i, h i)) xs)"
proof
  fix dv show "wall (\<lambda>i. li_blkdev_write (f i) (h i)) xs dv = wseq (map (\<lambda>i. (f i, h i)) xs) dv"
    by (induction xs arbitrary: dv) (auto simp: wseq_simps wthen_def split: prod.split)
qed

lemma write_block_wseq: "write_block lba d bs = wseq [(lba, padded bs d)]"
  by (rule ext) (simp add: write_block_def padded_def wseq_simps wthen_def split: prod.split)

lemma write_entry_blocks_wseq: "write_entry_blocks e first bs n = wseq (array_ops e first bs n)"
  unfolding write_entry_blocks_def array_ops_def wall_map[symmetric] write_block_def padded_def ..

lemma install_write_gpt_wseq:
  "\<not> root_end (gpt_geometry db sz) \<le> root_start (gpt_geometry db sz) \<Longrightarrow>
   install_write_gpt db sz = wseq (gpt_ops db sz)"
  unfolding install_write_gpt_def gpt_ops_def Let_def write_block_wseq write_entry_blocks_wseq wseq_append
  by simp

lemma install_write_gpt_small:
  "root_end (gpt_geometry db sz) \<le> root_start (gpt_geometry db sz) \<Longrightarrow> install_write_gpt db sz dv = (False, dv)"
  by (simp add: install_write_gpt_def Let_def)

section \<open>The layout\<close>

text \<open>The block sizes of the supported devices, and disks that hold both tables.\<close>

definition gpt_fits :: "64 word \<Rightarrow> 32 word \<Rightarrow> bool" where
  "gpt_fits db sz \<longleftrightarrow> 512 \<le> sz \<and> sz \<le> 4096 \<and> entry_lbas (gpt_geometry db sz) + 2 \<le> db \<and>
     root_start (gpt_geometry db sz) < root_end (gpt_geometry db sz)"

lemma entry_lbas_bound: "512 \<le> b \<Longrightarrow> (16384 + b - 1) div b \<le> (33 :: nat)"
  using div_less_iff_less_mult[of b "16384 + b - 1" 34] by auto

lemma esp_start_bound: "0 < b \<Longrightarrow> b \<le> 4096 \<Longrightarrow> 256 \<le> 1048576 div (b :: nat)"
  by (simp add: less_eq_div_iff_mult_less_eq)

lemma esp_size_bound: "0 < b \<Longrightarrow> b \<le> 4096 \<Longrightarrow> 2048 \<le> 8388608 div (b :: nat)"
  by (simp add: less_eq_div_iff_mult_less_eq)

lemma geometry_unat:
  fixes sz :: "32 word" and db :: "64 word"
  assumes "512 \<le> sz" "sz \<le> 4096"
  defines "b \<equiv> unat sz" and "g \<equiv> gpt_geometry db sz"
  shows "unat (esp_start g) = 1048576 div b"
    and "unat (entry_lbas g) = (16384 + b - 1) div b"
    and "unat (esp_end g) = 1048576 div b + 8388608 div b - 1"
    and "unat (root_start g) = 1048576 div b + 8388608 div b"
    and "unat (first_usable g) = 2 + (16384 + b - 1) div b"
proof -
  have b: "512 \<le> b" "b \<le> 4096" using assms(1,2) by (simp_all add: b_def word_le_nat_alt)
  have w: "unat (ucast sz :: 64 word) = b"
    using b by (simp add: b_def[symmetric] unsigned_ucast_eq take_bit_nat_eq_self)
  show es: "unat (esp_start g) = 1048576 div b"
    by (simp add: g_def gpt_geometry_def Let_def ESP_ALIGN_BYTES_def unat_div_distrib w)
  have el: "unat (ESP_SIZE_BYTES div ucast sz) = 8388608 div b"
    by (simp add: ESP_SIZE_BYTES_def unat_div_distrib w)
  have s: "unat (128 * 128 + (ucast sz :: 64 word) - 1) = 16384 + b - 1"
  proof -
    have "unat (16384 + (ucast sz :: 64 word)) = 16384 + b" using b w by (subst unat_add_lem[THEN iffD1]) auto
    then show ?thesis using b by (subst unat_sub) (simp_all add: word_le_nat_alt)
  qed
  show n: "unat (entry_lbas g) = (16384 + b - 1) div b"
    using s by (simp add: g_def gpt_geometry_def Let_def unat_div_distrib w)
  have le: "1048576 div b + 8388608 div b < 18446744073709551616"
    using div_le_dividend[of 1048576 b] div_le_dividend[of 8388608 b] by linarith
  have a: "unat (esp_start g + ESP_SIZE_BYTES div ucast sz) = 1048576 div b + 8388608 div b"
    using le es el by (subst unat_add_lem[THEN iffD1]) auto
  have ee: "esp_end g = esp_start g + ESP_SIZE_BYTES div ucast sz - 1" "root_start g = esp_end g + 1"
    by (simp_all add: g_def gpt_geometry_def Let_def)
  show e: "unat (esp_end g) = 1048576 div b + 8388608 div b - 1"
    unfolding ee using a esp_start_bound[of b] b by (subst unat_sub) (simp_all add: word_le_nat_alt)
  show "unat (root_start g) = 1048576 div b + 8388608 div b"
    unfolding ee(2) using e le esp_start_bound[of b] b by (subst unat_add_lem[THEN iffD1]) auto
  have "first_usable g = 2 + entry_lbas g" by (simp add: g_def gpt_geometry_def Let_def)
  then show "unat (first_usable g) = 2 + (16384 + b - 1) div b"
    using n entry_lbas_bound[OF b(1)] by (simp, subst unat_add_lem[THEN iffD1]) auto
qed

lemma geometry_end_unat:
  fixes sz :: "32 word" and db :: "64 word"
  defines "g \<equiv> gpt_geometry db sz"
  assumes "gpt_fits db sz"
  shows "unat (last_lba g) = unat db - 1"
    and "unat (last_usable g) = unat db - unat (entry_lbas g) - 2"
    and "unat (last_lba g - entry_lbas g) = unat db - 1 - unat (entry_lbas g)"
    and "root_end g = last_usable g"
    and "unat (entry_lbas g) + 2 \<le> unat db"
    and "unat (root_start g) < unat (last_usable g)"
proof -
  have f: "512 \<le> sz" "sz \<le> 4096" "entry_lbas g + 2 \<le> db" "root_start g < root_end g"
    using assms(2) by (simp_all add: gpt_fits_def g_def)
  have n: "unat (entry_lbas g) \<le> 33"
    using geometry_unat(2)[OF f(1,2), of db] entry_lbas_bound[of "unat sz"] f(1)
    by (simp add: g_def word_le_nat_alt)
  show N: "unat (entry_lbas g) + 2 \<le> unat db"
    using f(3) n by (simp add: word_le_nat_alt unat_word_ariths)
  have d: "last_lba g = db - 1" "last_usable g = last_lba g - entry_lbas g - 1"
    by (simp_all add: g_def gpt_geometry_def Let_def)
  show l: "unat (last_lba g) = unat db - 1" using N by (simp add: d(1) unat_sub word_le_nat_alt)
  show s: "unat (last_lba g - entry_lbas g) = unat db - 1 - unat (entry_lbas g)"
    using N l by (simp add: unat_sub word_le_nat_alt)
  show u: "unat (last_usable g) = unat db - unat (entry_lbas g) - 2"
    unfolding d(2) using N s by (subst unat_sub) (simp_all add: word_le_nat_alt)
  show e: "root_end g = last_usable g" by (simp add: g_def gpt_geometry_def Let_def)
  show "unat (root_start g) < unat (last_usable g)" using f(4) e by (simp add: word_less_nat_alt)
qed

lemma geometry_order:
  fixes sz :: "32 word" and db :: "64 word"
  defines "g \<equiv> gpt_geometry db sz"
  assumes "gpt_fits db sz"
  shows "unat (first_usable g) \<le> unat (esp_start g)" "unat (esp_start g) \<le> unat (esp_end g)"
    "unat (root_start g) = Suc (unat (esp_end g))" "unat (first_usable g) = 2 + unat (entry_lbas g)"
    "unat (root_start g) < unat (last_usable g)"
    "Suc (unat (last_usable g)) = unat (last_lba g - entry_lbas g)"
    "unat (last_lba g - entry_lbas g) + unat (entry_lbas g) = unat (last_lba g)"
    "Suc (unat (last_lba g)) = unat db"
proof -
  have f: "512 \<le> sz" "sz \<le> 4096" using assms(2) by (simp_all add: gpt_fits_def)
  then have b: "512 \<le> unat sz" "unat sz \<le> 4096" by (simp_all add: word_le_nat_alt)
  note u = geometry_unat[OF f, of db, folded g_def] and e = geometry_end_unat[OF assms(2), folded g_def]
  show "unat (first_usable g) \<le> unat (esp_start g)" "unat (esp_start g) \<le> unat (esp_end g)"
    "unat (root_start g) = Suc (unat (esp_end g))"
    using u entry_lbas_bound[of "unat sz"] esp_start_bound[of "unat sz"] esp_size_bound[of "unat sz"] b by auto
  show "unat (first_usable g) = 2 + unat (entry_lbas g)" using u by simp
  show "unat (root_start g) < unat (last_usable g)" by (rule e)
  show "Suc (unat (last_usable g)) = unat (last_lba g - entry_lbas g)"
    "unat (last_lba g - entry_lbas g) + unat (entry_lbas g) = unat (last_lba g)"
    "Suc (unat (last_lba g)) = unat db"
    using e by simp_all
qed

lemma array_keys:
  "unat f + n < 2 ^ 64 \<Longrightarrow> map (unat \<circ> fst) (array_ops e f bs n) = [unat f ..< unat f + n]"
proof (rule nth_equalityI)
  fix i assume a: "unat f + n < 2 ^ 64" "i < length (map (unat \<circ> fst) (array_ops e f bs n))"
  then have i: "i < n" by (simp add: array_ops_def)
  then have "unat (of_nat i :: 64 word) = i" using a(1) by (simp add: unsigned_of_nat take_bit_nat_eq_self)
  then have "unat (f + of_nat i) = unat f + i" using a(1) i by (subst unat_add_lem[THEN iffD1]) auto
  then show "map (unat \<circ> fst) (array_ops e f bs n) ! i = [unat f ..< unat f + n] ! i"
    using i by (simp add: array_ops_def)
qed (simp add: array_ops_def)

lemma array_keys_in:
  assumes "unat f + n < 2 ^ 64" "lba \<in> fst ` set (array_ops e f bs n)"
  shows "unat f \<le> unat lba \<and> unat lba < unat f + n"
proof -
  have "unat lba \<in> set (map (unat \<circ> fst) (array_ops e f bs n))" using assms(2) by auto
  then show ?thesis unfolding array_keys[OF assms(1)] by simp
qed

lemma length_array_ops [simp]: "length (array_ops e f bs n) = n"
  by (simp add: array_ops_def)

lemma take_array_ops: "k \<le> n \<Longrightarrow> take k (array_ops e f bs n) = array_ops e f bs k"
  by (simp add: array_ops_def take_map take_upt)

lemma gpt_keys:
  fixes sz :: "32 word" and db :: "64 word"
  defines "g \<equiv> gpt_geometry db sz"
  assumes "gpt_fits db sz"
  shows "map (unat \<circ> fst) (gpt_ops db sz) =
     [0 ..< unat (first_usable g)] @ [Suc (unat (last_usable g)) ..< unat db]"
proof -
  note o = geometry_order[OF assms(2), folded g_def]
  have lt: "unat db < 2 ^ 64" by (rule order_less_le_trans[OF unsigned_less]) simp
  have two: "unat (2 :: 64 word) = 2" by simp
  have a: "map (unat \<circ> fst) (array_ops e 2 bs (unat (entry_lbas g))) = [2 ..< unat (first_usable g)]"
    and c: "map (unat \<circ> fst) (array_ops e (last_lba g - entry_lbas g) bs (unat (entry_lbas g))) =
      [Suc (unat (last_usable g)) ..< unat (last_lba g)]" for e bs
    using array_keys[of 2 "unat (entry_lbas g)" e bs] array_keys[of "last_lba g - entry_lbas g" "unat (entry_lbas g)" e bs]
      o lt by (simp_all del: upt_Suc)
  have "[0 ..< unat (first_usable g)] = 0 # 1 # [2 ..< unat (first_usable g)]"
    using o(4) by (simp add: upt_conv_Cons numeral_2_eq_2)
  moreover have "[Suc (unat (last_usable g)) ..< unat db] = [Suc (unat (last_usable g)) ..< unat (last_lba g)] @ [unat (last_lba g)]"
    unfolding o(8)[symmetric] by (rule upt_Suc_append) (use o in linarith)
  ultimately show ?thesis
    by (simp add: gpt_ops_def Let_def g_def[symmetric] a c del: upt_Suc)
qed

lemma gpt_ops_distinct: "gpt_fits db sz \<Longrightarrow> distinct (map fst (gpt_ops db sz))"
  using gpt_keys[of db sz] geometry_order[of db sz]
  by (intro distinct_map[THEN iffD1, THEN conjunct1, of unat]) simp

lemma gpt_ops_keys:
  assumes "gpt_fits db sz" "lba \<in> fst ` set (gpt_ops db sz)"
  shows "lba < first_usable (gpt_geometry db sz) \<or> last_usable (gpt_geometry db sz) < lba"
proof -
  have "unat lba \<in> set (map (unat \<circ> fst) (gpt_ops db sz))" using assms(2) by auto
  then show ?thesis using gpt_keys[OF assms(1)] by (auto simp: word_less_nat_alt)
qed

lemma install_write_gpt_fits: "gpt_fits db sz \<Longrightarrow> install_write_gpt db sz = wseq (gpt_ops db sz)"
  by (rule install_write_gpt_wseq) (auto simp: gpt_fits_def not_le)

text \<open>
  C27: Whether or not a write fails, the blocks between the two tables, and so both partitions,
  keep what they hold.\<close>

theorem install_write_gpt_keeps_partitions:
  assumes "gpt_fits disk_blocks block_size"
    and "first_usable (gpt_geometry disk_blocks block_size) \<le> lba"
    and "lba \<le> last_usable (gpt_geometry disk_blocks block_size)"
  shows "blocks (snd (install_write_gpt disk_blocks block_size dv)) lba = blocks dv lba"
proof -
  let ?ops = "gpt_ops disk_blocks block_size"
  have "install_write_gpt disk_blocks block_size = wseq ?ops" using assms(1) by (rule install_write_gpt_fits)
  moreover obtain k where "blocks (snd (wseq ?ops dv)) = after (take k ?ops) (blocks dv)"
    using wseq_prefix by blast
  moreover have "lba \<notin> fst ` set (take k ?ops)"
    using gpt_ops_keys[OF assms(1)] assms(2,3) set_take_subset[of k ?ops] by (fastforce simp: not_less[symmetric])
  ultimately show ?thesis by (simp add: after_notin)
qed

section \<open>Reading the table back\<close>

text \<open>
  What a reader of the UEFI specification does with a header: check the signature, the header's
  own block number and checksum, fetch the array and check its checksum, and list the entries in
  use as type, first and last block.
\<close>

type_synonym gpt_part = "byte list \<times> 64 word \<times> 64 word"

definition gpt_header_ok :: "64 word \<Rightarrow> byte list \<Rightarrow> bool" where
  "gpt_header_ok lba s \<longleftrightarrow> peek 0 8 s = efi_part \<and> le_word (peek 24 8 s) = lba \<and>
     le_word (peek 16 4 s) = crc32_calc (poke 16 [0, 0, 0, 0] (take (unat (le_word (peek 12 4 s) :: 32 word)) s))"

definition gpt_array :: "nat \<Rightarrow> (64 word \<Rightarrow> byte list) \<Rightarrow> 64 word \<Rightarrow> nat \<Rightarrow> byte list" where
  "gpt_array bs f first len = take len (concat (map (\<lambda>i. f (first + of_nat i)) [0..<(len + bs - 1) div bs]))"

definition gpt_entry :: "byte list \<Rightarrow> nat \<Rightarrow> gpt_part" where
  "gpt_entry raw off = (peek off 16 raw, le_word (peek (off + 32) 8 raw), le_word (peek (off + 40) 8 raw))"

definition gpt_parts :: "nat \<Rightarrow> nat \<Rightarrow> byte list \<Rightarrow> gpt_part list" where
  "gpt_parts n esz raw = filter (\<lambda>p. fst p \<noteq> replicate 16 0) (map (\<lambda>i. gpt_entry raw (esz * i)) [0..<n])"

definition gpt_read :: "nat \<Rightarrow> (64 word \<Rightarrow> byte list) \<Rightarrow> 64 word \<Rightarrow> gpt_part list option" where
  "gpt_read bs f lba =
     (let s = f lba; n = unat (le_word (peek 80 4 s) :: 32 word); esz = unat (le_word (peek 84 4 s) :: 32 word);
          raw = gpt_array bs f (le_word (peek 72 8 s)) (n * esz) in
      if gpt_header_ok lba s \<and> crc32_calc raw = le_word (peek 88 4 s) then Some (gpt_parts n esz raw) else None)"

definition gpt_partitions :: "gpt_layout \<Rightarrow> gpt_part list" where
  "gpt_partitions g = [(ESP_GUID, esp_start g, esp_end g), (AEGIS_ROOT_GUID, root_start g, root_end g)]"

lemma length_efi_part [simp]: "length efi_part = 8"
  by (simp add: efi_part_def)

lemma length_header_fields [simp]: "length (header_fields a b c g e) = 512"
  unfolding header_fields_def by (subst length_pokes) simp_all

lemma header_fields_peek:
  "peek 0 8 (header_fields a b c g e) = efi_part"
  "peek 12 4 (header_fields a b c g e) = le_bytes 4 (92 :: 32 word)"
  "peek 24 8 (header_fields a b c g e) = le_bytes 8 a"
  "peek 72 8 (header_fields a b c g e) = le_bytes 8 c"
  "peek 80 4 (header_fields a b c g e) = le_bytes 4 (128 :: 32 word)"
  "peek 84 4 (header_fields a b c g e) = le_bytes 4 (128 :: 32 word)"
  "peek 88 4 (header_fields a b c g e) = le_bytes 4 e"
  unfolding header_fields_def by (rule peek_pokes; simp)+

lemma header_fields_crc: "peek 16 4 (header_fields a b c g e) = replicate 4 0"
  unfolding header_fields_def by (subst peek_pokes_other) (simp_all add: peek_replicate)

lemma seal_header_peek:
  "length s = 512 \<Longrightarrow> off + n \<le> 16 \<or> 20 \<le> off \<Longrightarrow> peek off n (seal_header s) = peek off n s"
  by (simp add: seal_header_def peek_poke_other)

lemma length_seal_header [simp]: "length s = 512 \<Longrightarrow> length (seal_header s) = 512"
  by (simp add: seal_header_def)

lemma seal_header_ok:
  assumes "s = header_fields lba b c g e"
  shows "gpt_header_ok lba (seal_header s @ zs)"
proof -
  have l: "length s = 512" using assms by simp
  let ?c = "le_bytes 4 (crc32_calc (take 92 s))"
  have "peek 16 4 (take 92 s) = replicate 4 0" using assms by (simp add: peek_take header_fields_crc)
  then have "poke 16 (replicate 4 0) (take 92 s) = take 92 s"
    using poke_peek[of 16 4 "take 92 s"] l by simp
  then have "poke 16 (replicate 4 0) (take 92 (seal_header s @ zs)) = take 92 s"
    using l by (simp add: seal_header_def take_poke poke_poke)
  moreover have "[0, 0, 0, 0] = replicate 4 (0 :: byte)" by (simp add: numeral_eq_Suc)
  moreover have "peek 16 4 (seal_header s @ zs) = ?c"
    using l by (simp add: peek_append seal_header_def peek_poke_eq)
  ultimately show ?thesis
    using l by (simp add: gpt_header_ok_def peek_append seal_header_peek assms header_fields_peek
      le_word_bytes_sizes length_seal_header)
qed

lemma length_guids [simp]: "length ESP_GUID = 16" "length AEGIS_ROOT_GUID = 16"
  by (simp_all add: ESP_GUID_def AEGIS_ROOT_GUID_def)

lemma length_gpt_entries [simp]: "length (gpt_entries g) = 16384"
  unfolding gpt_entries_def by (subst length_pokes) simp_all

lemma gpt_entry_used:
  "gpt_entry (gpt_entries g) 0 = (ESP_GUID, esp_start g, esp_end g)"
  "gpt_entry (gpt_entries g) 128 = (AEGIS_ROOT_GUID, root_start g, root_end g)"
proof -
  have "peek 0 16 (gpt_entries g) = ESP_GUID" "peek 32 8 (gpt_entries g) = le_bytes 8 (esp_start g)"
    "peek 40 8 (gpt_entries g) = le_bytes 8 (esp_end g)" "peek 128 16 (gpt_entries g) = AEGIS_ROOT_GUID"
    "peek 160 8 (gpt_entries g) = le_bytes 8 (root_start g)" "peek 168 8 (gpt_entries g) = le_bytes 8 (root_end g)"
    unfolding gpt_entries_def by (rule peek_pokes; simp)+
  then show "gpt_entry (gpt_entries g) 0 = (ESP_GUID, esp_start g, esp_end g)"
    "gpt_entry (gpt_entries g) 128 = (AEGIS_ROOT_GUID, root_start g, root_end g)"
    by (simp_all add: gpt_entry_def le_word_bytes_sizes)
qed

lemma gpt_entry_unused:
  assumes "2 \<le> i" "i < 128"
  shows "fst (gpt_entry (gpt_entries g) (128 * i)) = replicate 16 0"
  unfolding gpt_entry_def gpt_entries_def fst_conv using assms
  by (subst peek_pokes_other) (simp_all add: peek_replicate)

lemma gpt_parts_entries:
  assumes "2 \<le> n" "n \<le> 128"
  shows "gpt_parts n 128 (gpt_entries g) = gpt_partitions g"
proof -
  have "[0..<n] = 0 # 1 # [2..<n]" using assms(1) by (simp add: upt_conv_Cons numeral_2_eq_2)
  moreover have "filter (\<lambda>p. fst p \<noteq> replicate 16 0) (map (\<lambda>i. gpt_entry (gpt_entries g) (128 * i)) [2..<n]) = []"
    unfolding filter_empty_conv using assms(2) by (auto simp: gpt_entry_unused)
  moreover have "hd ESP_GUID \<noteq> 0" "hd AEGIS_ROOT_GUID \<noteq> 0" by (simp_all add: ESP_GUID_def AEGIS_ROOT_GUID_def)
  then have "ESP_GUID \<noteq> replicate 16 0" "AEGIS_ROOT_GUID \<noteq> replicate 16 0"
    by (metis hd_replicate zero_neq_numeral)+
  ultimately show ?thesis unfolding gpt_parts_def gpt_partitions_def by (simp add: gpt_entry_used del: upt_Suc)
qed

lemma padded_entry_block:
  "i * bs < length e \<Longrightarrow> padded bs (entry_block e bs i) = take bs (drop (i * bs) (e @ replicate bs 0))"
  by (auto simp: padded_def entry_block_def Let_def)

lemma concat_blocks: "concat (map (\<lambda>i. take bs (drop (i * bs) xs)) [0..<n]) = take (n * bs) xs"
proof (induction n)
  case (Suc n)
  have "take (Suc n * bs) xs = take (n * bs) xs @ take bs (drop (n * bs) xs)"
    by (metis add.commute mult_Suc take_add)
  then show ?case using Suc by simp
qed simp

lemma gpt_array_after:
  assumes "0 < bs" "n = (length e + bs - 1) div bs" "\<And>i. i < n \<Longrightarrow> f (first + of_nat i) = padded bs (entry_block e bs i)"
  shows "gpt_array bs f first (length e) = e"
proof -
  have lt: "i * bs < length e" if "i < n" for i
  proof -
    have "Suc i \<le> (length e + bs - 1) div bs" using that assms(2) by simp
    then have "Suc i * bs \<le> length e + bs - 1" using assms(1) by (simp add: less_eq_div_iff_mult_less_eq)
    then show ?thesis using assms(1) by simp
  qed
  have "map (\<lambda>i. f (first + of_nat i)) [0..<n] = map (\<lambda>i. take bs (drop (i * bs) (e @ replicate bs 0))) [0..<n]"
    using assms(3) lt by (intro map_cong) (simp_all add: padded_entry_block)
  then have "gpt_array bs f first (length e) = take (length e) (take (n * bs) (e @ replicate bs 0))"
    unfolding gpt_array_def assms(2)[symmetric] concat_blocks[symmetric] by (rule arg_cong)
  moreover have "length e \<le> n * bs"
  proof -
    have "length e + bs - 1 < (n + 1) * bs" unfolding assms(2)
      using assms(1) div_less_iff_less_mult[of bs "length e + bs - 1" "(length e + bs - 1) div bs + 1"] by simp
    then show ?thesis using assms(1) by simp
  qed
  ultimately show ?thesis by (simp add: min_absorb1)
qed

lemma gpt_read_sealed:
  assumes "0 < bs" "512 \<le> bs" "f lba = padded bs (seal_header (header_fields lba b c g (crc32_calc e)))"
    and "e = gpt_entries g"
    and "\<And>i. i < (16384 + bs - 1) div bs \<Longrightarrow> f (c + of_nat i) = padded bs (entry_block e bs i)"
  shows "gpt_read bs f lba = Some (gpt_partitions g)"
proof -
  let ?s = "seal_header (header_fields lba b c g (crc32_calc e))"
  have s: "f lba = ?s @ replicate (bs - 512) 0" using assms(2,3) by (simp add: padded_def)
  have a: "gpt_array bs f c 16384 = e" using gpt_array_after[of bs _ e f c] assms(1,4,5) by simp
  have p: "peek off n (f lba) = peek off n (header_fields lba b c g (crc32_calc e))" if "20 \<le> off" "off + n \<le> 512" for off n
    using that by (simp add: s peek_append seal_header_peek)
  show ?thesis
    using seal_header_ok[OF refl, of lba b c g "crc32_calc e" "replicate (bs - 512) 0", folded s] a
      gpt_parts_entries[of 128 g]
    by (simp add: gpt_read_def Let_def p header_fields_peek le_word_bytes_sizes assms(4))
qed

lemma in_array_ops: "i < n \<Longrightarrow> (first + of_nat i, padded bs (entry_block e bs i)) \<in> set (array_ops e first bs n)"
  by (auto simp: array_ops_def)

lemma install_write_gpt_after:
  assumes "gpt_fits db sz" "\<And>n. \<not> io_fails dv n"
  shows "fst (install_write_gpt db sz dv)"
    and "(lba, d) \<in> set (gpt_ops db sz) \<Longrightarrow> blocks (snd (install_write_gpt db sz dv)) lba = d"
  using wseq_ok[OF assms(2), of "gpt_ops db sz"] install_write_gpt_fits[OF assms(1)]
    after_in[OF gpt_ops_distinct[OF assms(1)]] by simp_all

text \<open>
  C25: On a device that accepts the writes, \<open>install_write_gpt\<close> succeeds and leaves two complete
  tables: from the primary header in block 1 and from the backup header in the last block a
  reader that checks signature, position and both checksums finds exactly the two partitions.\<close>

theorem install_write_gpt_reads_back:
  assumes "gpt_fits disk_blocks block_size" "\<And>n. \<not> io_fails dv n"
  defines "g \<equiv> gpt_geometry disk_blocks block_size"
    and "r \<equiv> install_write_gpt disk_blocks block_size dv"
  shows "fst r \<and> gpt_read (unat block_size) (blocks (snd r)) 1 = Some (gpt_partitions g) \<and>
    gpt_read (unat block_size) (blocks (snd r)) (disk_blocks - 1) = Some (gpt_partitions g)"
proof -
  note w = install_write_gpt_after[OF assms(1,2), folded r_def]
  have f: "512 \<le> block_size" "block_size \<le> 4096" using assms(1) by (simp_all add: gpt_fits_def)
  then have b: "512 \<le> unat block_size" by (simp add: word_le_nat_alt)
  have n: "(16384 + unat block_size - 1) div unat block_size = unat (entry_lbas g)"
    using geometry_unat(2)[OF f, of disk_blocks] by (simp add: g_def)
  have l: "disk_blocks - 1 = last_lba g" by (simp add: g_def gpt_geometry_def Let_def)
  have "gpt_read (unat block_size) (blocks (snd r)) 1 = Some (gpt_partitions g)"
  proof (rule gpt_read_sealed[OF _ b _ refl, where b = "last_lba g" and c = 2])
    show "blocks (snd r) (2 + of_nat i) = padded (unat block_size) (entry_block (gpt_entries g) (unat block_size) i)"
      if "i < (16384 + unat block_size - 1) div unat block_size" for i
      using that unfolding n by (intro w(2)) (simp add: gpt_ops_def Let_def g_def[symmetric] in_array_ops)
  qed (use b in \<open>auto simp: gpt_ops_def Let_def g_def[symmetric] primary_header_def intro!: w(2)\<close>)
  moreover have "gpt_read (unat block_size) (blocks (snd r)) (last_lba g) = Some (gpt_partitions g)"
  proof (rule gpt_read_sealed[OF _ b _ refl, where b = 1 and c = "last_lba g - entry_lbas g"])
    show "blocks (snd r) (last_lba g - entry_lbas g + of_nat i) =
        padded (unat block_size) (entry_block (gpt_entries g) (unat block_size) i)"
      if "i < (16384 + unat block_size - 1) div unat block_size" for i
      using that unfolding n by (intro w(2)) (simp add: gpt_ops_def Let_def g_def[symmetric] in_array_ops)
  qed (use b in \<open>auto simp: gpt_ops_def Let_def g_def[symmetric] backup_header_def intro!: w(2)\<close>)
  ultimately show ?thesis using w(1) l by simp
qed

text \<open>
  C26: The partitions are disjoint, in order, inside the usable range, and the usable range meets
  neither copy of the table.\<close>

theorem gpt_layout_sound:
  assumes "gpt_fits disk_blocks block_size"
  defines "g \<equiv> gpt_geometry disk_blocks block_size"
  shows "1 + entry_lbas g < first_usable g \<and> first_usable g \<le> esp_start g \<and> esp_start g \<le> esp_end g \<and>
    esp_end g < root_start g \<and> root_start g < root_end g \<and> root_end g \<le> last_usable g \<and>
    last_usable g < last_lba g - entry_lbas g \<and> last_lba g < disk_blocks"
proof -
  note o = geometry_order[OF assms(1), folded g_def]
  have n: "unat (1 + entry_lbas g) = 1 + unat (entry_lbas g)"
    using o unsigned_less[of disk_blocks, where 'a = nat] by (subst unat_add_lem[THEN iffD1]) auto
  have "root_end g = last_usable g" by (simp add: g_def gpt_geometry_def Let_def)
  then show ?thesis unfolding word_less_nat_alt word_le_nat_alt n using o by simp
qed


definition blank_disk :: blkdev where
  "blank_disk = \<lparr>blocks = \<lambda>_. [], io_fails = \<lambda>_. False\<rparr>"

lemma gpt_fits_example: "gpt_fits 65536 512"
  by (simp add: gpt_fits_def gpt_geometry_def ESP_ALIGN_BYTES_def ESP_SIZE_BYTES_def)

theorem install_write_gpt_reads_back_witness:
  "gpt_read 512 (blocks (snd (install_write_gpt 65536 512 blank_disk))) 65535 =
   Some [(ESP_GUID, 2048, 18431), (AEGIS_ROOT_GUID, 18432, 65502)]"
  using install_write_gpt_reads_back[OF gpt_fits_example, of blank_disk]
  by (simp add: blank_disk_def gpt_partitions_def gpt_geometry_def ESP_ALIGN_BYTES_def ESP_SIZE_BYTES_def)

theorem install_write_gpt_keeps_partitions_witness:
  "blocks (snd (install_write_gpt 65536 512 \<lparr>blocks = \<lambda>_. [], io_fails = \<lambda>n. n = 5\<rparr>)) 2048 = []"
  using install_write_gpt_keeps_partitions[OF gpt_fits_example, of 2048]
  by (simp add: gpt_geometry_def Let_def)

theorem gpt_layout_sound_witness: "esp_end (gpt_geometry 65536 512) < root_start (gpt_geometry 65536 512)"
  using gpt_layout_sound[OF gpt_fits_example] by simp


end
