(* ===== verification/Dhcp.thy ===== *)
theory Dhcp
  imports C_Bytes
begin

unbundle bit_operations_syntax

text \<open>
  The DHCP client daemon, \<open>user/bin/dhcp/main.c\<close>: option parsing, the packets it sends, the
  SELECTING, REQUESTING and RENEWING exchanges and the outer loop of \<open>main\<close>.

  An address is the \<open>32 word\<close> that \<open>memcpy\<close> makes of its four bytes, as in the code.  The network
  answers a call of \<open>recvfrom\<close> with a datagram or a timeout, taken from a list; when the list is
  used up every further call times out.  Whether a \<open>sendto\<close> fails, the values of \<open>time\<close> and the
  outcome of opening the socket are inputs.  \<open>sent\<close>, \<open>netcfg\<close>, \<open>resolv\<close> and \<open>slept\<close> record what
  the daemon did to the outside.  Messages on standard error are not modelled.
\<close>

section \<open>Definitions\<close>

subsection \<open>Packets and state\<close>

record dhcp_pkt =
  pk_op :: byte
  pk_htype :: byte
  pk_hlen :: byte
  pk_hops :: byte
  pk_xid :: "32 word"
  pk_secs :: "16 word"
  pk_flags :: "16 word"
  pk_ciaddr :: "32 word"
  pk_yiaddr :: "32 word"
  pk_siaddr :: "32 word"
  pk_giaddr :: "32 word"
  pk_chaddr :: "byte list"
  pk_sname :: "byte list"
  pk_file :: "byte list"
  pk_magic :: "32 word"
  pk_options :: "byte list"

text \<open>The packed structure in memory, which \<open>sendto\<close> sends and \<open>recvfrom\<close> fills.\<close>

definition pkt_bytes :: "dhcp_pkt \<Rightarrow> byte list" where
  "pkt_bytes p = [pk_op p, pk_htype p, pk_hlen p, pk_hops p] @ le_bytes 4 (pk_xid p) @
     le_bytes 2 (pk_secs p) @ le_bytes 2 (pk_flags p) @ le_bytes 4 (pk_ciaddr p) @ le_bytes 4 (pk_yiaddr p) @
     le_bytes 4 (pk_siaddr p) @ le_bytes 4 (pk_giaddr p) @ pk_chaddr p @ pk_sname p @ pk_file p @
     le_bytes 4 (pk_magic p) @ pk_options p"

definition pkt_size :: nat where "pkt_size = 548"
definition fixed_size :: nat where "fixed_size = 240"

datatype recv = Timeout | Datagram (payload: "byte list") (from_addr: "32 word")

record dhcp =
  s_mac :: "byte list"
  s_xid :: "32 word"
  s_offered_ip :: "32 word"
  s_server_ip :: "32 word"
  s_ip :: "32 word"
  s_mask :: "32 word"
  s_gateway :: "32 word"
  s_dns :: "32 word"
  s_lease :: "32 word"
  s_has_dns :: bool
  inbox :: "recv list"
  send_fails :: "nat \<Rightarrow> bool"
  times :: "nat \<Rightarrow> 32 word"
  resolv_writable :: bool
  sent :: "(32 word \<times> dhcp_pkt) list"
  netcfg :: "(32 word \<times> 32 word \<times> 32 word) option"
  resolv :: "string option"
  slept :: "nat list"

subsection \<open>Helpers\<close>

definition ntohl :: "32 word \<Rightarrow> 32 word" where
  "ntohl w = le_word (rev (le_bytes 4 w))"

abbreviation htonl :: "32 word \<Rightarrow> 32 word" where "htonl \<equiv> ntohl"

definition make_xid :: "dhcp \<Rightarrow> 32 word \<times> dhcp" where
  "make_xid s =
     (let m = s_mac s;
          x = push_bit 24 (ucast (m ! 2)) OR push_bit 16 (ucast (m ! 3)) OR
              push_bit 8 (ucast (m ! 4)) OR ucast (m ! 5) in
      (x XOR times s 0, s\<lparr>times := \<lambda>n. times s (Suc n)\<rparr>))"

definition ip_to_str :: "32 word \<Rightarrow> string" where
  "ip_to_str ip_nbo =
     (let b = map (\<lambda>x. fmt_u (unat x)) (le_bytes 4 ip_nbo) in
      b ! 0 @ ''.'' @ b ! 1 @ ''.'' @ b ! 2 @ ''.'' @ b ! 3)"

function lead_ones :: "32 word \<Rightarrow> nat \<Rightarrow> nat" where
  "lead_ones m n = (if m AND 0x80000000 \<noteq> 0 then lead_ones (push_bit 1 m) (n + 1) else n)"
  by auto
termination
proof (relation "measure (\<lambda>(m, n). card {i. bit m i})")
  fix m :: "32 word" and n :: nat assume a: "m AND 0x80000000 \<noteq> 0"
  have "(0x80000000 :: 32 word) = 2 ^ 31" by simp
  then have b: "bit m 31" using a unfolding bit_iff_and_push_bit_not_eq_0 by (simp add: push_bit_eq_mult)
  have fin: "finite {i. bit m i}" by (rule finite_subset[of _ "{..<32}"]) (auto dest: bit_imp_le_length)
  have e: "bit (push_bit 1 m) i \<longleftrightarrow> 1 \<le> i \<and> i < 32 \<and> bit m (i - 1)" for i
    by (simp only: bit_push_bit_iff possible_bit_word len_num1 len_bit0 len_num0) simp
  have "{i. bit (push_bit 1 m) i} = Suc ` ({i. bit m i} - {31})"
  proof (intro set_eqI iffI)
    fix i assume "i \<in> {i. bit (push_bit 1 m) i}"
    then show "i \<in> Suc ` ({i. bit m i} - {31})" unfolding e by (intro image_eqI[of _ _ "i - 1"]) auto
  next
    fix i assume "i \<in> Suc ` ({i. bit m i} - {31})"
    then obtain j where j: "i = Suc j" "bit m j" "j \<noteq> 31" by auto
    then have "j < 32" by (auto dest: bit_imp_le_length)
    then show "i \<in> {i. bit (push_bit 1 m) i}" using j unfolding e by simp
  qed
  then have "card {i. bit (push_bit 1 m) i} = card ({i. bit m i} - {31})" by (simp add: card_image)
  also have "\<dots> < card {i. bit m i}" using fin b by (intro psubset_card_mono) auto
  finally show "((push_bit 1 m, n + 1), m, n) \<in> measure (\<lambda>(m, n). card {i. bit m i})" by simp
qed simp

definition prefix_len :: "32 word \<Rightarrow> nat" where
  "prefix_len mask_nbo = lead_ones (ntohl mask_nbo) 0"

subsection \<open>Option parsing\<close>

text \<open>One option: the \<open>switch\<close> of \<open>parse_options\<close>.\<close>

definition parse_opt :: "byte \<Rightarrow> byte list \<Rightarrow> byte \<times> dhcp \<Rightarrow> byte \<times> dhcp" where
  "parse_opt tag v ms =
     (let (m, s) = ms; olen = length v; w = le_word (take 4 v) in
      if tag = 1 then (m, if olen = 4 then s\<lparr>s_mask := w\<rparr> else s)
      else if tag = 3 then (m, if olen \<ge> 4 then s\<lparr>s_gateway := w\<rparr> else s)
      else if tag = 6 then (m, if olen \<ge> 4 then s\<lparr>s_dns := w, s_has_dns := True\<rparr> else s)
      else if tag = 51 then (m, if olen = 4 then s\<lparr>s_lease := ntohl w\<rparr> else s)
      else if tag = 53 then (if olen = 1 then hd v else m, s)
      else if tag = 54 then (m, if olen = 4 then s\<lparr>s_server_ip := w\<rparr> else s)
      else (m, s))"

function (sequential) parse_loop :: "byte list \<Rightarrow> byte \<times> dhcp \<Rightarrow> byte \<times> dhcp" where
  "parse_loop [] ms = ms"
| "parse_loop (tag # r) ms =
     (if tag = 255 then ms
      else if tag = 0 then parse_loop r ms
      else case r of
          [] \<Rightarrow> ms
        | olen # r2 \<Rightarrow>
            if unat olen > length r2 then ms
            else parse_loop (drop (unat olen) r2) (parse_opt tag (take (unat olen) r2) ms))"
  by pat_completeness auto
termination by (relation "measure (length \<circ> fst)") auto

definition parse_options :: "byte list \<Rightarrow> dhcp \<Rightarrow> byte \<times> dhcp" where
  "parse_options opts s =
     parse_loop opts (0, s\<lparr>s_mask := htonl 0xFFFFFF00, s_gateway := 0, s_dns := 0, s_has_dns := False,
       s_lease := 3600, s_server_ip := 0\<rparr>)"

subsection \<open>Packet construction\<close>

definition pkt_base :: "dhcp \<Rightarrow> dhcp_pkt" where
  "pkt_base s = \<lparr>pk_op = 1, pk_htype = 1, pk_hlen = 6, pk_hops = 0, pk_xid = htonl (s_xid s), pk_secs = 0,
     pk_flags = 0x0080, pk_ciaddr = 0, pk_yiaddr = 0, pk_siaddr = 0, pk_giaddr = 0,
     pk_chaddr = poke 0 (s_mac s) (replicate 16 0), pk_sname = replicate 64 0, pk_file = replicate 128 0,
     pk_magic = htonl 0x63825363, pk_options = replicate 308 0\<rparr>"

definition pkt_add_discover :: "dhcp \<Rightarrow> dhcp_pkt \<Rightarrow> dhcp_pkt" where
  "pkt_add_discover s p = p\<lparr>pk_options :=
     poke 0 ([53, 1, 1, 55, 4, 1, 3, 6, 51, 61, 7, 1] @ s_mac s @ [255]) (pk_options p)\<rparr>"

definition pkt_add_request :: "dhcp \<Rightarrow> dhcp_pkt \<Rightarrow> 32 word \<Rightarrow> 32 word \<Rightarrow> dhcp_pkt" where
  "pkt_add_request s p offered_ip server_ip = p\<lparr>pk_options :=
     poke 0 ([53, 1, 3, 55, 4, 1, 3, 6, 51] @
       (if offered_ip \<noteq> 0 then [50, 4] @ le_bytes 4 offered_ip else []) @
       (if server_ip \<noteq> 0 then [54, 4] @ le_bytes 4 server_ip else []) @
       [61, 7, 1] @ s_mac s @ [255]) (pk_options p)\<rparr>"

subsection \<open>Sending and configuration\<close>

definition sendto :: "32 word \<Rightarrow> dhcp_pkt \<Rightarrow> dhcp \<Rightarrow> bool \<times> dhcp" where
  "sendto dst p s =
     (let s1 = s\<lparr>send_fails := \<lambda>n. send_fails s (Suc n)\<rparr> in
      if send_fails s 0 then (False, s1) else (True, s1\<lparr>sent := sent s @ [(dst, p)]\<rparr>))"

definition send_broadcast :: "dhcp_pkt \<Rightarrow> dhcp \<Rightarrow> bool \<times> dhcp" where
  "send_broadcast = sendto 0xFFFFFFFF"

definition send_unicast :: "dhcp_pkt \<Rightarrow> 32 word \<Rightarrow> dhcp \<Rightarrow> bool \<times> dhcp" where
  "send_unicast p server_ip_nbo = sendto server_ip_nbo p"

definition write_resolv_conf :: "dhcp \<Rightarrow> dhcp" where
  "write_resolv_conf s =
     (if \<not> resolv_writable s then s
      else s\<lparr>resolv := Some ((if s_has_dns s then ''nameserver '' @ ip_to_str (s_dns s) @ [newline] else []) @
        ''nameserver 1.1.1.1'' @ [newline] @ ''nameserver 8.8.8.8'' @ [newline])\<rparr>)"

definition apply_config :: "dhcp \<Rightarrow> dhcp" where
  "apply_config s = write_resolv_conf (s\<lparr>netcfg := Some (s_ip s, s_mask s, s_gateway s)\<rparr>)"

subsection \<open>Exchanges\<close>

definition reply_xid :: "byte list \<Rightarrow> 32 word" where "reply_xid d = le_word (peek 4 4 d)"
definition reply_yiaddr :: "byte list \<Rightarrow> 32 word" where "reply_yiaddr d = le_word (peek 16 4 d)"

text \<open>The two tests after \<open>recvfrom\<close>: long enough, and our transaction.\<close>

definition for_us :: "32 word \<Rightarrow> byte list \<Rightarrow> bool" where
  "for_us xid d \<longleftrightarrow> fixed_size \<le> length d \<and> reply_xid d = xid"

fun wait_offer :: "32 word \<Rightarrow> recv list \<Rightarrow> dhcp \<Rightarrow> bool \<times> dhcp" where
  "wait_offer xid [] s = (False, s\<lparr>inbox := []\<rparr>)"
| "wait_offer xid (Timeout # r) s = (False, s\<lparr>inbox := r\<rparr>)"
| "wait_offer xid (Datagram d0 src # r) s =
     (let d = take pkt_size d0 in
      if \<not> for_us xid d then wait_offer xid r s
      else case parse_options (drop fixed_size d) s of (m, s1) \<Rightarrow>
        if m = 2 then
          (True, s1\<lparr>s_offered_ip := reply_yiaddr d,
                    s_server_ip := (if s_server_ip s1 = 0 then src else s_server_ip s1), inbox := r\<rparr>)
        else wait_offer xid r s1)"

datatype answer = Ack | Nak | Silence

fun wait_ack :: "32 word \<Rightarrow> recv list \<Rightarrow> dhcp \<Rightarrow> answer \<times> dhcp" where
  "wait_ack xid [] s = (Silence, s\<lparr>inbox := []\<rparr>)"
| "wait_ack xid (Timeout # r) s = (Silence, s\<lparr>inbox := r\<rparr>)"
| "wait_ack xid (Datagram d0 src # r) s =
     (let d = take pkt_size d0 in
      if \<not> for_us xid d then wait_ack xid r s
      else case parse_options (drop fixed_size d) s of (m, s1) \<Rightarrow>
        if m = 5 then (Ack, s1\<lparr>s_ip := reply_yiaddr d, inbox := r\<rparr>)
        else if m = 6 then (Nak, s1\<lparr>inbox := r\<rparr>)
        else wait_ack xid r s1)"

definition MAX_RETRIES :: nat where "MAX_RETRIES = 3"

fun select_loop :: "nat \<Rightarrow> dhcp_pkt \<Rightarrow> dhcp \<Rightarrow> bool \<times> dhcp" where
  "select_loop 0 p s = (False, s)"
| "select_loop (Suc n) p s =
     (case send_broadcast p s of (ok, s1) \<Rightarrow>
        if \<not> ok then select_loop n p s1
        else case wait_offer (pk_xid p) (inbox s1) s1 of (got, s2) \<Rightarrow>
          if got then (True, s2) else select_loop n p s2)"

text \<open>The second loop of \<open>try_acquire\<close> and the loop of \<open>try_renew\<close>, which differ in how they send.\<close>

fun request_loop :: "(dhcp_pkt \<Rightarrow> dhcp \<Rightarrow> bool \<times> dhcp) \<Rightarrow> nat \<Rightarrow> dhcp_pkt \<Rightarrow> dhcp \<Rightarrow> bool \<times> dhcp" where
  "request_loop snd_pkt 0 p s = (False, s)"
| "request_loop snd_pkt (Suc n) p s =
     (case snd_pkt p s of (ok, s1) \<Rightarrow>
        if \<not> ok then request_loop snd_pkt n p s1
        else case wait_ack (pk_xid p) (inbox s1) s1 of
            (Ack, s2) \<Rightarrow> (True, s2)
          | (Nak, s2) \<Rightarrow> (False, s2)
          | (Silence, s2) \<Rightarrow> request_loop snd_pkt n p s2)"

definition try_acquire :: "dhcp \<Rightarrow> bool \<times> dhcp" where
  "try_acquire s =
     (case select_loop MAX_RETRIES (pkt_add_discover s (pkt_base s)) s of (got_offer, s1) \<Rightarrow>
        if \<not> got_offer then (False, s1)
        else request_loop send_broadcast MAX_RETRIES
               (pkt_add_request s1 (pkt_base s1) (s_offered_ip s1) (s_server_ip s1)) s1)"

definition try_renew :: "dhcp \<Rightarrow> bool \<times> dhcp" where
  "try_renew s =
     (let p = (pkt_base s)\<lparr>pk_flags := 0, pk_ciaddr := s_ip s\<rparr>;
          (xid, s1) = make_xid s;
          s2 = s1\<lparr>s_xid := xid\<rparr> in
      request_loop (\<lambda>p t. send_unicast p (s_server_ip t) t) MAX_RETRIES
        (pkt_add_request s2 (p\<lparr>pk_xid := htonl xid\<rparr>) 0 0) s2)"

subsection \<open>The daemon\<close>

definition MAX_ATTEMPTS :: nat where "MAX_ATTEMPTS = 5"
definition s_backoff :: "nat list" where "s_backoff = [4, 8, 16, 32, 32]"

definition backoff_delay :: "nat \<Rightarrow> nat" where
  "backoff_delay attempt = s_backoff ! (if attempt < MAX_ATTEMPTS then attempt - 1 else MAX_ATTEMPTS - 1)"

definition renew_delay :: "32 word \<Rightarrow> nat" where
  "renew_delay lease = (let t1 = lease div 2 in if t1 < 30 then 30 else unat t1)"

definition do_sleep :: "nat \<Rightarrow> dhcp \<Rightarrow> dhcp" where
  "do_sleep n s = s\<lparr>slept := slept s @ [n]\<rparr>"

text \<open>Where the loops of \<open>main\<close> stand: looking for an interface, at the head of the attempt loop, or
  holding a lease.\<close>

datatype phase = Probe | Attempt nat | Bound

definition zero_mac :: "byte list \<Rightarrow> bool" where
  "zero_mac m \<longleftrightarrow> list_all (\<lambda>b. b = 0) m"

text \<open>One pass: \<open>mac\<close> is what \<open>sys_netcfg\<close> reports and \<open>sock\<close> whether the socket opens.\<close>

fun dhcp_pass :: "byte list \<Rightarrow> bool \<Rightarrow> phase \<times> dhcp \<Rightarrow> phase \<times> dhcp" where
  "dhcp_pass mac sock (Probe, s) =
     (let s1 = s\<lparr>s_mac := mac\<rparr> in
      if \<not> zero_mac mac then (Attempt 0, s1) else (Probe, do_sleep 4 s1))"
| "dhcp_pass mac sock (Attempt attempt, s) =
     (let s1 = (if attempt > 0 then do_sleep (backoff_delay attempt) s else s);
          (xid, s2) = make_xid s1;
          s3 = s2\<lparr>s_xid := xid\<rparr> in
      if \<not> sock then (Attempt (attempt + 1), s3)
      else case try_acquire s3 of (ok, s4) \<Rightarrow>
        if ok then (Bound, apply_config s4) else (Attempt (attempt + 1), s4))"
| "dhcp_pass mac sock (Bound, s) =
     (let s1 = do_sleep (renew_delay (s_lease s)) s;
          (xid, s2) = make_xid s1 in
      case try_renew (s2\<lparr>s_xid := xid\<rparr>) of (ok, s4) \<Rightarrow>
        if ok then (Bound, s4) else (Attempt 0, s4))"

section \<open>Options\<close>

type_synonym opt = "byte \<times> byte list"

definition render_opts :: "opt list \<Rightarrow> byte list" where
  "render_opts os = concat (map (\<lambda>(t, v). t # of_nat (length v) # v) os)"

definition wf_opts :: "opt list \<Rightarrow> bool" where
  "wf_opts os \<longleftrightarrow> list_all (\<lambda>(t, v). t \<noteq> 0 \<and> t \<noteq> 255 \<and> length v < 256) os"

text \<open>The last option of a tag whose length passes a test.\<close>

definition last_opt :: "byte \<Rightarrow> (nat \<Rightarrow> bool) \<Rightarrow> opt list \<Rightarrow> byte list option" where
  "last_opt t ok os =
     (let vs = filter (\<lambda>(t', v). t' = t \<and> ok (length v)) os in if vs = [] then None else Some (snd (last vs)))"

definition word_opt :: "byte \<Rightarrow> (nat \<Rightarrow> bool) \<Rightarrow> 32 word \<Rightarrow> opt list \<Rightarrow> 32 word" where
  "word_opt t ok d os = (case last_opt t ok os of None \<Rightarrow> d | Some v \<Rightarrow> le_word (take 4 v))"

definition msg_type :: "opt list \<Rightarrow> byte" where
  "msg_type os = (case last_opt 53 (\<lambda>n. n = 1) os of None \<Rightarrow> 0 | Some v \<Rightarrow> hd v)"

text \<open>What \<open>parse_options\<close> should make of a list of options.\<close>

definition with_opts :: "opt list \<Rightarrow> dhcp \<Rightarrow> dhcp" where
  "with_opts os s = s\<lparr>
     s_mask := word_opt 1 (\<lambda>n. n = 4) (htonl 0xFFFFFF00) os,
     s_gateway := word_opt 3 (\<lambda>n. n \<ge> 4) 0 os,
     s_dns := word_opt 6 (\<lambda>n. n \<ge> 4) 0 os,
     s_has_dns := (last_opt 6 (\<lambda>n. n \<ge> 4) os \<noteq> None),
     s_lease := (case last_opt 51 (\<lambda>n. n = 4) os of None \<Rightarrow> 3600 | Some v \<Rightarrow> ntohl (le_word (take 4 v))),
     s_server_ip := word_opt 54 (\<lambda>n. n = 4) 0 os\<rparr>"

lemma parse_loop_render:
  "wf_opts os \<Longrightarrow> parse_loop (render_opts os @ 255 # pad) ms = fold (\<lambda>(t, v). parse_opt t v) os ms"
proof (induction os arbitrary: ms)
  case (Cons p os)
  obtain t v where p: "p = (t, v)" by (cases p)
  have w: "t \<noteq> 0" "t \<noteq> 255" "length v < 256" "wf_opts os" using Cons.prems by (simp_all add: p wf_opts_def)
  then have "unat (of_nat (length v) :: byte) = length v" by (simp add: unsigned_of_nat take_bit_nat_eq_self)
  then show ?case using w Cons.IH[OF w(4)] by (simp add: p render_opts_def)
qed (simp add: render_opts_def)

lemma last_opt_snoc:
  "last_opt t ok (os @ [(t', v)]) = (if t' = t \<and> ok (length v) then Some v else last_opt t ok os)"
  by (simp add: last_opt_def Let_def)

lemma parse_opts_fold:
  "fold (\<lambda>(t, v). parse_opt t v) os (0, s\<lparr>s_mask := htonl 0xFFFFFF00, s_gateway := 0, s_dns := 0,
     s_has_dns := False, s_lease := 3600, s_server_ip := 0\<rparr>) = (msg_type os, with_opts os s)"
proof (induction os rule: rev_induct)
  case Nil
  show ?case by (simp add: msg_type_def with_opts_def word_opt_def last_opt_def)
next
  case (snoc p os)
  obtain t v where p: "p = (t, v)" by (cases p)
  show ?case
    by (cases "t \<in> {1, 3, 6, 51, 53, 54}") (use snoc in \<open>auto simp: p parse_opt_def msg_type_def with_opts_def
      word_opt_def last_opt_snoc\<close>)
qed

text \<open>
  C33: \<open>parse_options\<close> on an encoded list of options takes the message type, the mask, the gateway,
  the name server, the lease and the server address from the last option of each kind that has a
  legal length, and the defaults where there is none.\<close>

theorem parse_options_render:
  "wf_opts os \<Longrightarrow> parse_options (render_opts os @ 255 # pad) s = (msg_type os, with_opts os s)"
  by (simp add: parse_options_def parse_loop_render parse_opts_fold)

section \<open>Exchanges\<close>

text \<open>The part of the state that parsing a reply leaves alone, and the part that waiting for one does.\<close>

definition unparsed where
  "unparsed s = (s_mac s, s_xid s, s_ip s, s_offered_ip s, inbox s, send_fails s, times s, resolv_writable s,
     sent s, netcfg s, resolv s, slept s)"

definition outside where
  "outside s = (s_mac s, s_xid s, send_fails s, times s, resolv_writable s, sent s, netcfg s, resolv s, slept s)"

lemma parse_opt_unparsed: "unparsed (snd (parse_opt t v ms)) = unparsed (snd ms)"
  by (simp add: parse_opt_def unparsed_def Let_def split: prod.split)

lemma parse_loop_unparsed: "unparsed (snd (parse_loop os ms)) = unparsed (snd ms)"
  by (induction os ms rule: parse_loop.induct) (auto simp: parse_opt_unparsed split: list.split)

lemma parse_options_unparsed: "parse_options os s = (m, t) \<Longrightarrow> unparsed t = unparsed s"
proof -
  assume "parse_options os s = (m, t)"
  then have "unparsed t = unparsed (snd (parse_options os s))" by simp
  also have "\<dots> = unparsed s" unfolding parse_options_def parse_loop_unparsed by (simp add: unparsed_def)
  finally show ?thesis .
qed

lemma unparsed_outside: "unparsed t = unparsed s \<Longrightarrow> outside t = outside s"
  by (simp add: unparsed_def outside_def)

lemma outside_inbox: "outside (s\<lparr>inbox := r\<rparr>) = outside s" "outside (s\<lparr>s_ip := a\<rparr>) = outside s"
  "outside (s\<lparr>s_offered_ip := a\<rparr>) = outside s" "outside (s\<lparr>s_server_ip := a\<rparr>) = outside s"
  by (simp_all add: outside_def)

lemma wait_offer_outside: "outside (snd (wait_offer xid r s)) = outside s"
  by (induction xid r s rule: wait_offer.induct)
    (auto simp: Let_def outside_inbox split: prod.split dest: parse_options_unparsed[THEN unparsed_outside])

lemma wait_ack_outside: "outside (snd (wait_ack xid r s)) = outside s"
  by (induction xid r s rule: wait_ack.induct)
    (auto simp: Let_def outside_inbox split: prod.split dest: parse_options_unparsed[THEN unparsed_outside])

definition not_ours :: "32 word \<Rightarrow> recv \<Rightarrow> bool" where
  "not_ours xid e \<longleftrightarrow> (case e of Timeout \<Rightarrow> False | Datagram d a \<Rightarrow> \<not> for_us xid (take pkt_size d))"

definition is_reply :: "32 word \<Rightarrow> opt list \<Rightarrow> byte list \<Rightarrow> bool" where
  "is_reply xid os d \<longleftrightarrow> for_us xid (take pkt_size d) \<and> wf_opts os \<and>
     (\<exists>pad. drop fixed_size (take pkt_size d) = render_opts os @ 255 # pad)"

lemma wait_skip:
  "list_all (not_ours xid) js \<Longrightarrow> wait_offer xid (js @ r) s = wait_offer xid r s"
  "list_all (not_ours xid) js \<Longrightarrow> wait_ack xid (js @ r) s = wait_ack xid r s"
  by (induction js) (auto simp: not_ours_def split: recv.splits)

lemma reply_parsed:
  "is_reply xid os d \<Longrightarrow> parse_options (drop fixed_size (take pkt_size d)) s = (msg_type os, with_opts os s)"
  unfolding is_reply_def
  by (metis parse_options_def parse_loop_render parse_opts_fold)

lemma reply_yiaddr_take: "reply_yiaddr (take pkt_size d) = reply_yiaddr d"
  by (simp add: reply_yiaddr_def pkt_size_def peek_take)

lemma wait_offer_reply:
  "is_reply xid os d \<Longrightarrow> msg_type os = 2 \<Longrightarrow> wait_offer xid (Datagram d a # r) s =
   (True, (with_opts os s)\<lparr>s_offered_ip := reply_yiaddr d,
      s_server_ip := (if word_opt 54 (\<lambda>n. n = 4) 0 os = 0 then a else word_opt 54 (\<lambda>n. n = 4) 0 os), inbox := r\<rparr>)"
  using reply_parsed[of xid os d s] by (simp add: is_reply_def reply_yiaddr_take with_opts_def)

lemma wait_ack_reply:
  "is_reply xid os d \<Longrightarrow> msg_type os = 5 \<Longrightarrow> wait_ack xid (Datagram d a # r) s =
   (Ack, (with_opts os s)\<lparr>s_ip := reply_yiaddr d, inbox := r\<rparr>)"
  using reply_parsed[of xid os d s] by (simp add: is_reply_def reply_yiaddr_take)

lemma sendto_ok: "\<not> send_fails s 0 \<Longrightarrow> sendto a p s = (True, s\<lparr>send_fails := \<lambda>n. send_fails s (Suc n), sent := sent s @ [(a, p)]\<rparr>)"
  by (simp add: sendto_def)

definition bcast :: "32 word" where "bcast = 0xFFFFFFFF"

lemma try_acquire_completes:
  assumes ok: "\<And>n. \<not> send_fails s n" and x: "x = htonl (s_xid s)"
    and box: "inbox s = js @ Datagram offer a # ks @ Datagram ack b # r"
    and skip: "list_all (not_ours x) js" "list_all (not_ours x) ks"
    and o: "is_reply x oos offer" "msg_type oos = 2" and k: "is_reply x kos ack" "msg_type kos = 5"
    and sv: "sv = (if word_opt 54 (\<lambda>n. n = 4) 0 oos = 0 then a else word_opt 54 (\<lambda>n. n = 4) 0 oos)"
  shows "\<exists>t. try_acquire s = (True, t) \<and> (s_ip t, s_mask t, s_gateway t, s_lease t) =
      (reply_yiaddr ack, s_mask (with_opts kos s), s_gateway (with_opts kos s), s_lease (with_opts kos s)) \<and>
    sent t = sent s @ [(bcast, pkt_add_discover s (pkt_base s)),
                       (bcast, pkt_add_request s (pkt_base s) (reply_yiaddr offer) sv)]"
proof -
  have r3: "MAX_RETRIES = Suc 2" by (simp add: MAX_RETRIES_def)
  let ?d = "pkt_add_discover s (pkt_base s)"
  let ?s1 = "s\<lparr>send_fails := \<lambda>n. send_fails s (Suc n), sent := sent s @ [(bcast, ?d)]\<rparr>"
  let ?s2 = "(with_opts oos ?s1)\<lparr>s_offered_ip := reply_yiaddr offer, s_server_ip := sv, inbox := ks @ Datagram ack b # r\<rparr>"
  have "pk_xid ?d = x" by (simp add: x pkt_add_discover_def pkt_base_def)
  then have s: "select_loop MAX_RETRIES ?d s = (True, ?s2)"
    unfolding r3 select_loop.simps(2)
    using ok wait_offer_reply[OF o, of a "ks @ Datagram ack b # r" ?s1] wait_skip(1)[OF skip(1)]
    by (simp add: send_broadcast_def sendto_ok box sv bcast_def)
  let ?p = "pkt_add_request s (pkt_base s) (reply_yiaddr offer) sv"
  have p: "pkt_add_request ?s2 (pkt_base ?s2) (s_offered_ip ?s2) (s_server_ip ?s2) = ?p"
    by (simp add: pkt_add_request_def pkt_base_def with_opts_def)
  let ?s3 = "?s2\<lparr>send_fails := \<lambda>n. send_fails s (Suc (Suc n)), sent := sent s @ [(bcast, ?d), (bcast, ?p)]\<rparr>"
  let ?s4 = "(with_opts kos ?s3)\<lparr>s_ip := reply_yiaddr ack, inbox := r\<rparr>"
  have "sendto bcast ?p ?s2 = (True, ?s3)" using ok by (simp add: sendto_def with_opts_def)
  moreover have "pk_xid ?p = x" by (simp add: x pkt_add_request_def pkt_base_def)
  ultimately have "request_loop send_broadcast MAX_RETRIES ?p ?s2 = (True, ?s4)"
    unfolding r3 request_loop.simps(2)
    using wait_ack_reply[OF k, of b r ?s3] wait_skip(2)[OF skip(2), of "Datagram ack b # r" ?s3]
    by (simp add: send_broadcast_def bcast_def with_opts_def)
  then have "try_acquire s = (True, ?s4)" using s p by (simp add: try_acquire_def)
  then show ?thesis by (simp add: with_opts_def)
qed

lemma xid_after_sleep [simp]:
  "fst (make_xid (do_sleep n s)) = fst (make_xid s)" "snd (make_xid s) = s\<lparr>times := \<lambda>n. times s (Suc n)\<rparr>"
  by (simp_all add: make_xid_def do_sleep_def Let_def)

text \<open>The state in which \<open>main\<close> calls \<open>try_acquire\<close>.\<close>

definition at_attempt :: "nat \<Rightarrow> dhcp \<Rightarrow> dhcp" where
  "at_attempt k s = (let s1 = (if k > 0 then do_sleep (backoff_delay k) s else s) in
     (snd (make_xid s1))\<lparr>s_xid := fst (make_xid s)\<rparr>)"

lemma dhcp_pass_attempt:
  "dhcp_pass mac True (Attempt k, s) =
     (case try_acquire (at_attempt k s) of (ok, t) \<Rightarrow> if ok then (Bound, apply_config t) else (Attempt (k + 1), t))"
  "dhcp_pass mac False (Attempt k, s) = (Attempt (k + 1), at_attempt k s)"
  by (simp_all add: at_attempt_def Let_def case_prod_beta)

lemma at_attempt_simps [simp]:
  "inbox (at_attempt k s) = inbox s" "send_fails (at_attempt k s) = send_fails s" "s_mac (at_attempt k s) = s_mac s"
  "s_xid (at_attempt k s) = fst (make_xid s)" "sent (at_attempt k s) = sent s" "netcfg (at_attempt k s) = netcfg s"
  by (simp_all add: at_attempt_def do_sleep_def Let_def)

lemma apply_config_simps [simp]:
  "netcfg (apply_config s) = Some (s_ip s, s_mask s, s_gateway s)" "sent (apply_config s) = sent s"
  "s_mac (apply_config s) = s_mac s"
  by (simp_all add: apply_config_def write_resolv_conf_def)

text \<open>
  C30: An attempt succeeds whenever the server answers: if no send fails, and after datagrams that are
  not for this transaction an OFFER and then an ACK arrive, the daemon is bound and the interface is
  configured with the address, mask and gateway of the ACK.\<close>

theorem dhcp_binds:
  assumes "\<And>n. \<not> send_fails s n" "x = htonl (fst (make_xid s))"
    and "inbox s = js @ Datagram offer a # ks @ Datagram ack b # r"
    and "list_all (not_ours x) js" "list_all (not_ours x) ks"
    and "is_reply x oos offer" "msg_type oos = 2" "is_reply x kos ack" "msg_type kos = 5"
  shows "fst (dhcp_pass mac True (Attempt k, s)) = Bound \<and>
    netcfg (snd (dhcp_pass mac True (Attempt k, s))) =
      Some (reply_yiaddr ack, word_opt 1 (\<lambda>n. n = 4) (htonl 0xFFFFFF00) kos, word_opt 3 (\<lambda>n. n \<ge> 4) 0 kos)"
proof -
  obtain t where "try_acquire (at_attempt k s) = (True, t)" "s_ip t = reply_yiaddr ack"
    "s_mask t = s_mask (with_opts kos (at_attempt k s))" "s_gateway t = s_gateway (with_opts kos (at_attempt k s))"
    using try_acquire_completes[of "at_attempt k s" x js offer a ks ack b r oos kos, OF _ _ _ _ _ _ _ _ _ refl] assms
    by auto
  then show ?thesis by (simp add: dhcp_pass_attempt with_opts_def del: dhcp_pass.simps)
qed

lemma wait_offer_inbox: "set (inbox (snd (wait_offer xid r s))) \<subseteq> set r"
proof (induction r arbitrary: s)
  case (Cons e r)
  show ?case using Cons.IH by (cases e) (auto simp: Let_def split: prod.splits)
qed simp

lemma wait_ack_inbox: "set (inbox (snd (wait_ack xid r s))) \<subseteq> set r"
proof (induction r arbitrary: s)
  case (Cons e r)
  show ?case using Cons.IH by (cases e) (auto simp: Let_def split: prod.splits)
qed simp

lemma parse_opt_type: "fst (parse_opt t v (m, s)) = fst (parse_opt t v (m, s'))"
  by (simp add: parse_opt_def Let_def)

lemma parse_loop_type: "fst ms = fst ms' \<Longrightarrow> fst (parse_loop os ms) = fst (parse_loop os ms')"
proof (induction os ms arbitrary: ms' rule: parse_loop.induct)
  case (2 tag r ms)
  have "fst (parse_opt tag v ms) = fst (parse_opt tag v ms')" for v
    using 2(3) parse_opt_type by (metis prod.collapse)
  then show ?case using 2 by (simp split: list.split)
qed simp

lemma parse_options_type: "fst (parse_options os s) = fst (parse_options os s')"
  unfolding parse_options_def by (rule parse_loop_type) simp

text \<open>An ACK for the transaction: long enough, with its identifier and with message type 5.\<close>

definition acked :: "32 word \<Rightarrow> byte list \<Rightarrow> bool" where
  "acked xid d \<longleftrightarrow> 240 \<le> length d \<and> le_word (peek 4 4 d) = xid \<and> (\<forall>s. fst (parse_options (drop fixed_size (take pkt_size d)) s) = 5)"

definition ack_config :: "byte list \<Rightarrow> dhcp \<Rightarrow> bool" where
  "ack_config d t \<longleftrightarrow> (\<exists>s. (s_ip t, s_mask t, s_gateway t) =
     (let s' = snd (parse_options (drop fixed_size (take pkt_size d)) s) in (reply_yiaddr d, s_mask s', s_gateway s')))"

lemma wait_ack_Ack:
  "wait_ack xid r s = (Ack, t) \<Longrightarrow> \<exists>d a. Datagram d a \<in> set r \<and> acked xid d \<and> ack_config d t"
proof (induction r arbitrary: s)
  case (Cons e r)
  show ?case
  proof (cases e)
    case Timeout
    then show ?thesis using Cons.prems by simp
  next
    case (Datagram d a)
    let ?o = "drop fixed_size (take pkt_size d)"
    obtain m s1 where p: "parse_options ?o s = (m, s1)" by (cases "parse_options ?o s")
    show ?thesis
    proof (cases "for_us xid (take pkt_size d) \<and> m = 5")
      case True
      then have t: "t = s1\<lparr>s_ip := reply_yiaddr (take pkt_size d), inbox := r\<rparr>"
        using Cons.prems p by (simp add: Datagram)
      have "acked xid d" using True p parse_options_type[of ?o _ s]
        by (simp add: acked_def for_us_def fixed_size_def reply_xid_def pkt_size_def peek_take)
      moreover have "ack_config d t" unfolding ack_config_def using p t by (intro exI[of _ s]) (simp add: reply_yiaddr_take)
      ultimately show ?thesis using Datagram by auto
    next
      case False
      then have "\<exists>s'. wait_ack xid r s' = (Ack, t)" using Cons.prems p by (auto simp: Datagram Let_def split: if_splits)
      then show ?thesis using Cons.IH by fastforce
    qed
  qed
qed simp

lemma request_loop_Ack:
  assumes snd: "\<And>p s. inbox (snd (snd_pkt p s)) = inbox s"
  shows "request_loop snd_pkt n p s = (True, t) \<Longrightarrow>
    \<exists>d a. Datagram d a \<in> set (inbox s) \<and> acked (pk_xid p) d \<and> ack_config d t"
proof (induction n arbitrary: s)
  case (Suc n)
  obtain ok s1 where s1: "snd_pkt p s = (ok, s1)" by (cases "snd_pkt p s")
  obtain ans s2 where s2: "wait_ack (pk_xid p) (inbox s1) s1 = (ans, s2)" by (cases "wait_ack (pk_xid p) (inbox s1) s1")
  have i: "inbox s1 = inbox s" "set (inbox s2) \<subseteq> set (inbox s1)"
    using snd[of p s] s1 wait_ack_inbox[of "pk_xid p" "inbox s1" s1] s2 by simp_all
  show ?case
    using Suc.prems Suc.IH[of s1] Suc.IH[of s2] wait_ack_Ack[of "pk_xid p" "inbox s1" s1 s2] s1 s2 i
    by (auto split: if_splits answer.splits)
qed simp

lemma sendto_simps [simp]:
  "inbox (snd (sendto a p s)) = inbox s" "s_mac (snd (sendto a p s)) = s_mac s" "s_xid (snd (sendto a p s)) = s_xid s"
  by (simp_all add: sendto_def Let_def)

lemma select_loop_keeps:
  "set (inbox (snd (select_loop n p s))) \<subseteq> set (inbox s) \<and> s_xid (snd (select_loop n p s)) = s_xid s \<and>
   s_mac (snd (select_loop n p s)) = s_mac s"
proof (induction n arbitrary: s)
  case (Suc n)
  obtain ok s1 where s1: "send_broadcast p s = (ok, s1)" by (cases "send_broadcast p s")
  then have "s1 = snd (sendto 0xFFFFFFFF p s)" by (simp add: send_broadcast_def)
  then have k1: "inbox s1 = inbox s" "s_mac s1 = s_mac s" "s_xid s1 = s_xid s" by simp_all
  obtain got s2 where s2: "wait_offer (pk_xid p) (inbox s1) s1 = (got, s2)" by (cases "wait_offer (pk_xid p) (inbox s1) s1")
  then have "outside s2 = outside s1" "set (inbox s2) \<subseteq> set (inbox s1)"
    using wait_offer_outside wait_offer_inbox by (metis snd_conv)+
  then show ?case using Suc.IH[of s1] Suc.IH[of s2] s1 s2 k1 by (auto simp: outside_def)
qed simp

text \<open>
  C31: The daemon reaches BOUND only through an ACK: when an attempt binds, the input holds a datagram of
  full header length with this attempt's transaction identifier and message type 5, and the
  interface gets the address of that datagram and the mask and gateway of its options.\<close>

theorem dhcp_bound_by_ack:
  assumes "dhcp_pass mac sock (Attempt k, s) = (Bound, t)"
  shows "\<exists>d a u. Datagram d a \<in> set (inbox s) \<and> acked (htonl (fst (make_xid s))) d \<and> ack_config d u \<and>
    netcfg t = Some (s_ip u, s_mask u, s_gateway u)"
proof -
  obtain u where u: "try_acquire (at_attempt k s) = (True, u)" "t = apply_config u"
    using assms by (cases sock) (auto simp: dhcp_pass_attempt simp del: dhcp_pass.simps split: prod.splits if_splits)
  let ?s = "at_attempt k s"
  obtain s1 where s1: "select_loop MAX_RETRIES (pkt_add_discover ?s (pkt_base ?s)) ?s = (True, s1)"
    "request_loop send_broadcast MAX_RETRIES (pkt_add_request s1 (pkt_base s1) (s_offered_ip s1) (s_server_ip s1)) s1 = (True, u)"
    using u(1) by (auto simp: try_acquire_def split: prod.splits if_splits)
  have i: "set (inbox s1) \<subseteq> set (inbox s)" "s_xid s1 = fst (make_xid s)"
    using select_loop_keeps[of MAX_RETRIES "pkt_add_discover ?s (pkt_base ?s)" ?s] s1(1) by simp_all
  obtain d a where d: "Datagram d a \<in> set (inbox s1)" "ack_config d u"
    "acked (pk_xid (pkt_add_request s1 (pkt_base s1) (s_offered_ip s1) (s_server_ip s1))) d"
    using request_loop_Ack[OF _ s1(2)] by (auto simp: send_broadcast_def)
  moreover have "pk_xid (pkt_add_request s1 (pkt_base s1) (s_offered_ip s1) (s_server_ip s1)) = htonl (fst (make_xid s))"
    by (simp add: pkt_add_request_def pkt_base_def i)
  ultimately show ?thesis using i(1) u(2) by auto
qed

section \<open>What the daemon does to the outside\<close>

definition sends_only :: "dhcp_pkt \<Rightarrow> dhcp \<Rightarrow> dhcp \<Rightarrow> bool" where
  "sends_only p s t \<longleftrightarrow> s_mac t = s_mac s \<and> netcfg t = netcfg s \<and> resolv t = resolv s \<and>
     snd ` set (sent t) \<subseteq> insert p (snd ` set (sent s))"

lemma sends_only_trans: "sends_only p s t \<Longrightarrow> sends_only p t u \<Longrightarrow> sends_only p s u"
  unfolding sends_only_def by (elim conjE, intro conjI) (simp_all, blast)

lemma sends_only_outside: "outside t = outside s \<Longrightarrow> sends_only p s t"
  by (auto simp: sends_only_def outside_def)

lemma sends_only_sendto: "sends_only p s (snd (sendto a p s))"
  by (auto simp: sends_only_def sendto_def Let_def)

lemma select_loop_sends: "sends_only p s (snd (select_loop n p s))"
proof (induction n arbitrary: s)
  case (Suc n)
  obtain ok s1 where s1: "send_broadcast p s = (ok, s1)" by (cases "send_broadcast p s")
  obtain got s2 where s2: "wait_offer (pk_xid p) (inbox s1) s1 = (got, s2)" by (cases "wait_offer (pk_xid p) (inbox s1) s1")
  have "sends_only p s s1" using sends_only_sendto[of p s "0xFFFFFFFF"] s1 by (simp add: send_broadcast_def)
  moreover have "sends_only p s1 s2" using wait_offer_outside[of "pk_xid p" "inbox s1" s1] s2 by (simp add: sends_only_outside)
  ultimately show ?case using Suc.IH[of s1] Suc.IH[of s2] s1 s2 by (auto intro: sends_only_trans)
qed (simp add: sends_only_outside)

lemma request_loop_sends:
  assumes "\<And>s. sends_only p s (snd (snd_pkt p s))"
  shows "sends_only p s (snd (request_loop snd_pkt n p s))"
proof (induction n arbitrary: s)
  case (Suc n)
  obtain ok s1 where s1: "snd_pkt p s = (ok, s1)" by (cases "snd_pkt p s")
  obtain ans s2 where s2: "wait_ack (pk_xid p) (inbox s1) s1 = (ans, s2)" by (cases "wait_ack (pk_xid p) (inbox s1) s1")
  have "sends_only p s s1" using assms[of s] s1 by simp
  moreover have "sends_only p s1 s2" using wait_ack_outside[of "pk_xid p" "inbox s1" s1] s2 by (simp add: sends_only_outside)
  ultimately show ?case using Suc.IH[of s1] Suc.IH[of s2] s1 s2 by (auto intro: sends_only_trans split: answer.split)
qed (simp add: sends_only_outside)

text \<open>A packet of the right size whose options are properly encoded and ask for one of the message
  types a client sends.\<close>

definition client_pkt :: "dhcp_pkt \<Rightarrow> bool" where
  "client_pkt p \<longleftrightarrow> length (pkt_bytes p) = pkt_size \<and>
     (\<exists>os pad. pk_options p = render_opts os @ 255 # pad \<and> wf_opts os \<and> msg_type os \<in> {1, 3})"

lemma sends_only_client:
  "sends_only p s t \<Longrightarrow> client_pkt p \<Longrightarrow> \<forall>q \<in> snd ` set (sent s). client_pkt q \<Longrightarrow> \<forall>q \<in> snd ` set (sent t). client_pkt q"
  unfolding sends_only_def by blast

lemma client_pktI:
  assumes "length (s_mac s) = 6" "wf_opts os" "msg_type os \<in> {1, 3}" "length (render_opts os) < 308"
    and "p = (pkt_base s)\<lparr>pk_flags := f, pk_ciaddr := c, pk_xid := x, pk_options :=
      poke 0 (render_opts os @ [255]) (replicate 308 0)\<rparr>"
  shows "client_pkt p"
proof -
  have "pk_options p = render_opts os @ 255 # drop (Suc (length (render_opts os))) (replicate 308 0)"
    by (simp add: assms(5) poke_def)
  moreover have "length (pkt_bytes p) = pkt_size"
    using assms(1,4) by (simp add: assms(5) pkt_bytes_def pkt_size_def pkt_base_def)
  ultimately show ?thesis using assms(2,3) by (auto simp: client_pkt_def)
qed

lemma discover_client:
  assumes "length (s_mac s) = 6"
  shows "client_pkt (pkt_add_discover s (pkt_base s))"
  by (rule client_pktI[OF assms, where os = "[(53, [1]), (55, [1, 3, 6, 51]), (61, 1 # s_mac s)]" and f = "0x0080" and c = 0
      and x = "htonl (s_xid s)"])
    (use assms in \<open>simp_all add: wf_opts_def msg_type_def last_opt_def render_opts_def pkt_add_discover_def pkt_base_def\<close>)

lemma request_client:
  assumes "length (s_mac s) = 6" "p = (pkt_base s)\<lparr>pk_flags := f, pk_ciaddr := c, pk_xid := x\<rparr>"
  shows "client_pkt (pkt_add_request s p a b)"
  by (rule client_pktI[OF assms(1), where os = "[(53, [3]), (55, [1, 3, 6, 51])] @ (if a \<noteq> 0 then [(50, le_bytes 4 a)] else []) @
      (if b \<noteq> 0 then [(54, le_bytes 4 b)] else []) @ [(61, 1 # s_mac s)]" and f = f and c = c and x = x])
    (use assms in \<open>simp_all add: wf_opts_def msg_type_def last_opt_def render_opts_def pkt_add_request_def pkt_base_def\<close>)

lemma try_acquire_sends:
  assumes "length (s_mac s) = 6" "\<forall>p \<in> snd ` set (sent s). client_pkt p"
  shows "s_mac (snd (try_acquire s)) = s_mac s \<and> (\<forall>p \<in> snd ` set (sent (snd (try_acquire s))). client_pkt p)"
proof -
  let ?d = "pkt_add_discover s (pkt_base s)"
  obtain got s1 where s1: "select_loop MAX_RETRIES ?d s = (got, s1)" by (cases "select_loop MAX_RETRIES ?d s")
  let ?p = "pkt_add_request s1 (pkt_base s1) (s_offered_ip s1) (s_server_ip s1)"
  have a: "sends_only ?d s s1" using select_loop_sends[of ?d s MAX_RETRIES] s1 by simp
  then have m: "length (s_mac s1) = 6" "s_mac s1 = s_mac s" using assms(1) by (simp_all add: sends_only_def)
  have c1: "\<forall>p \<in> snd ` set (sent s1). client_pkt p"
    by (rule sends_only_client[OF a discover_client[OF assms(1)] assms(2)])
  have k: "client_pkt ?p" by (rule request_client[OF m(1), where f = "0x0080" and c = 0]) (simp add: pkt_base_def)
  have b: "sends_only ?p s1 (snd (request_loop send_broadcast MAX_RETRIES ?p s1))"
    by (rule request_loop_sends) (simp add: send_broadcast_def sends_only_sendto)
  show ?thesis
    using sends_only_client[OF b k c1] b c1 m s1 by (simp add: try_acquire_def sends_only_def)
qed

lemma try_renew_sends:
  assumes "length (s_mac s) = 6"
  shows "\<exists>p. client_pkt p \<and> sends_only p s (snd (try_renew s))"
proof -
  let ?s = "(snd (make_xid s))\<lparr>s_xid := fst (make_xid s)\<rparr>"
  let ?p = "pkt_add_request ?s ((pkt_base s)\<lparr>pk_flags := 0, pk_ciaddr := s_ip s, pk_xid := htonl (fst (make_xid s))\<rparr>) 0 0"
  have "client_pkt ?p"
    by (rule request_client[where f = 0 and c = "s_ip s" and x = "htonl (fst (make_xid s))"])
      (use assms in \<open>simp_all add: pkt_base_def\<close>)
  moreover have "sends_only ?p ?s (snd (try_renew s))"
    unfolding try_renew_def Let_def case_prod_beta by (rule request_loop_sends) (simp add: send_unicast_def sends_only_sendto)
  moreover have "sends_only ?p s ?s" by (auto simp: sends_only_def)
  ultimately show ?thesis by (blast intro: sends_only_trans)
qed

text \<open>
  The states the daemon can be in.  Between two passes the environment may change: what arrives, what
  fails, the clock and whether \<open>/etc/resolv.conf\<close> can be written.
\<close>

inductive dhcp_reach :: "phase \<Rightarrow> dhcp \<Rightarrow> bool" where
  start: "sent s = [] \<Longrightarrow> netcfg s = None \<Longrightarrow> dhcp_reach Probe s"
| pass: "dhcp_reach ph s \<Longrightarrow> length mac = 6 \<Longrightarrow>
    dhcp_pass mac sock (ph, s\<lparr>inbox := ib, send_fails := sf, times := tm, resolv_writable := rw\<rparr>) = (ph', s') \<Longrightarrow>
    dhcp_reach ph' s'"

definition dhcp_inv :: "phase \<Rightarrow> dhcp \<Rightarrow> bool" where
  "dhcp_inv ph s \<longleftrightarrow> (ph = Probe \<longrightarrow> sent s = [] \<and> netcfg s = None) \<and>
     (ph \<noteq> Probe \<longrightarrow> length (s_mac s) = 6 \<and> \<not> zero_mac (s_mac s)) \<and>
     (\<forall>p \<in> snd ` set (sent s). client_pkt p) \<and> (ph = Bound \<longrightarrow> netcfg s \<noteq> None)"

lemma dhcp_pass_renew:
  "dhcp_pass mac sock (Bound, s) =
     (let s1 = do_sleep (renew_delay (s_lease s)) s in
      case try_renew ((snd (make_xid s1))\<lparr>s_xid := fst (make_xid s1)\<rparr>) of (ok, t) \<Rightarrow>
        if ok then (Bound, t) else (Attempt 0, t))"
  by (simp add: Let_def case_prod_beta)

lemma dhcp_pass_renew_sends:
  assumes "length (s_mac s) = 6" "dhcp_pass mac sock (Bound, s) = (ph, t)"
  shows "ph \<noteq> Probe \<and> (\<exists>p. client_pkt p \<and> sends_only p s t)"
proof -
  let ?s1 = "do_sleep (renew_delay (s_lease s)) s"
  let ?s = "(snd (make_xid ?s1))\<lparr>s_xid := fst (make_xid ?s1)\<rparr>"
  obtain ok u where u: "try_renew ?s = (ok, u)" by (cases "try_renew ?s")
  then have t: "t = u" "ph \<noteq> Probe"
    using assms(2) by (auto simp: dhcp_pass_renew Let_def simp del: dhcp_pass.simps split: if_splits)
  have "length (s_mac ?s) = 6" using assms(1) by (simp add: do_sleep_def)
  then obtain p where p: "client_pkt p" "sends_only p ?s u" using try_renew_sends[of ?s] u by auto
  have "sends_only p s ?s" by (auto simp: sends_only_def do_sleep_def)
  then show ?thesis using p t sends_only_trans by blast
qed

lemma dhcp_pass_inv:
  assumes "dhcp_inv ph s" "length mac = 6" "dhcp_pass mac sock (ph, s) = (ph', s')"
  shows "dhcp_inv ph' s'"
proof (cases ph)
  case Probe
  then show ?thesis using assms by (auto simp: dhcp_inv_def Let_def do_sleep_def split: if_splits)
next
  case (Attempt k)
  have m: "length (s_mac s) = 6" "\<not> zero_mac (s_mac s)" "\<forall>p \<in> snd ` set (sent s). client_pkt p"
    using assms(1) Attempt by (simp_all add: dhcp_inv_def)
  obtain ok u where u: "try_acquire (at_attempt k s) = (ok, u)" by (cases "try_acquire (at_attempt k s)")
  then have "s_mac u = s_mac s" "\<forall>p \<in> snd ` set (sent u). client_pkt p"
    using try_acquire_sends[of "at_attempt k s"] m by simp_all
  then show ?thesis using assms(3) u m Attempt
    by (cases sock) (auto simp: dhcp_pass_attempt dhcp_inv_def simp del: dhcp_pass.simps split: if_splits)
next
  case Bound
  have m: "length (s_mac s) = 6" "\<not> zero_mac (s_mac s)" "\<forall>p \<in> snd ` set (sent s). client_pkt p" "netcfg s \<noteq> None"
    using assms(1) Bound by (simp_all add: dhcp_inv_def)
  obtain p where p: "client_pkt p" "sends_only p s s'" "ph' \<noteq> Probe"
    using dhcp_pass_renew_sends[OF m(1)] assms(3) Bound by blast
  then show ?thesis using sends_only_client[OF p(2,1) m(3)] m p(2) by (simp add: dhcp_inv_def sends_only_def)
qed

text \<open>
  C32: Whatever arrives and whatever fails, every packet the daemon has sent is a complete DHCP packet of
  548 bytes whose options are properly encoded and end inside it, with message type DISCOVER or
  REQUEST; it sends nothing before it knows its hardware address, and it holds a lease only after
  it has configured the interface.\<close>

theorem dhcp_reach_inv: "dhcp_reach ph s \<Longrightarrow> dhcp_inv ph s"
proof (induction rule: dhcp_reach.induct)
  case (start s)
  then show ?case by (simp add: dhcp_inv_def)
next
  case (pass ph s mac sock ib sf tm rw ph' s')
  show ?case by (rule dhcp_pass_inv[OF _ pass(2,3)]) (use pass(4) in \<open>simp add: dhcp_inv_def\<close>)
qed

text \<open>
  C34: A renewal never reconfigures: whatever the ACK of a renewal says, the interface keeps its
  configuration and \<open>/etc/resolv.conf\<close> its contents.\<close>

theorem dhcp_renew_not_applied:
  assumes "length (s_mac s) = 6"
  shows "netcfg (snd (dhcp_pass mac sock (Bound, s))) = netcfg s \<and> resolv (snd (dhcp_pass mac sock (Bound, s))) = resolv s"
  using dhcp_pass_renew_sends[OF assms] unfolding sends_only_def by (metis prod.collapse)

section \<open>Examples\<close>

definition ex_reply :: "byte \<Rightarrow> byte \<Rightarrow> byte list" where
  "ex_reply mt host = pokes [(0, [2, 1, 6, 0, 0, 0, 0, 1]), (16, [10, 0, 2, host]), (240, [53, 1, mt, 3, 4, 10, 0, 2, 2, 255])]
     (replicate 300 0)"

definition ex_state :: "recv list \<Rightarrow> dhcp" where
  "ex_state ib = \<lparr>s_mac = [2, 0, 0, 0, 0, 1], s_xid = 0, s_offered_ip = 0, s_server_ip = 0, s_ip = 0, s_mask = 0,
     s_gateway = 0, s_dns = 0, s_lease = 0, s_has_dns = False, inbox = ib, send_fails = \<lambda>_. False,
     times = \<lambda>_. 0, resolv_writable = True, sent = [], netcfg = Some (1, 2, 3), resolv = None, slept = []\<rparr>"

lemma ex_reply_is_reply:
  "is_reply 0x1000000 [(53, [2]), (3, [10, 0, 2, 2])] (ex_reply 2 15)"
  "is_reply 0x1000000 [(53, [5]), (3, [10, 0, 2, 2])] (ex_reply 5 15)"
proof -
  have "for_us 0x1000000 (take pkt_size (ex_reply m 15)) \<and>
    drop fixed_size (take pkt_size (ex_reply m 15)) = [53, 1, m, 3, 4, 10, 0, 2, 2] @ 255 # replicate 50 0" for m
    by (simp add: for_us_def pkt_size_def fixed_size_def ex_reply_def pokes_def poke_def reply_xid_def peek_def numeral_eq_Suc)
  then show "is_reply 0x1000000 [(53, [2]), (3, [10, 0, 2, 2])] (ex_reply 2 15)"
    "is_reply 0x1000000 [(53, [5]), (3, [10, 0, 2, 2])] (ex_reply 5 15)"
    by (auto simp: is_reply_def wf_opts_def render_opts_def)
qed

lemma ex_xid: "fst (make_xid (ex_state ib)) = 1" "htonl 1 = 0x1000000"
  by (simp_all add: make_xid_def ex_state_def ntohl_def le_bytes_def numeral_eq_Suc)

lemma ex_state_simps [simp]: "inbox (ex_state ib) = ib" "send_fails (ex_state ib) n = False"
  by (simp_all add: ex_state_def)

theorem parse_options_render_witness:
  "parse_options [53, 1, 2, 51, 4, 0, 0, 2, 88, 255] (ex_state []) = (2, with_opts [(53, [2]), (51, [0, 0, 2, 88])] (ex_state []))"
  using parse_options_render[of "[(53, [2]), (51, [0, 0, 2, 88])]" "[]"]
  by (simp add: wf_opts_def render_opts_def msg_type_def last_opt_def)

theorem dhcp_binds_witness:
  "fst (dhcp_pass [] True (Attempt 2, ex_state [Datagram [] 7, Datagram (ex_reply 2 15) 7, Datagram (ex_reply 5 15) 7])) = Bound"
  using dhcp_binds[of "ex_state [Datagram [] 7, Datagram (ex_reply 2 15) 7, Datagram (ex_reply 5 15) 7]" "0x1000000"
    "[Datagram [] 7]" "ex_reply 2 15" 7 "[]" "ex_reply 5 15" 7 "[]", OF _ _ _ _ _ ex_reply_is_reply(1) _ ex_reply_is_reply(2)]
  by (simp add: ex_xid not_ours_def for_us_def fixed_size_def msg_type_def last_opt_def del: dhcp_pass.simps)

lemma ex_binds:
  "fst (dhcp_pass [] True (Attempt 0, ex_state [Datagram (ex_reply 2 15) 7, Datagram (ex_reply 5 15) 7])) = Bound"
proof -
  let ?s = "ex_state [Datagram (ex_reply 2 15) 7, Datagram (ex_reply 5 15) 7]"
  have "\<exists>t. try_acquire (at_attempt 0 ?s) = (True, t)"
    using try_acquire_completes[of "at_attempt 0 ?s" "0x1000000" "[]" "ex_reply 2 15" 7 "[]" "ex_reply 5 15" 7 "[]",
      OF _ _ _ _ _ ex_reply_is_reply(1) _ ex_reply_is_reply(2) _ refl]
    by (auto simp: ex_xid msg_type_def last_opt_def)
  then show ?thesis by (auto simp: dhcp_pass_attempt simp del: dhcp_pass.simps)
qed

theorem dhcp_bound_by_ack_witness:
  "\<exists>d a. Datagram d a \<in> {Datagram (ex_reply 2 15) 7, Datagram (ex_reply 5 15) 7} \<and> acked 0x1000000 d"
proof -
  let ?s = "ex_state [Datagram (ex_reply 2 15) 7, Datagram (ex_reply 5 15) 7]"
  obtain t where "dhcp_pass [] True (Attempt 0, ?s) = (Bound, t)" using ex_binds by (metis prod.collapse)
  from dhcp_bound_by_ack[OF this] show ?thesis by (auto simp: ex_xid)
qed

theorem dhcp_reach_inv_witness: "dhcp_inv Probe ((ex_state [])\<lparr>netcfg := None\<rparr>)"
  by (rule dhcp_reach_inv) (rule dhcp_reach.start, simp_all add: ex_state_def)

theorem dhcp_renew_not_applied_witness:
  "netcfg (snd (dhcp_pass [] True (Bound, ex_state [Datagram (ex_reply 5 99) 7]))) = Some (1, 2, 3) \<and>
   s_ip (snd (dhcp_pass [] True (Bound, ex_state [Datagram (ex_reply 5 99) 7]))) = le_word [10, 0, 2, 99]"
proof
  show "netcfg (snd (dhcp_pass [] True (Bound, ex_state [Datagram (ex_reply 5 99) 7]))) = Some (1, 2, 3)"
    using dhcp_renew_not_applied[of "ex_state [Datagram (ex_reply 5 99) 7]" "[]" True] by (simp add: ex_state_def del: dhcp_pass.simps)
  show "s_ip (snd (dhcp_pass [] True (Bound, ex_state [Datagram (ex_reply 5 99) 7]))) = le_word [10, 0, 2, 99]"
    by code_simp
qed

end
