(* ===== verification/Vigil.thy ===== *)
theory Vigil
  imports C_Bytes
begin

text \<open>
  The init process and service supervisor, \<open>user/bin/vigil/main.c\<close>: the service table and its
  files, starting and reaping services, the command file, the supervisor pass and the shutdown.

  The table is the list of its first \<open>s_nsvc\<close> entries.  Reading a file is a function of its path
  that gives the bytes \<open>read\<close> returns.  What \<open>fork\<close> returns, which children \<open>waitpid\<close> reports and
  which signals arrive are inputs; \<open>spawned\<close>, \<open>killed\<close> and \<open>errors\<close> record the forks that succeeded,
  the signals sent and the failures reported, and \<open>unlinked\<close> the files removed.  The child side of \<open>fork\<close>, console messages and the
  profiling marks are not modelled.
\<close>

section \<open>Definitions\<close>

subsection \<open>C strings\<close>

text \<open>\<open>strstr_from\<close>: the rest of the text from the first occurrence on.\<close>

fun strstr_from :: "string \<Rightarrow> string \<Rightarrow> string option" where
  "strstr_from [] w = (if w = [] then Some [] else None)"
| "strstr_from (c # s) w = (if take (length w) (c # s) = w then Some (c # s) else strstr_from s w)"

definition strncmp_eq :: "string \<Rightarrow> string \<Rightarrow> bool" where
  "strncmp_eq s w \<longleftrightarrow> take (length w) s = w"

definition digits_value :: "string \<Rightarrow> int" where
  "digits_value s = foldl (\<lambda>n c. 10 * n + (int (byte_of c) - 48)) 0 (takeWhile is_digit s)"

text \<open>\<open>atoi\<close>; a value outside \<open>int\<close> is undefined in C and not bounded here.\<close>

definition atoi :: "string \<Rightarrow> int" where
  "atoi s =
     (case dropWhile is_space s of
        [] \<Rightarrow> 0
      | c # r \<Rightarrow> if c = CHR ''-'' then - digits_value r
                else if c = CHR ''+'' then digits_value r else digits_value (c # r))"

subsection \<open>State\<close>

datatype policy = POLICY_RESPAWN | POLICY_ONESHOT

record service =
  svc_name :: string
  run_cmd :: string
  mode :: string
  cmdline_tok :: string
  policy :: policy
  max_restarts :: int
  pid :: int
  restarts :: int
  active :: bool
  expected_stop :: bool

datatype wstatus = Exited nat | Signaled nat

datatype sig = SIGTERM | SIGKILL

record vigil =
  s_svcs :: "service list"
  s_boot_mode :: string
  s_cmdline :: string
  s_quiet :: bool
  forks :: "nat \<Rightarrow> nat + int"
  spawned :: "(nat \<times> int) list"
  killed :: "(int \<times> sig) list"
  errors :: "(string \<times> string) list"
  unlinked :: "string list"

definition VIGIL_MAX_SERVICES :: nat where "VIGIL_MAX_SERVICES = 32"
definition VIGIL_CMD_PATH :: string where "VIGIL_CMD_PATH = ''/run/vigil.cmd''"
definition VIGIL_SERVICES_DIR :: string where "VIGIL_SERVICES_DIR = ''/etc/vigil/services''"

definition upd_svc :: "nat \<Rightarrow> (service \<Rightarrow> service) \<Rightarrow> vigil \<Rightarrow> vigil" where
  "upd_svc i f v = v\<lparr>s_svcs := (s_svcs v)[i := f (s_svcs v ! i)]\<rparr>"

subsection \<open>Reading files\<close>

type_synonym reader = "string \<Rightarrow> buf option"

text \<open>The bytes left in the buffer; \<open>None\<close> when the buffer is not touched.\<close>

definition vigil_read_file :: "reader \<Rightarrow> string \<Rightarrow> nat \<Rightarrow> buf option" where
  "vigil_read_file rd path bufsz =
     map_option (\<lambda>b. rtrim_of (\<lambda>c. c = newline \<or> c = cr \<or> c = space) (take (bufsz - 1) b)) (rd path)"

definition read_str :: "reader \<Rightarrow> string \<Rightarrow> nat \<Rightarrow> string \<Rightarrow> string" where
  "read_str rd path bufsz old = (case vigil_read_file rd path bufsz of None \<Rightarrow> old | Some b \<Rightarrow> cstr b)"

definition svc_path :: "string \<Rightarrow> string \<Rightarrow> string" where
  "svc_path name f = VIGIL_SERVICES_DIR @ ''/'' @ name @ ''/'' @ f"

definition load_service :: "reader \<Rightarrow> string \<Rightarrow> vigil \<Rightarrow> vigil" where
  "load_service rd name v =
     (if length (s_svcs v) \<ge> VIGIL_MAX_SERVICES then v
      else
        (case vigil_read_file rd (svc_path name ''run'') 256 of
           None \<Rightarrow> v
         | Some run \<Rightarrow>
            if run = [] then v
            else
              (let pol = read_str rd (svc_path name ''policy'') 128 ''respawn'';
                   mx = (case strstr_from pol ''max_restarts='' of None \<Rightarrow> 5 | Some p \<Rightarrow> atoi (drop 13 p));
                   s = \<lparr>svc_name = take 63 name, run_cmd = cstr run,
                        mode = read_str rd (svc_path name ''mode'') 16 [],
                        cmdline_tok = read_str rd (svc_path name ''cmdline'') 48 [],
                        policy = (if strncmp_eq pol ''oneshot'' then POLICY_ONESHOT else POLICY_RESPAWN),
                        max_restarts = mx, pid = -1, restarts = 0, active = True, expected_stop = False\<rparr> in
               v\<lparr>s_svcs := s_svcs v @ [s]\<rparr>)))"

text \<open>The entries \<open>getdents\<close> gives: name and whether it is a directory.\<close>

definition scan_services :: "reader \<Rightarrow> (string \<times> bool) list \<Rightarrow> vigil \<Rightarrow> vigil" where
  "scan_services rd ents v =
     foldl (\<lambda>v (n, isdir). if take 1 n \<noteq> [dot] \<and> isdir then load_service rd n v else v) v ents"

subsection \<open>Starting services\<close>

definition service_error :: "string \<Rightarrow> string \<Rightarrow> vigil \<Rightarrow> vigil" where
  "service_error name detail v = v\<lparr>errors := errors v @ [(name, detail)]\<rparr>"

definition start_service :: "nat \<Rightarrow> vigil \<Rightarrow> vigil" where
  "start_service i v =
     (if pid (s_svcs v ! i) > 0 then v
      else
        (let v1 = v\<lparr>forks := \<lambda>n. forks v (Suc n)\<rparr> in
         case forks v 0 of
           Inr p \<Rightarrow> if p > 0 then (upd_svc i (\<lambda>s. s\<lparr>pid := p\<rparr>) v1)\<lparr>spawned := spawned v @ [(i, p)]\<rparr> else v1
         | Inl e \<Rightarrow> service_error (svc_name (s_svcs v ! i)) (''fork failed (errno='' @ fmt_u e @ '')'') v1))"

text \<open>The loop at the end of start-up: services for another boot mode and gated services are switched
  off, the others started.\<close>

definition boot_service :: "nat \<Rightarrow> vigil \<Rightarrow> vigil" where
  "boot_service i v =
     (let s = s_svcs v ! i in
      if mode s \<noteq> [] \<and> mode s \<noteq> s_boot_mode v then upd_svc i (\<lambda>s. s\<lparr>active := False\<rparr>) v
      else if cmdline_tok s \<noteq> [] \<and> strstr_from (s_cmdline v) (cmdline_tok s) = None
      then upd_svc i (\<lambda>s. s\<lparr>active := False\<rparr>) v
      else start_service i v)"

definition boot_services :: "vigil \<Rightarrow> vigil" where
  "boot_services v = fold boot_service [0..<length (s_svcs v)] v"

definition getty :: service where
  "getty = \<lparr>svc_name = ''getty'', run_cmd = ''/bin/login'', mode = [], cmdline_tok = [], policy = POLICY_RESPAWN,
     max_restarts = 5, pid = -1, restarts = 0, active = True, expected_stop = False\<rparr>"

definition fallback_getty :: "vigil \<Rightarrow> vigil" where
  "fallback_getty v = (if s_svcs v = [] then v\<lparr>s_svcs := [getty]\<rparr> else v)"

text \<open>The boot mode, the quiet flag and the live flag from the kernel command line; \<open>bastion\<close> says whether
  the display manager is installed.\<close>

definition boot_flags :: "reader \<Rightarrow> bool \<Rightarrow> vigil \<Rightarrow> bool \<times> vigil" where
  "boot_flags rd bastion v =
     (let cl = read_str rd ''/proc/cmdline'' 256 [];
          m = (if strstr_from cl ''boot=graphical'' \<noteq> None then ''graphical''
               else if strstr_from cl ''boot=text'' \<noteq> None then ''text''
               else if bastion then ''graphical'' else ''text'') in
      (strstr_from cl ''aegis_live'' \<noteq> None,
       v\<lparr>s_cmdline := cl, s_boot_mode := m, s_quiet := (strstr_from cl ''quiet'' \<noteq> None)\<rparr>))"

text \<open>The start-up of the table in \<open>main\<close>.\<close>

definition vigil_boot :: "reader \<Rightarrow> bool \<Rightarrow> (string \<times> bool) list \<Rightarrow> vigil \<Rightarrow> vigil" where
  "vigil_boot rd bastion ents v = boot_services (fallback_getty (scan_services rd ents (snd (boot_flags rd bastion v))))"

subsection \<open>Commands\<close>

definition kill_svc :: "nat \<Rightarrow> sig \<Rightarrow> vigil \<Rightarrow> vigil" where
  "kill_svc i sg v = v\<lparr>killed := killed v @ [(pid (s_svcs v ! i), sg)]\<rparr>"

definition stop_service :: "nat \<Rightarrow> bool \<Rightarrow> vigil \<Rightarrow> vigil" where
  "stop_service i again v =
     (let v1 = (if pid (s_svcs v ! i) > 0
                then kill_svc i SIGTERM (upd_svc i (\<lambda>s. s\<lparr>expected_stop := True\<rparr>) v) else v);
          v2 = upd_svc i (\<lambda>s. s\<lparr>active := again\<rparr>) v1 in
      if again then
        (let v3 = upd_svc i (\<lambda>s. s\<lparr>restarts := 0\<rparr>) v2 in
         if pid (s_svcs v3 ! i) \<le> 0 then start_service i v3 else v3)
      else v2)"

definition cmd_service :: "string \<Rightarrow> string \<Rightarrow> nat \<Rightarrow> vigil \<Rightarrow> vigil" where
  "cmd_service cmd name i v =
     (if svc_name (s_svcs v ! i) \<noteq> name then v
      else if cmd = ''stop'' \<or> cmd = ''restart'' then stop_service i (cmd = ''restart'') v
      else if cmd = ''start'' then start_service i (upd_svc i (\<lambda>s. s\<lparr>active := True, restarts := 0\<rparr>) v)
      else v)"

text \<open>The \<open>status\<close> command only prints.\<close>

definition process_cmd :: "reader \<Rightarrow> vigil \<Rightarrow> vigil" where
  "process_cmd rd v =
     (case vigil_read_file rd VIGIL_CMD_PATH 192 of
        None \<Rightarrow> v
      | Some b \<Rightarrow>
         if b = [] then v
         else
           (let v1 = v\<lparr>unlinked := unlinked v @ [VIGIL_CMD_PATH]\<rparr> in
            if strncmp_eq (cstr b) ''status'' then v1
            else (case split_first space (cstr b) of
                None \<Rightarrow> v1
              | Some (cmd, name) \<Rightarrow> fold (cmd_service cmd name) [0..<length (s_svcs v1)] v1)))"

subsection \<open>The supervisor\<close>

definition wdetail :: "wstatus \<Rightarrow> string" where
  "wdetail st = (case st of Signaled n \<Rightarrow> ''terminated by signal '' @ fmt_u n | Exited n \<Rightarrow> ''exited with status '' @ fmt_u n)"

definition failed_status :: "wstatus \<Rightarrow> bool" where
  "failed_status st \<longleftrightarrow> (case st of Exited n \<Rightarrow> n \<noteq> 0 | Signaled n \<Rightarrow> True)"

text \<open>The body of the reaping loop for the service whose child has died.\<close>

definition reap_at :: "nat \<Rightarrow> wstatus \<Rightarrow> vigil \<Rightarrow> vigil" where
  "reap_at i st v =
     (let expected = expected_stop (s_svcs v ! i);
          v1 = upd_svc i (\<lambda>s. s\<lparr>pid := -1, expected_stop := False\<rparr>) v;
          v2 = (if \<not> expected \<and> failed_status st then service_error (svc_name (s_svcs v ! i)) (wdetail st) v1 else v1);
          s = s_svcs v2 ! i in
      if \<not> active s then v2
      else if policy s = POLICY_ONESHOT then upd_svc i (\<lambda>s. s\<lparr>active := False\<rparr>) v2
      else if restarts s \<ge> max_restarts s then upd_svc i (\<lambda>s. s\<lparr>active := False\<rparr>) v2
      else start_service i (upd_svc i (\<lambda>s. s\<lparr>restarts := restarts s + 1\<rparr>) v2))"

fun first_pid :: "int \<Rightarrow> nat \<Rightarrow> service list \<Rightarrow> nat option" where
  "first_pid p i [] = None"
| "first_pid p i (s # ss) = (if pid s = p then Some i else first_pid p (Suc i) ss)"

definition reap :: "int \<times> wstatus \<Rightarrow> vigil \<Rightarrow> vigil" where
  "reap d v = (case first_pid (fst d) 0 (s_svcs v) of None \<Rightarrow> v | Some i \<Rightarrow> reap_at i (snd d) v)"

definition retry_service :: "nat \<Rightarrow> vigil \<Rightarrow> vigil" where
  "retry_service i v = (if active (s_svcs v ! i) \<and> pid (s_svcs v ! i) \<le> 0 then start_service i v else v)"

definition retry_all :: "vigil \<Rightarrow> vigil" where
  "retry_all v = fold retry_service [0..<length (s_svcs v)] v"

text \<open>One pass of the main loop: a command if \<open>SIGUSR1\<close> came, the children \<open>waitpid\<close> reports, the retries.\<close>

definition supervise :: "reader option \<Rightarrow> (int \<times> wstatus) list \<Rightarrow> vigil \<Rightarrow> vigil" where
  "supervise usr1 dead v =
     (let v1 = (case usr1 of None \<Rightarrow> v | Some rd \<Rightarrow> process_cmd rd v) in
      retry_all (fold reap (takeWhile (\<lambda>d. fst d > 0) dead) v1))"

subsection \<open>Shutdown\<close>

definition signal_all :: "sig \<Rightarrow> vigil \<Rightarrow> vigil" where
  "signal_all sg v = fold (\<lambda>i v. if pid (s_svcs v ! i) > 0 then kill_svc i sg v else v) [0..<length (s_svcs v)] v"

definition forget_pid :: "int \<Rightarrow> vigil \<Rightarrow> vigil" where
  "forget_pid p v = v\<lparr>s_svcs := map (\<lambda>s. if pid s = p then s\<lparr>pid := -1\<rparr> else s) (s_svcs v)\<rparr>"

text \<open>The waiting loop, with the children reported in each round; at most five rounds.\<close>

fun shutdown_wait :: "nat \<Rightarrow> int list list \<Rightarrow> vigil \<Rightarrow> vigil" where
  "shutdown_wait 0 rounds v = v"
| "shutdown_wait (Suc n) rounds v =
     (if \<not> list_ex (\<lambda>s. pid s > 0) (s_svcs v) then v
      else (case rounds of
          [] \<Rightarrow> shutdown_wait n [] v
        | r # rs \<Rightarrow> shutdown_wait n rs (fold forget_pid r v)))"

definition shutdown_all :: "int list list \<Rightarrow> vigil \<Rightarrow> vigil" where
  "shutdown_all rounds v = signal_all SIGKILL (shutdown_wait 5 rounds (signal_all SIGTERM v))"

section \<open>Entries of the table\<close>

lemma length_upd_svc [simp]: "length (s_svcs (upd_svc i f v)) = length (s_svcs v)"
  by (simp add: upd_svc_def)

lemma nth_upd_svc [simp]:
  "j < length (s_svcs v) \<Longrightarrow> s_svcs (upd_svc i f v) ! j = (if j = i then f (s_svcs v ! i) else s_svcs v ! j)"
  by (simp add: upd_svc_def)

lemma upd_svc_other [simp]:
  "forks (upd_svc i f v) = forks v" "spawned (upd_svc i f v) = spawned v" "killed (upd_svc i f v) = killed v"
  by (simp_all add: upd_svc_def)

lemma service_error_simps [simp]:
  "s_svcs (service_error n d v) = s_svcs v" "forks (service_error n d v) = forks v"
  "spawned (service_error n d v) = spawned v" "killed (service_error n d v) = killed v"
  by (simp_all add: service_error_def)

lemma kill_svc_simps [simp]:
  "s_svcs (kill_svc i g v) = s_svcs v" "forks (kill_svc i g v) = forks v" "spawned (kill_svc i g v) = spawned v"
  by (simp_all add: kill_svc_def)

lemma start_service_cases [case_names running started refused]:
  obtains "pid (s_svcs v ! i) > 0" "start_service i v = v"
  | p where "pid (s_svcs v ! i) \<le> 0" "forks v 0 = Inr p" "p > 0"
      "s_svcs (start_service i v) = (s_svcs v)[i := (s_svcs v ! i)\<lparr>pid := p\<rparr>]"
      "spawned (start_service i v) = spawned v @ [(i, p)]" "forks (start_service i v) = (\<lambda>n. forks v (Suc n))"
  | "pid (s_svcs v ! i) \<le> 0" "s_svcs (start_service i v) = s_svcs v"
      "spawned (start_service i v) = spawned v" "forks (start_service i v) = (\<lambda>n. forks v (Suc n))"
      "\<forall>p > 0. forks v 0 \<noteq> Inr p"
proof (cases "pid (s_svcs v ! i) > 0")
  case True
  then show ?thesis using that(1) by (simp add: start_service_def)
next
  case False
  show ?thesis
  proof (cases "\<exists>p > 0. forks v 0 = Inr p")
    case True
    then obtain p where "p > 0" "forks v 0 = Inr p" by blast
    then show ?thesis using False by (intro that(2)) (simp_all add: start_service_def upd_svc_def)
  next
    case no: False
    then show ?thesis using False by (intro that(3)) (auto simp: start_service_def Let_def split: sum.split)
  qed
qed

lemma length_start_service [simp]: "length (s_svcs (start_service i v)) = length (s_svcs v)"
  by (cases rule: start_service_cases[of v i]) simp_all

lemma first_pid_Some: "first_pid p i ss = Some k \<Longrightarrow> i \<le> k \<and> k - i < length ss \<and> pid (ss ! (k - i)) = p"
proof (induction ss arbitrary: i)
  case (Cons s ss)
  then show ?case by (cases "pid s = p") (fastforce simp: nth_Cons' Suc_le_eq)+
qed simp

lemma length_reap_at [simp]: "length (s_svcs (reap_at i st v)) = length (s_svcs v)"
  by (simp add: reap_at_def Let_def)

lemma length_reap [simp]: "length (s_svcs (reap d v)) = length (s_svcs v)"
  by (simp add: reap_def split: option.split)

lemma length_stop_service [simp]: "length (s_svcs (stop_service i b v)) = length (s_svcs v)"
  by (simp add: stop_service_def Let_def)

lemma length_cmd_service [simp]: "length (s_svcs (cmd_service c n i v)) = length (s_svcs v)"
  by (simp add: cmd_service_def)

lemma length_retry_service [simp]: "length (s_svcs (retry_service i v)) = length (s_svcs v)"
  by (simp add: retry_service_def)

text \<open>What every step over the table keeps, a loop over the table keeps.\<close>

lemma fold_table:
  assumes "\<And>i v. P v \<Longrightarrow> i < length (s_svcs v) \<Longrightarrow> P (f i v)" "\<And>i v. length (s_svcs (f i v)) = length (s_svcs v)"
    and "P v" "set is \<subseteq> {..<length (s_svcs v)}"
  shows "P (fold f is v)"
  using assms(3,4)
proof (induction "is" arbitrary: v)
  case (Cons i "is")
  then show ?case using assms(1)[of v i] assms(2)[of i v] by simp
qed simp

lemma fold_length: "(\<And>x v. length (s_svcs (f x v)) = length (s_svcs v)) \<Longrightarrow> length (s_svcs (fold f xs v)) = length (s_svcs v)"
  by (induction xs arbitrary: v) simp_all

lemma fold_keeps: "(\<And>x v. P v \<Longrightarrow> P (f x v)) \<Longrightarrow> P v \<Longrightarrow> P (fold f xs v)"
  by (induction xs arbitrary: v) simp_all

section \<open>How often a service is started\<close>

definition starts :: "nat \<Rightarrow> vigil \<Rightarrow> nat" where
  "starts i v = length (filter (\<lambda>s. fst s = i) (spawned v))"

text \<open>The starts a service has left without a command.\<close>

definition budget :: "service \<Rightarrow> nat" where
  "budget s =
     (if \<not> active s then 0
      else (if policy s = POLICY_ONESHOT then 0 else nat (max_restarts s - restarts s)) + (if pid s > 0 then 0 else 1))"

definition within_budget :: "nat \<Rightarrow> nat \<Rightarrow> vigil \<Rightarrow> bool" where
  "within_budget i n v \<longleftrightarrow> i < length (s_svcs v) \<and> starts i v + budget (s_svcs v ! i) \<le> n"

lemma start_within_budget:
  assumes "within_budget i n v" "active (s_svcs v ! j)" "j < length (s_svcs v)"
  shows "within_budget i n (start_service j v)"
proof (cases rule: start_service_cases[of v j])
  case (started p)
  then show ?thesis using assms by (cases "i = j") (auto simp: within_budget_def starts_def budget_def)
next
  case refused
  then show ?thesis using assms by (simp add: within_budget_def starts_def)
qed (use assms in simp)

lemma upd_within_budget:
  assumes "within_budget i n v" "budget (f (s_svcs v ! j)) \<le> budget (s_svcs v ! j)"
  shows "within_budget i n (upd_svc j f v)"
  using assms by (cases "j = i") (auto simp: within_budget_def starts_def upd_svc_def)

lemma error_within_budget: "within_budget i n (service_error a d v) = within_budget i n v"
  by (simp add: within_budget_def starts_def)

lemma reap_at_within_budget:
  assumes "within_budget i n v" "pid (s_svcs v ! j) > 0" "j < length (s_svcs v)"
  shows "within_budget i n (reap_at j st v)"
proof -
  let ?s = "s_svcs v ! j"
  let ?e = "\<lambda>w. if \<not> expected_stop ?s \<and> failed_status st then service_error (svc_name ?s) (wdetail st) w else w"
  have e: "s_svcs (?e w) = s_svcs w" "within_budget i n (?e w) = within_budget i n w" for w
    by (simp_all add: error_within_budget)
  let ?v1 = "?e (upd_svc j (\<lambda>s. s\<lparr>pid := -1, expected_stop := False\<rparr>) v)"
  have s1: "s_svcs ?v1 ! j = ?s\<lparr>pid := -1, expected_stop := False\<rparr>" using assms(3) by (simp add: e)
  consider "\<not> active ?s" | "active ?s" "policy ?s = POLICY_ONESHOT \<or> restarts ?s \<ge> max_restarts ?s"
    | "active ?s" "policy ?s \<noteq> POLICY_ONESHOT" "restarts ?s < max_restarts ?s" by force
  then show ?thesis
  proof cases
    case 1
    then have "within_budget i n ?v1" using assms by (simp add: e upd_within_budget budget_def)
    then show ?thesis using 1 s1 by (simp add: reap_at_def Let_def)
  next
    case 2
    have "within_budget i n (?e (upd_svc j (\<lambda>s. s\<lparr>pid := -1, expected_stop := False, active := False\<rparr>) v))"
      using assms by (simp add: e upd_within_budget budget_def)
    moreover have "upd_svc j (\<lambda>s. s\<lparr>active := False\<rparr>) ?v1 =
        ?e (upd_svc j (\<lambda>s. s\<lparr>pid := -1, expected_stop := False, active := False\<rparr>) v)"
      using assms(3) by (simp add: upd_svc_def service_error_def)
    ultimately show ?thesis using 2 s1 by (auto simp: reap_at_def Let_def)
  next
    case 3
    let ?v2 = "?e (upd_svc j (\<lambda>s. s\<lparr>pid := -1, expected_stop := False, restarts := restarts s + 1\<rparr>) v)"
    have "within_budget i n ?v2" using assms 3 by (simp add: e upd_within_budget budget_def)
    moreover have "upd_svc j (\<lambda>s. s\<lparr>restarts := restarts s + 1\<rparr>) ?v1 = ?v2"
      using assms(3) by (simp add: upd_svc_def service_error_def)
    moreover have "active (s_svcs ?v2 ! j)" "j < length (s_svcs ?v2)" using 3 assms(3) by (simp_all add: e)
    ultimately show ?thesis using 3 s1 start_within_budget[of i n ?v2 j] by (simp add: reap_at_def Let_def)
  qed
qed

lemma reap_within_budget:
  assumes "within_budget i n v" "fst d > 0"
  shows "within_budget i n (reap d v)"
proof (cases "first_pid (fst d) 0 (s_svcs v)")
  case None
  then show ?thesis using assms by (simp add: reap_def)
next
  case (Some j)
  then have "j < length (s_svcs v)" "pid (s_svcs v ! j) = fst d" using first_pid_Some[OF Some] by simp_all
  then show ?thesis using assms Some reap_at_within_budget[of i n v j "snd d"] by (simp add: reap_def)
qed

lemma retry_within_budget: "within_budget i n v \<Longrightarrow> j < length (s_svcs v) \<Longrightarrow> within_budget i n (retry_service j v)"
  by (simp add: retry_service_def start_within_budget)

lemma supervise_within_budget:
  assumes "within_budget i n v"
  shows "within_budget i n (supervise None ds v)"
proof -
  have "within_budget i n (fold reap xs w)" if "within_budget i n w" "\<forall>d \<in> set xs. fst d > 0" for xs w
    using that by (induction xs arbitrary: w) (simp_all add: reap_within_budget)
  then have "within_budget i n (fold reap (takeWhile (\<lambda>d. fst d > 0) ds) v)"
    using assms by (meson set_takeWhileD)
  then show ?thesis
    unfolding supervise_def Let_def retry_all_def option.case
    by (intro fold_table[where P = "within_budget i n"]) (auto simp: retry_within_budget)
qed

text \<open>
  C35: Between two commands a service is started at most as often as it has restarts left, once more if it
  is not running, and never if it has been stopped: this bounds every crash loop.\<close>

theorem vigil_restart_bounded:
  assumes "i < length (s_svcs v)"
  shows "starts i (fold (supervise None) deaths v) \<le> starts i v + budget (s_svcs v ! i)"
proof -
  have "within_budget i (starts i v + budget (s_svcs v ! i)) v" using assms by (simp add: within_budget_def)
  then have "within_budget i (starts i v + budget (s_svcs v ! i)) (fold (supervise None) deaths v)"
    by (rule fold_keeps[rotated]) (rule supervise_within_budget)
  then show ?thesis by (simp add: within_budget_def)
qed

definition ex_vigil :: "service list \<Rightarrow> vigil" where
  "ex_vigil ss = \<lparr>s_svcs = ss, s_boot_mode = ''text'', s_cmdline = [], s_quiet = False, forks = \<lambda>n. Inr (100 + int n),
     spawned = [], killed = [], errors = [], unlinked = []\<rparr>"

theorem vigil_restart_bounded_witness:
  "starts 0 (fold (supervise None) [[(7, Exited 1)], [(100, Signaled 11)], [(101, Exited 1)]]
     (ex_vigil [getty\<lparr>pid := 7, max_restarts := 2\<rparr>])) \<le> 2"
  using vigil_restart_bounded[of 0 "ex_vigil [getty\<lparr>pid := 7, max_restarts := 2\<rparr>]"
    "[[(7, Exited 1)], [(100, Signaled 11)], [(101, Exited 1)]]"]
  by (simp add: ex_vigil_def getty_def budget_def starts_def del: fold.simps)

end
