(* ===== verification/Vigil_Boot.thy ===== *)
theory Vigil_Boot
  imports Vigil Posix
begin

text \<open>
  The files \<open>vigil\<close> keeps, over the file system with faults: the persistent log and its rotation, the
  summary of the previous boot, the error log, and the two clean-ups of a first boot.  The clock, the
  random bytes of the boot identifier and the kernel's message buffer are inputs.
\<close>

section \<open>Definitions\<close>

subsection \<open>Paths and limits\<close>

definition VIGIL_ERROR_LOG :: string where "VIGIL_ERROR_LOG = ''/run/vigil-errors.log''"
definition VIGIL_LOG_DIR :: string where "VIGIL_LOG_DIR = ''/var/log''"
definition VIGIL_LOG :: string where "VIGIL_LOG = ''/var/log/vigil.log''"
definition VIGIL_PREVIOUS_LOG :: string where "VIGIL_PREVIOUS_LOG = ''/var/log/vigil.previous.log''"
definition VIGIL_LOG_MAX :: nat where "VIGIL_LOG_MAX = 65536"
definition VIGIL_ERROR_MAX :: nat where "VIGIL_ERROR_MAX = 128"

subsection \<open>Appending to a log\<close>

text \<open>\<open>open (path, O_WRONLY | O_CREAT | O_APPEND, mode)\<close>\<close>

definition fs_open_log :: "string \<Rightarrow> nat \<Rightarrow> fsys \<Rightarrow> (errno + fpath) \<times> fsys" where
  "fs_open_log path pm s =
     (let p = resolve path in
      case walk_err s p of
        Some e \<Rightarrow> (Inl e, s)
      | None \<Rightarrow>
         (case map_of s p of
            None \<Rightarrow> (Inr p, AList.update p (Reg [] pm) s)
          | Some (Reg c m) \<Rightarrow> (Inr p, s)
          | Some Dir \<Rightarrow> (Inl EISDIR, s)
          | Some Special \<Rightarrow> (Inl EINVAL, s)))"

text \<open>\<open>fstat\<close> on a descriptor, as far as the size.\<close>

definition fs_size :: "fpath \<Rightarrow> fsys \<Rightarrow> (errno + nat) \<times> fsys" where
  "fs_size p s = (case file_at s p of None \<Rightarrow> Inl EIO | Some c \<Rightarrow> Inr (length c), s)"

definition log_line :: "string \<Rightarrow> nat \<Rightarrow> string \<Rightarrow> string \<Rightarrow> string \<Rightarrow> string" where
  "log_line bid ms level subject detail =
     take 511 (''boot='' @ (if bid = [] then ''unknown'' else bid) @ '' ms='' @ fmt_u ms @ '' level='' @ level @ '' '' @
       subject @ '': '' @ detail @ [newline])"

definition persistent_log :: "string \<Rightarrow> nat \<Rightarrow> string \<Rightarrow> string \<Rightarrow> string \<Rightarrow> unit io" where
  "persistent_log bid ms level subject detail =
     (let line = log_line bid ms level subject detail in
      ignore (andthen (syscall (fs_open_log VIGIL_LOG 420)) (\<lambda>fd.
        andthen (syscall (fs_size fd)) (\<lambda>n.
          if n + length line \<le> VIGIL_LOG_MAX then write_all fd line else ret ()))))"

text \<open>A line appended to the error log of this boot.\<close>

definition error_append :: "string \<Rightarrow> unit io" where
  "error_append line = ignore (andthen (syscall (fs_open_log VIGIL_ERROR_LOG 420)) (\<lambda>fd. write_all fd line))"

text \<open>The files \<open>service_error\<close> writes; the result is the new \<open>s_error_count\<close>.\<close>

definition service_error_log :: "string \<Rightarrow> nat \<Rightarrow> string \<Rightarrow> string \<Rightarrow> nat \<Rightarrow> nat io" where
  "service_error_log bid ms name detail count =
     (let nm = (if name = [] then ''service'' else name);
          line = take 255 (nm @ '': '' @ detail @ [newline]) in
      if count < VIGIL_ERROR_MAX then
        andthen (error_append line) (\<lambda>u.
        andthen (persistent_log bid ms ''error'' nm detail) (\<lambda>u. ret (count + 1)))
      else if count = VIGIL_ERROR_MAX then
        andthen (persistent_log bid ms ''error'' ''vigil'' ''error limit reached; later errors are console-only'') (\<lambda>u.
        ret (count + 1))
      else ret count)"

subsection \<open>The previous boot\<close>

record previous_boot =
  pb_exists :: bool
  pb_clean :: bool
  pb_errors :: nat
  pb_boot_id :: string

definition contains :: "string \<Rightarrow> string \<Rightarrow> bool" where
  "contains s w \<longleftrightarrow> strstr_from s w \<noteq> None"

definition previous_line :: "previous_boot \<Rightarrow> string \<Rightarrow> previous_boot" where
  "previous_line p line =
     (let p1 = (if pb_boot_id p = [] \<and> strncmp_eq line ''boot=''
                then p\<lparr>pb_boot_id := take 32 (takeWhile (\<lambda>c. c \<noteq> space \<and> c \<noteq> cr \<and> c \<noteq> newline) (drop 5 line))\<rparr> else p);
          p2 = (if contains line ''end=clean'' then p1\<lparr>pb_clean := True\<rparr> else p1) in
      if contains line ''level=error'' \<or> contains line ''level=panic'' then p2\<lparr>pb_errors := pb_errors p2 + 1\<rparr> else p2)"

definition no_previous :: previous_boot where
  "no_previous = \<lparr>pb_exists = False, pb_clean = False, pb_errors = 0, pb_boot_id = []\<rparr>"

definition parse_previous :: "buf \<Rightarrow> previous_boot" where
  "parse_previous b = foldl previous_line (no_previous\<lparr>pb_exists := True\<rparr>) (map cstr (fgets_lines 512 b))"

definition read_previous_boot :: "previous_boot io" where
  "read_previous_boot =
     handle (andthen (sys_open_read VIGIL_PREVIOUS_LOG) (\<lambda>(c, m). ret (parse_previous c))) (\<lambda>e. ret no_previous)"

subsection \<open>The boot identifier\<close>

definition hex_char :: "nat \<Rightarrow> char" where
  "hex_char n = ''0123456789abcdef'' ! n"

text \<open>The generator that replaces \<open>/dev/urandom\<close>: sixteen bytes of a linear congruence.\<close>

fun lcg_bytes :: "nat \<Rightarrow> 64 word \<Rightarrow> byte list" where
  "lcg_bytes 0 x = []"
| "lcg_bytes (Suc n) x = (let y = x * 1103515245 + 12345 in ucast (drop_bit 16 y) # lcg_bytes n y)"

text \<open>\<open>random\<close> is what the read of \<open>/dev/urandom\<close> gives, \<open>seed\<close> the clock and process number.\<close>

definition make_boot_id :: "byte list option \<Rightarrow> 64 word \<Rightarrow> string" where
  "make_boot_id random seed =
     (let raw = (case random of Some r \<Rightarrow> if length r = 16 then r else lcg_bytes 16 seed | None \<Rightarrow> lcg_bytes 16 seed) in
      concat (map (\<lambda>b. [hex_char (unat b div 16), hex_char (unat b mod 16)]) raw))"

subsection \<open>The kernel's messages\<close>

definition summary_hit :: "string \<Rightarrow> (string \<times> string) option" where
  "summary_hit b =
     (case strstr_from b ''[PANIC]'' of
        Some h \<Rightarrow> Some (''panic'', h)
      | None \<Rightarrow> (case strstr_from b ''[ASSERT] FAIL'' of
          Some h \<Rightarrow> Some (''panic'', h)
        | None \<Rightarrow> (case strstr_from b ''not cleanly unmounted'' of
            Some h \<Rightarrow> Some (''warning'', h)
          | None \<Rightarrow> None)))"

text \<open>The line of the hit: back to the character after the previous newline, on to the end of the line.\<close>

definition summary_line :: "string \<Rightarrow> string \<Rightarrow> string" where
  "summary_line b hit =
     (let before = take (length b - length hit) b;
          start = rev (takeWhile (\<lambda>c. c \<noteq> newline) (rev before)) @ hit in
      take 255 (takeWhile (\<lambda>c. c \<noteq> cr \<and> c \<noteq> newline) start))"

definition log_kernel_summary :: "reader \<Rightarrow> string \<Rightarrow> nat \<Rightarrow> unit io" where
  "log_kernel_summary rd bid ms =
     (case vigil_read_file rd ''/proc/dmesg'' 4096 of
        None \<Rightarrow> ret ()
      | Some b \<Rightarrow> if b = [] then ret () else
         (case summary_hit (cstr b) of
            None \<Rightarrow> ret ()
          | Some (kind, hit) \<Rightarrow>
             (let s = summary_line (cstr b) hit in
              andthen (persistent_log bid ms kind ''kernel'' s) (\<lambda>u.
              error_append (''Kernel: '' @ s @ [newline])))))"

subsection \<open>\<open>diagnostics_init\<close>\<close>

definition previous_notice :: "previous_boot \<Rightarrow> string" where
  "previous_notice p =
     (let bid = (if pb_boot_id p = [] then ''unknown'' else pb_boot_id p) in
      if \<not> pb_clean p
      then take 255 (''Previous boot '' @ bid @ '' ended uncleanly (panic, reset, or power loss); see '' @ VIGIL_PREVIOUS_LOG @ [newline])
      else take 255 (''Previous boot '' @ bid @ '' recorded '' @ fmt_u (pb_errors p) @ '' error(s); see '' @ VIGIL_PREVIOUS_LOG @ [newline]))"

text \<open>Rotation: an existing log becomes the previous one; the result says whether a fresh log is opened.\<close>

definition rotate_log :: "bool io" where
  "rotate_log =
     andthen (succeeds (sys_lstat VIGIL_LOG)) (\<lambda>here.
       if here then succeeds (sys_rename VIGIL_LOG VIGIL_PREVIOUS_LOG) else ret True)"

definition open_fresh :: "bool \<Rightarrow> unit io" where
  "open_fresh fresh = (if fresh then ignore (sys_open_trunc VIGIL_LOG 420) else ignore (syscall (fs_open_log VIGIL_LOG 420)))"

definition report_previous :: "string \<Rightarrow> nat \<Rightarrow> previous_boot \<Rightarrow> unit io" where
  "report_previous bid ms p =
     (if \<not> pb_exists p \<or> pb_clean p \<and> pb_errors p = 0 then ret ()
      else andthen (error_append (previous_notice p)) (\<lambda>u.
        if \<not> pb_clean p
        then persistent_log bid ms ''warning'' ''previous-boot'' ''ended uncleanly (panic, reset, or power loss)''
        else ret ()))"

definition diagnostics_init :: "reader \<Rightarrow> string \<Rightarrow> string \<Rightarrow> nat \<Rightarrow> unit io" where
  "diagnostics_init rd bid boot_mode ms =
     andthen (ignore (sys_mkdir ''/var'')) (\<lambda>u.
     andthen (ignore (sys_mkdir VIGIL_LOG_DIR)) (\<lambda>u.
     andthen rotate_log (\<lambda>fresh.
     andthen (open_fresh fresh) (\<lambda>u.
     andthen (ignore (sys_unlink VIGIL_ERROR_LOG)) (\<lambda>u.
     andthen (persistent_log bid ms ''info'' ''vigil'' (take 47 (''start mode='' @ boot_mode))) (\<lambda>u.
     andthen (log_kernel_summary rd bid ms) (\<lambda>u.
     andthen read_previous_boot (\<lambda>p.
     report_previous bid ms p))))))))"

subsection \<open>First boot\<close>

definition installer_paths :: "string list" where
  "installer_paths = [''/apps/gui-installer/gui-installer'', ''/apps/gui-installer/app.ini'', ''/bin/installer'',
     ''/etc/aegis/caps.d/gui-installer'', ''/etc/aegis/caps.d/installer'']"

definition remove_installers_if_installed :: "bool \<Rightarrow> unit io" where
  "remove_installers_if_installed is_live =
     (if is_live then ret ()
      else
        andthen (succeeds (sys_lstat (installer_paths ! 0))) (\<lambda>gui.
        andthen (if gui then ret True else succeeds (sys_lstat (installer_paths ! 2))) (\<lambda>present.
        if \<not> present then ret ()
        else
          andthen (each (\<lambda>p. ignore (sys_unlink p)) installer_paths) (\<lambda>u.
          andthen (ignore (sys_rmdir ''/apps/gui-installer'')) (\<lambda>u.
          ignore (sys_unlink ''/etc/aegis/autologin''))))))"

definition is_exec :: "node \<Rightarrow> bool" where
  "is_exec n \<longleftrightarrow> (case n of Reg c m \<Rightarrow> odd (m div 64) \<or> odd (m div 8) \<or> odd m | _ \<Rightarrow> True)"

text \<open>\<open>configure\<close> is the run of \<open>/bin/configure\<close>, which is another program.\<close>

definition run_first_boot_setup :: "unit io \<Rightarrow> unit io" where
  "run_first_boot_setup configure =
     andthen (succeeds (sys_lstat ''/etc/aegis/configured'')) (\<lambda>done_before.
       if done_before then ret ()
       else
         andthen (succeeds (andthen (sys_lstat ''/bin/configure'') (\<lambda>n. require (is_exec n)))) (\<lambda>x.
           if \<not> x then
             ignore (andthen (sys_open_trunc ''/etc/aegis/configured'' 420) (\<lambda>fd. ignore (sys_write fd (''1'' @ [newline]))))
           else
             andthen (ignore configure) (\<lambda>u.
             andthen (succeeds (sys_lstat ''/etc/aegis/configured'')) (\<lambda>y.
               if y then ignore (sys_unlink ''/bin/configure'') else ret ()))))"

text \<open>The notice of an unfinished update.\<close>

definition pending_notice :: "string \<Rightarrow> nat \<Rightarrow> unit io" where
  "pending_notice bid ms =
     andthen (succeeds (sys_lstat ''/etc/aegis/update/pending'')) (\<lambda>a.
     andthen (if a then ret True else succeeds (sys_lstat ''/etc/aegis/herald/transaction/state'')) (\<lambda>b.
     if \<not> b then ret ()
     else
       (let detail = ''System update incomplete; run lorica-update to finish, or '' @ [CHR 0x27] @ ''herald recover rollback'' @ [CHR 0x27] in
        andthen (ignore (andthen (syscall (fs_open_log VIGIL_ERROR_LOG 420)) (\<lambda>fd.
          andthen (ignore (write_all fd detail)) (\<lambda>u. write_all fd [newline])))) (\<lambda>u.
        persistent_log bid ms ''error'' ''lorica-update'' detail))))"

definition VIGIL_PID_PATH :: string where "VIGIL_PID_PATH = ''/run/vigil.pid''"

definition write_pid_file :: "nat \<Rightarrow> unit io" where
  "write_pid_file p = ignore (andthen (sys_open_trunc VIGIL_PID_PATH 420) (\<lambda>fd. sys_write fd (fmt_u p @ [newline])))"

text \<open>What \<open>main\<close> does to files before it starts the services.\<close>

definition startup_files :: "reader \<Rightarrow> string \<Rightarrow> string \<Rightarrow> nat \<Rightarrow> nat \<Rightarrow> bool \<Rightarrow> unit io \<Rightarrow> unit io" where
  "startup_files rd bid boot_mode ms p is_live configure =
     andthen (diagnostics_init rd bid boot_mode ms) (\<lambda>u.
     andthen (pending_notice bid ms) (\<lambda>u.
     andthen (write_pid_file p) (\<lambda>u.
     andthen (run_first_boot_setup configure) (\<lambda>u.
     remove_installers_if_installed is_live))))"

section \<open>The log stays bounded\<close>

lemma vigil_resolves:
  "resolve VIGIL_LOG = [''var'', ''log'', ''vigil.log'']"
  "resolve VIGIL_PREVIOUS_LOG = [''var'', ''log'', ''vigil.previous.log'']"
  "resolve VIGIL_ERROR_LOG = [''run'', ''vigil-errors.log'']"
  "resolve ''/var'' = [''var'']" "resolve VIGIL_LOG_DIR = [''var'', ''log'']"
  by code_simp+

lemma valid_write_all_prefix:
  assumes A: "\<And>x y s. A x s \<Longrightarrow> A (x @ y) (fs_append p y s)"
  shows "valid F (A x) (write_all p d) (\<lambda>_. A (x @ d)) (\<lambda>_ s. \<exists>y. prefix y d \<and> A (x @ y) s)"
proof (induction d arbitrary: x rule: length_induct)
  case (1 d)
  let ?E = "\<lambda>_ s. \<exists>y. prefix y d \<and> A (x @ y) s"
  show ?case
  proof (cases "d = []")
    case True
    then show ?thesis by (subst write_all_unfold) (auto intro: valid_ret)
  next
    case False
    have e: "A x s \<Longrightarrow> \<exists>y. prefix y d \<and> A (x @ y) s" for s by (rule exI[of _ "[]"]) simp
    have "valid F (A x) (sys_write p d) (\<lambda>n. A (x @ take n d)) ?E"
      by (rule valid_write) (simp_all add: A e)
    moreover have "valid F (A (x @ take n d)) (if n = 0 then throw EIO else write_all p (drop n d)) (\<lambda>_. A (x @ d)) ?E" for n
    proof (cases "n = 0")
      case True
      then show ?thesis by (simp add: valid_throw e)
    next
      case n: False
      have "valid F (A (x @ take n d)) (write_all p (drop n d)) (\<lambda>_. A ((x @ take n d) @ drop n d))
          (\<lambda>_ s. \<exists>y. prefix y (drop n d) \<and> A ((x @ take n d) @ y) s)"
        using 1[rule_format, of "drop n d" "x @ take n d"] False n by simp
      then have "valid F (A (x @ take n d)) (write_all p (drop n d)) (\<lambda>_. A (x @ d)) ?E"
      proof (rule valid_conseq)
        fix s assume "\<exists>y. prefix y (drop n d) \<and> A ((x @ take n d) @ y) s"
        then obtain y where y: "prefix y (drop n d)" "A ((x @ take n d) @ y) s" by blast
        have "prefix (take n d @ y) (take n d @ drop n d)" using y(1) by (simp only: same_prefix_prefix)
        then show "?E e s" for e using y(2) by (intro exI[of _ "take n d @ y"]) simp
      qed simp_all
      then show ?thesis using n by simp
    qed
    ultimately show ?thesis using False by (subst write_all_unfold) (auto intro: valid_andthen)
  qed
qed

text \<open>Outside the log nothing changes; the log holds at most \<open>VIGIL_LOG_MAX\<close> bytes.\<close>

definition only_log :: "fpath \<Rightarrow> fsys \<Rightarrow> fsys \<Rightarrow> bool" where
  "only_log p s0 s \<longleftrightarrow> (\<forall>q. q \<noteq> p \<longrightarrow> map_of s q = map_of s0 q)"

definition log_small :: "fsys \<Rightarrow> bool" where
  "log_small s \<longleftrightarrow> (\<forall>c. file_at s (resolve VIGIL_LOG) = Some c \<longrightarrow> length c \<le> VIGIL_LOG_MAX)"

lemma open_log_call:
  assumes "fs_open_log path pm s = (r, s')"
  shows "only_log (resolve path) s s'" "r = Inr fd \<Longrightarrow> fd = resolve path \<and> (\<exists>c. file_at s' fd = Some c)"
    "file_at s (resolve path) = Some c \<Longrightarrow> file_at s' (resolve path) = Some c"
    "file_at s (resolve path) = None \<Longrightarrow> file_at s' (resolve path) \<in> {None, Some []}"
  using assms by (auto simp: fs_open_log_def only_log_def file_at_def Let_def split: option.splits node.splits)

lemma fs_append_only: "only_log p s (fs_append p d s)"
  by (simp add: only_log_def file_at_append)

lemma only_log_trans: "only_log p s t \<Longrightarrow> only_log p t u \<Longrightarrow> only_log p s u"
  by (simp add: only_log_def)

text \<open>A line written to a file that is open: the file grows by a prefix of it.\<close>

lemma append_line_triple:
  "valid F (\<lambda>s. only_log p s0 s \<and> file_at s p = Some c) (write_all p d)
     (\<lambda>_ s. only_log p s0 s \<and> (\<exists>y. prefix y d \<and> file_at s p = Some (c @ y)))
     (\<lambda>_ s. only_log p s0 s \<and> (\<exists>y. prefix y d \<and> file_at s p = Some (c @ y)))"
proof -
  let ?A = "\<lambda>x s. only_log p s0 s \<and> file_at s p = Some (c @ x)"
  have "valid F (?A []) (write_all p d) (\<lambda>_. ?A ([] @ d)) (\<lambda>_ s. \<exists>y. prefix y d \<and> ?A ([] @ y) s)"
    by (rule valid_write_all_prefix) (auto intro: only_log_trans fs_append_only simp: file_at_append)
  then show ?thesis by (rule valid_conseq) auto
qed

text \<open>What one record may do to the log: nothing, or grow it without passing the limit.\<close>

definition log_step :: "fsys \<Rightarrow> fsys \<Rightarrow> bool" where
  "log_step s0 s \<longleftrightarrow> only_log (resolve VIGIL_LOG) s0 s \<and>
     (case file_at s0 (resolve VIGIL_LOG) of
        Some c \<Rightarrow> \<exists>y. file_at s (resolve VIGIL_LOG) = Some (c @ y) \<and> (y = [] \<or> length c + length y \<le> VIGIL_LOG_MAX)
      | None \<Rightarrow> \<forall>c. file_at s (resolve VIGIL_LOG) = Some c \<longrightarrow> length c \<le> VIGIL_LOG_MAX)"

definition log_open :: "fsys \<Rightarrow> buf \<Rightarrow> fsys \<Rightarrow> bool" where
  "log_open s0 c s \<longleftrightarrow> only_log (resolve VIGIL_LOG) s0 s \<and> file_at s (resolve VIGIL_LOG) = Some c \<and>
     (file_at s0 (resolve VIGIL_LOG) = Some c \<or> file_at s0 (resolve VIGIL_LOG) = None \<and> c = [])"

lemma log_step_refl: "log_small s \<or> file_at s (resolve VIGIL_LOG) \<noteq> None \<Longrightarrow> log_step s s"
  by (auto simp: log_step_def only_log_def log_small_def split: option.split)

lemma log_open_step:
  "only_log (resolve VIGIL_LOG) s0 s \<Longrightarrow> prefix y line \<Longrightarrow> file_at s (resolve VIGIL_LOG) = Some (c @ y) \<Longrightarrow>
   file_at s0 (resolve VIGIL_LOG) = Some c \<or> file_at s0 (resolve VIGIL_LOG) = None \<and> c = [] \<Longrightarrow>
   length c + length line \<le> VIGIL_LOG_MAX \<or> y = [] \<Longrightarrow> log_step s0 s"
  by (auto simp: log_step_def VIGIL_LOG_MAX_def dest!: prefix_length_le)

lemma log_open_same: "log_open s0 c s \<Longrightarrow> log_step s0 s"
  using log_open_step[of s0 s "[]" "[]" c] by (auto simp: log_open_def)

lemma log_write_triple:
  assumes "length c + length line \<le> VIGIL_LOG_MAX"
  shows "valid F (log_open s0 c) (write_all (resolve VIGIL_LOG) line) (\<lambda>_. log_step s0) (\<lambda>_. log_step s0)"
proof (cases "file_at s0 (resolve VIGIL_LOG) = Some c \<or> file_at s0 (resolve VIGIL_LOG) = None \<and> c = []")
  case True
  let ?p = "resolve VIGIL_LOG"
  have st: "log_step s0 s" if h: "only_log ?p s0 s \<and> (\<exists>y. prefix y line \<and> file_at s ?p = Some (c @ y))" for s
  proof -
    obtain y where y: "prefix y line" "file_at s ?p = Some (c @ y)" "only_log ?p s0 s" using h by blast
    have "length c + length line \<le> VIGIL_LOG_MAX \<or> y = []" using assms by simp
    from log_open_step[OF y(3,1,2) True this] show ?thesis .
  qed
  show ?thesis
    by (rule valid_conseq[OF append_line_triple[of F ?p s0 c line]]) (simp add: log_open_def, (erule st)+)
next
  case False
  show ?thesis by (rule valid_pointwise) (use False in \<open>simp add: log_open_def\<close>)
qed

lemma persistent_log_triple:
  "valid F (\<lambda>s. s = s0) (persistent_log bid ms level subject detail) (\<lambda>_. log_step s0) E"
proof -
  let ?line = "log_line bid ms level subject detail" and ?p = "resolve VIGIL_LOG"
  have r: "log_step s0 s0" by (auto simp: log_step_def only_log_def split: option.split)
  have o: "valid F (\<lambda>s. s = s0) (syscall (fs_open_log VIGIL_LOG 420))
      (\<lambda>fd s. fd = ?p \<and> (\<exists>c. log_open s0 c s)) (\<lambda>_. log_step s0)"
  proof (rule valid_syscall)
    fix s assume s: "s = s0"
    obtain x s' where x: "fs_open_log VIGIL_LOG 420 s0 = (x, s')" by fastforce
    note c = open_log_call[OF x]
    show "case fs_open_log VIGIL_LOG 420 s of (Inr fd, s') \<Rightarrow> fd = ?p \<and> (\<exists>c. log_open s0 c s') | (Inl e, s') \<Rightarrow> log_step s0 s'"
    proof (cases x)
      case (Inl e)
      then have "log_step s0 s'" using c(1,3,4) by (auto simp: log_step_def split: option.split)
      then show ?thesis by (simp add: s x Inl)
    next
      case (Inr fd)
      then obtain d where "fd = ?p" "file_at s' ?p = Some d" using c(2) by auto
      then have "fd = ?p \<and> log_open s0 d s'" using c(1,3,4) by (cases "file_at s0 ?p") (auto simp: log_open_def)
      then show ?thesis by (auto simp: s x Inr)
    qed
  qed (use r in simp)
  have n: "valid F (log_open s0 c) (syscall (fs_size ?p)) (\<lambda>n s. n = length c \<and> log_open s0 c s) (\<lambda>_. log_step s0)" for c
    by (rule valid_syscall) (auto simp: fs_size_def log_open_same, auto simp: log_open_def)
  have w: "valid F (\<lambda>s. n = length c \<and> log_open s0 c s)
      (if n + length ?line \<le> VIGIL_LOG_MAX then write_all ?p ?line else ret ()) (\<lambda>_. log_step s0) (\<lambda>_. log_step s0)" for n c
    by (rule valid_pull, cases "n + length ?line \<le> VIGIL_LOG_MAX")
      (simp_all add: log_write_triple valid_ret log_open_same)
  show ?thesis
    unfolding persistent_log_def Let_def
    by (intro valid_ignore valid_andthen[OF o] valid_pull valid_ex)
      (auto intro!: valid_andthen[OF n] w)
qed

lemma error_append_triple: "valid F (\<lambda>s. s = s0) (error_append line) (\<lambda>_. only_log (resolve VIGIL_ERROR_LOG) s0) E"
proof -
  let ?p = "resolve VIGIL_ERROR_LOG"
  have o: "valid F (\<lambda>s. s = s0) (syscall (fs_open_log VIGIL_ERROR_LOG 420))
      (\<lambda>fd s. fd = ?p \<and> (\<exists>c. only_log ?p s0 s \<and> file_at s ?p = Some c)) (\<lambda>_. only_log ?p s0)"
  proof (rule valid_syscall)
    fix s assume s: "s = s0"
    obtain x s' where x: "fs_open_log VIGIL_ERROR_LOG 420 s0 = (x, s')" by fastforce
    show "case fs_open_log VIGIL_ERROR_LOG 420 s of (Inr fd, s') \<Rightarrow> fd = ?p \<and> (\<exists>c. only_log ?p s0 s' \<and> file_at s' ?p = Some c)
        | (Inl e, s') \<Rightarrow> only_log ?p s0 s'"
      using open_log_call(1,2)[OF x] s x by (auto split: sum.split)
  qed (simp add: only_log_def)
  have w: "valid F (\<lambda>s. only_log ?p s0 s \<and> file_at s ?p = Some c) (write_all ?p line) (\<lambda>_. only_log ?p s0) (\<lambda>_. only_log ?p s0)" for c
    by (rule valid_conseq[OF append_line_triple]) auto
  show ?thesis
    unfolding error_append_def by (intro valid_ignore valid_andthen[OF o] valid_pull valid_ex) (simp add: w)
qed

lemma valid_inv:
  assumes "\<And>s0. valid F (\<lambda>s. s = s0) m (\<lambda>_. R s0) E" "\<And>s0 s. P s0 \<Longrightarrow> R s0 s \<Longrightarrow> P s"
  shows "valid F P m (\<lambda>_. P) E"
  by (rule valid_pointwise, rule valid_conseq[OF assms(1)]) (use assms(2) in blast)+

lemma log_small_step: "log_small s0 \<Longrightarrow> log_step s0 s \<Longrightarrow> log_small s"
  by (auto simp: log_small_def log_step_def split: option.splits)

lemma log_small_error: "log_small s0 \<Longrightarrow> only_log (resolve VIGIL_ERROR_LOG) s0 s \<Longrightarrow> log_small s"
  by (simp add: log_small_def only_log_def file_at_def vigil_resolves)

text \<open>The old log \<open>c\<close> is the previous log, or still the beginning of the log.\<close>

definition log_kept :: "buf \<Rightarrow> fsys \<Rightarrow> bool" where
  "log_kept c s \<longleftrightarrow> file_at s (resolve VIGIL_PREVIOUS_LOG) = Some c \<or> (\<exists>d. file_at s (resolve VIGIL_LOG) = Some (c @ d))"

lemma log_kept_step: "log_kept c s0 \<Longrightarrow> log_step s0 s \<Longrightarrow> log_kept c s"
  by (auto simp: log_kept_def log_step_def only_log_def file_at_def vigil_resolves split: option.splits node.splits)

lemma log_kept_error: "log_kept c s0 \<Longrightarrow> only_log (resolve VIGIL_ERROR_LOG) s0 s \<Longrightarrow> log_kept c s"
  by (simp add: log_kept_def only_log_def file_at_def vigil_resolves)

text \<open>A property of the file system that records and error lines keep, the reporting part of
  \<open>diagnostics_init\<close> keeps.\<close>

locale log_property =
  fixes P :: "fsys \<Rightarrow> bool"
  assumes step: "P s0 \<Longrightarrow> log_step s0 s \<Longrightarrow> P s"
    and error: "P s0 \<Longrightarrow> only_log (resolve VIGIL_ERROR_LOG) s0 s \<Longrightarrow> P s"
begin

lemma persistent_log_keeps: "valid F P (persistent_log bid ms l sub d) (\<lambda>_. P) E"
  by (rule valid_inv[OF persistent_log_triple step])

lemma error_append_keeps: "valid F P (error_append line) (\<lambda>_. P) E"
  by (rule valid_inv[OF error_append_triple error])

lemma unlink_error_keeps: "valid F P (ignore (sys_unlink VIGIL_ERROR_LOG)) (\<lambda>_. P) E"
proof (rule valid_ignore, rule valid_syscall)
  fix s assume p: "P s"
  have "only_log (resolve VIGIL_ERROR_LOG) s (snd (fs_unlink VIGIL_ERROR_LOG s))"
    by (auto simp: fs_unlink_def only_log_def split: sum.split node.split)
  then show "case fs_unlink VIGIL_ERROR_LOG s of (Inr x, s') \<Rightarrow> P s' | (Inl e, s') \<Rightarrow> P s'"
    using error[OF p] by (auto split: prod.splits sum.splits)
qed auto

lemma service_error_keeps: "valid F P (service_error_log bid ms name detail n) (\<lambda>_. P) E"
  unfolding service_error_log_def Let_def
  by (auto intro!: valid_if valid_andthen[OF error_append_keeps] valid_andthen[OF persistent_log_keeps] valid_ret)

lemma summary_keeps: "valid F P (log_kernel_summary rd bid ms) (\<lambda>_. P) E"
  unfolding log_kernel_summary_def
  by (auto simp: Let_def split: option.split intro!: valid_ret valid_andthen[OF persistent_log_keeps] error_append_keeps)

lemma report_keeps: "valid F P (report_previous bid ms p) (\<lambda>_. P) E"
  unfolding report_previous_def
  by (auto intro!: valid_if valid_ret valid_andthen[OF error_append_keeps] persistent_log_keeps)

lemma read_previous_keeps: "valid F P read_previous_boot (\<lambda>_. P) E"
  unfolding read_previous_boot_def
  by (rule valid_handle[where R = "\<lambda>_. P"], rule valid_andthen[where R = "\<lambda>_. P"], rule quiet_call)
    (auto simp: fs_open_read_def split: sum.split node.split intro!: valid_ret)

lemma reporting_keeps:
  "valid F P
     (andthen (ignore (sys_unlink VIGIL_ERROR_LOG)) (\<lambda>u.
      andthen (persistent_log bid ms ''info'' ''vigil'' m) (\<lambda>u.
      andthen (log_kernel_summary rd bid ms) (\<lambda>u.
      andthen read_previous_boot (\<lambda>p. report_previous bid ms p))))) (\<lambda>_. P) E"
  by (intro valid_andthen[OF unlink_error_keeps] valid_andthen[OF persistent_log_keeps] valid_andthen[OF summary_keeps]
    valid_andthen[OF read_previous_keeps] report_keeps)

end

interpretation small: log_property log_small
  by unfold_locales (rule log_small_step, assumption+, rule log_small_error, assumption+)

interpretation kept: log_property "log_kept c" for c
  by unfold_locales (rule log_kept_step, assumption+, rule log_kept_error, assumption+)

section \<open>Rotation\<close>

text \<open>Worlds in which no transfer is short or any fault may come: the least restrictive set.\<close>

lemma within_UNIV [simp]: "within UNIV w"
  by (simp add: within_def)

lemma mkdir_keeps:
  assumes "\<And>s p. P s \<Longrightarrow> map_of s p = None \<Longrightarrow> P (AList.update p Dir s)"
  shows "valid F P (ignore (sys_mkdir d)) (\<lambda>_. P) E"
  by (rule valid_ignore, rule valid_syscall) (auto simp: fs_mkdir_def Let_def assms split: option.split)

lemma log_small_mkdir: "log_small s \<Longrightarrow> map_of s p = None \<Longrightarrow> log_small (AList.update p Dir s)"
  by (auto simp: log_small_def file_at_def)

lemma rename_call:
  assumes "fs_rename a b s = (r, s')"
  shows "s' = s \<or> (\<exists>n. r = Inr () \<and> map_of s (resolve a) = Some n \<and> n \<noteq> Dir \<and>
    map_of s' = (map_of s)(resolve a := None, resolve b \<mapsto> n))"
  using assms fs_find_Inr[of a s]
  by (auto simp: fs_rename_def split: sum.splits node.splits option.splits if_splits)

lemma log_paths [simp]: "resolve VIGIL_LOG \<noteq> resolve VIGIL_PREVIOUS_LOG"
  by (simp add: vigil_resolves)

lemma rename_small: "fs_rename VIGIL_LOG VIGIL_PREVIOUS_LOG s = (r, s') \<Longrightarrow> log_small s \<Longrightarrow> log_small s'"
  using rename_call[of VIGIL_LOG VIGIL_PREVIOUS_LOG s r s'] by (auto simp: log_small_def file_at_def)

lemma rotate_small: "valid F log_small rotate_log (\<lambda>_. log_small) E"
  unfolding rotate_log_def
proof (rule valid_andthen)
  show "valid F log_small (succeeds (sys_lstat VIGIL_LOG)) (\<lambda>_. log_small) E"
    by (rule valid_succeeds, rule quiet_call) (simp add: fs_lstat_def)
  have "valid F log_small (sys_rename VIGIL_LOG VIGIL_PREVIOUS_LOG) (\<lambda>_. log_small) (\<lambda>_. log_small)"
    by (rule valid_syscall) (auto dest: rename_small split: prod.split sum.split)
  then show "valid F log_small (if here then succeeds (sys_rename VIGIL_LOG VIGIL_PREVIOUS_LOG) else ret True) (\<lambda>_. log_small) E" for here
    by (auto intro: valid_succeeds valid_ret)
qed

lemma open_fresh_small: "valid F log_small (open_fresh b) (\<lambda>_. log_small) E"
  unfolding open_fresh_def
proof (rule valid_if; rule valid_ignore; rule valid_syscall)
  fix s assume p: "log_small s"
  show "case fs_open_trunc VIGIL_LOG 420 s of (Inr x, s') \<Rightarrow> log_small s' | (Inl e, s') \<Rightarrow> log_small s'"
    using p by (auto simp: fs_open_trunc_def Let_def log_small_def file_at_def split: option.splits node.splits)
  show "case fs_open_log VIGIL_LOG 420 s of (Inr x, s') \<Rightarrow> log_small s' | (Inl e, s') \<Rightarrow> log_small s'"
    using p by (auto simp: fs_open_log_def Let_def log_small_def file_at_def split: option.splits node.splits)
qed auto

lemma diagnostics_small: "valid F log_small (diagnostics_init rd bid m ms) (\<lambda>_. log_small) E"
  unfolding diagnostics_init_def
  by (intro valid_andthen[OF mkdir_keeps[where P = log_small, OF log_small_mkdir]] valid_andthen[OF rotate_small]
    valid_andthen[OF open_fresh_small] small.reporting_keeps)

lemma valid_snd: "valid UNIV P m (\<lambda>_. Q) (\<lambda>_. Q) \<Longrightarrow> P (fs w) \<Longrightarrow> Q (fs (snd (m w)))"
  using valid_run[of UNIV P m "\<lambda>_. Q" "\<lambda>_. Q" w "fst (m w)" "snd (m w)"] by (auto split: sum.splits)

text \<open>
  Whatever system calls fail, neither start-up nor an error report makes the persistent log larger than
  \<open>VIGIL_LOG_MAX\<close>.\<close>

theorem vigil_log_bounded:
  assumes "log_small (fs w)"
  shows "log_small (fs (snd (diagnostics_init rd bid boot_mode ms w))) \<and>
    log_small (fs (snd (service_error_log bid ms name detail count w)))"
  using valid_snd[OF diagnostics_small assms] valid_snd[OF small.service_error_keeps assms] by blast

definition log_here :: "buf \<Rightarrow> fsys \<Rightarrow> bool" where
  "log_here c s \<longleftrightarrow> walk_err s (resolve VIGIL_LOG) = None \<and> file_at s (resolve VIGIL_LOG) = Some c"

lemma log_here_mkdir: "log_here c s \<Longrightarrow> map_of s p = None \<Longrightarrow> log_here c (AList.update p Dir s)"
  by (auto simp: log_here_def walk_err_None file_at_def)

lemma mkdir_log_here: "log_here c (fs w) \<Longrightarrow> log_here c (fs (snd (ignore (sys_mkdir d) w)))"
  by (rule valid_snd[where P = "log_here c" and Q = "log_here c"], rule mkdir_keeps, rule log_here_mkdir)

lemma rename_served:
  "r = Inr () \<Longrightarrow> fs_rename a b s = (r, s') \<Longrightarrow> resolve a \<noteq> resolve b \<Longrightarrow> map_of s' (resolve b) = map_of s (resolve a)"
  by (auto simp: fs_rename_def dest!: fs_find_Inr split: sum.splits node.splits option.splits if_splits)

lemma rename_kept:
  assumes "log_here c s" "fs_rename VIGIL_LOG VIGIL_PREVIOUS_LOG s = (r, s')"
  shows "case r of Inr u \<Rightarrow> file_at s' (resolve VIGIL_PREVIOUS_LOG) = Some c | Inl e \<Rightarrow> log_here c s'"
proof (cases r)
  case (Inl e)
  then show ?thesis using rename_call[OF assms(2)] assms(1) by auto
next
  case (Inr u)
  then show ?thesis using rename_served[OF _ assms(2)] assms(1) by (simp add: log_here_def file_at_def)
qed

lemma rotated_keeps:
  "valid F (log_here c) (andthen (succeeds (sys_rename VIGIL_LOG VIGIL_PREVIOUS_LOG)) open_fresh) (\<lambda>_. log_kept c) (\<lambda>_. log_kept c)"
proof (rule valid_andthen)
  let ?R = "\<lambda>b s. if b then file_at s (resolve VIGIL_PREVIOUS_LOG) = Some c else log_here c s"
  show "valid F (log_here c) (succeeds (sys_rename VIGIL_LOG VIGIL_PREVIOUS_LOG)) ?R (\<lambda>_. log_kept c)"
    by (rule valid_succeeds, rule valid_syscall) (auto dest: rename_kept split: prod.split sum.split)
  show "valid F (?R b) (open_fresh b) (\<lambda>_. log_kept c) (\<lambda>_. log_kept c)" for b
    unfolding open_fresh_def
    by (rule valid_if; rule valid_ignore; rule valid_syscall)
      (auto simp: fs_open_trunc_def fs_open_log_def Let_def log_kept_def log_here_def file_at_def vigil_resolves
        split: option.splits node.splits)
qed

lemma syscall_served:
  "sched w 0 \<noteq> Fail \<Longrightarrow> syscall f w = (fst (f (fs w)), (next_step w)\<lparr>fs := snd (f (fs w))\<rparr>)"
  by (simp add: syscall_def split: prod.split)

lemma ignore_syscall_sched: "sched (snd (ignore (syscall f) w)) = (\<lambda>n. sched w (Suc n))"
  by (simp add: ignore_def syscall_def next_step_def split: prod.split)

lemma ignore_then: "andthen (ignore m) (\<lambda>u. k) w = k (snd (ignore m w))"
  by (simp add: andthen_def ignore_def split: prod.split)

text \<open>
  C39: The log of the previous boot survives start-up: if the \<open>stat\<close> of the log is served, then whatever else
  fails the old contents are the previous log, or still the beginning of the log.\<close>

theorem vigil_log_not_lost:
  assumes "wf_fs (fs w)" "file_at (fs w) (resolve VIGIL_LOG) = Some c" "sched w 2 \<noteq> Fail"
  shows "log_kept c (fs (snd (diagnostics_init rd bid boot_mode ms w)))"
proof -
  define w1 where "w1 = snd (ignore (sys_mkdir ''/var'') w)"
  define w2 where "w2 = snd (ignore (sys_mkdir VIGIL_LOG_DIR) w1)"
  let ?rest = "\<lambda>u. andthen (ignore (sys_unlink VIGIL_ERROR_LOG)) (\<lambda>u.
     andthen (persistent_log bid ms ''info'' ''vigil'' (take 47 (''start mode='' @ boot_mode))) (\<lambda>u.
     andthen (log_kernel_summary rd bid ms) (\<lambda>u. andthen read_previous_boot (\<lambda>p. report_previous bid ms p))))"
  obtain m where "map_of (fs w) (resolve VIGIL_LOG) = Some (Reg c m)" using assms(2) by (auto simp: file_at_Some)
  then have "log_here c (fs w)" using assms(1,2) walk_err_present by (auto simp: log_here_def)
  then have h: "log_here c (fs w2)" unfolding w1_def w2_def by (intro mkdir_log_here)
  have "sched w2 0 \<noteq> Fail" using assms(3) by (simp add: w1_def w2_def ignore_syscall_sched numeral_2_eq_2)
  then have l: "sys_lstat VIGIL_LOG w2 = (fs_find VIGIL_LOG (fs w2), next_step w2)"
    by (simp add: syscall_served fs_lstat_def)
  obtain n where n: "fs_find VIGIL_LOG (fs w2) = Inr n"
    using h by (auto simp: log_here_def fs_find_def file_at_def VIGIL_LOG_def split: option.splits node.splits)
  have "diagnostics_init rd bid boot_mode ms w =
      andthen (andthen (succeeds (sys_rename VIGIL_LOG VIGIL_PREVIOUS_LOG)) open_fresh) ?rest (next_step w2)"
    unfolding diagnostics_init_def ignore_then w1_def[symmetric] w2_def[symmetric] rotate_log_def
    by (simp add: andthen_def succeeds_def handle_def ret_def l n split: prod.split sum.split)
  moreover have "valid UNIV (log_here c) (andthen (andthen (succeeds (sys_rename VIGIL_LOG VIGIL_PREVIOUS_LOG)) open_fresh) ?rest)
      (\<lambda>_. log_kept c) (\<lambda>_. log_kept c)"
    by (rule valid_andthen[OF rotated_keeps]) (rule kept.reporting_keeps)
  ultimately show ?thesis using valid_snd h by fastforce
qed

section \<open>Reading the log of the previous boot\<close>

type_synonym log_record = "nat \<times> string \<times> string \<times> string"

definition record_line :: "string \<Rightarrow> log_record \<Rightarrow> string" where
  "record_line bid r = (case r of (ms, level, subject, detail) \<Rightarrow> log_line bid ms level subject detail)"

text \<open>A record that is not cut: its fields hold no newline and no zero byte, and the line fits.\<close>

definition record_body :: "string \<Rightarrow> log_record \<Rightarrow> string" where
  "record_body bid r = (case r of (ms, level, subject, detail) \<Rightarrow>
     ''boot='' @ bid @ '' ms='' @ fmt_u ms @ '' level='' @ level @ '' '' @ subject @ '': '' @ detail)"

definition record_ok :: "string \<Rightarrow> log_record \<Rightarrow> bool" where
  "record_ok bid r \<longleftrightarrow> newline \<notin> set (record_body bid r) \<and> nul \<notin> set (record_body bid r) \<and> length (record_body bid r) < 511"

definition is_error_line :: "string \<Rightarrow> bool" where
  "is_error_line l \<longleftrightarrow> contains l ''level=error'' \<or> contains l ''level=panic''"

lemma record_line_body: "bid \<noteq> [] \<Longrightarrow> record_ok bid r \<Longrightarrow> record_line bid r = record_body bid r @ [newline]"
  by (cases r) (auto simp: record_line_def record_body_def record_ok_def log_line_def)

lemma fold_previous:
  assumes "pb_boot_id p = bid" "bid \<noteq> []"
  shows "foldl previous_line p ls =
    p\<lparr>pb_clean := (pb_clean p \<or> list_ex (\<lambda>l. contains l ''end=clean'') ls),
      pb_errors := pb_errors p + length (filter is_error_line ls)\<rparr>"
  using assms(1)
proof (induction ls arbitrary: p)
  case (Cons l ls)
  have "previous_line p l = p\<lparr>pb_clean := (pb_clean p \<or> contains l ''end=clean''),
      pb_errors := pb_errors p + (if is_error_line l then 1 else 0)\<rparr>"
    using Cons.prems assms(2) by (simp add: previous_line_def is_error_line_def Let_def)
  then show ?case using Cons.IH[of "previous_line p l"] Cons.prems by simp
qed simp

text \<open>
  C40: What one boot records the next boot reads back: from the lines of whole records \<open>read_previous_boot\<close>
  recovers the boot identifier, whether a line says \<open>end=clean\<close>, and the number of lines that say
  \<open>level=error\<close> or \<open>level=panic\<close>.\<close>

theorem parse_previous_log:
  assumes "bid \<noteq> []" "length bid \<le> 32" "list_all (record_ok bid) rs" "rs \<noteq> []"
    and "\<forall>c \<in> set bid. c \<noteq> space \<and> c \<noteq> cr \<and> c \<noteq> newline"
  shows "parse_previous (concat (map (record_line bid) rs)) =
    \<lparr>pb_exists = True, pb_clean = list_ex (\<lambda>r. contains (record_line bid r) ''end=clean'') rs,
     pb_errors = length (filter (is_error_line \<circ> record_line bid) rs), pb_boot_id = bid\<rparr>"
proof -
  have l: "map (record_line bid) rs = map (\<lambda>l. l @ [newline]) (map (record_body bid) rs)"
    using assms(1,3) by (simp add: list_all_iff record_line_body)
  have "fgets_lines 512 (concat (map (\<lambda>l. l @ [newline]) (map (record_body bid) rs))) =
      map (\<lambda>l. l @ [newline]) (map (record_body bid) rs)"
    by (rule fgets_lines_concat) (use assms(3) in \<open>auto simp: list_all_iff record_ok_def\<close>)
  then have f: "fgets_lines 512 (concat (map (record_line bid) rs)) = map (record_line bid) rs" unfolding l .
  have "map cstr (map (record_line bid) rs) = map (record_line bid) rs"
    using assms(1,3) by (auto simp: list_all_iff record_line_body record_ok_def intro!: cstr_id)
  then have p: "parse_previous (concat (map (record_line bid) rs)) =
      foldl previous_line (no_previous\<lparr>pb_exists := True\<rparr>) (map (record_line bid) rs)"
    unfolding parse_previous_def f by (rule arg_cong)
  obtain r rs' where r: "rs = r # rs'" using assms(4) by (cases rs) auto
  then have b: "record_line bid r = record_body bid r @ [newline]" using assms(1,3) by (simp add: record_line_body)
  have "takeWhile (\<lambda>c. c \<noteq> space \<and> c \<noteq> cr \<and> c \<noteq> newline) (drop 5 (record_line bid r)) = bid"
    unfolding b using assms(5) by (cases r) (simp add: record_body_def takeWhile_append2)
  moreover have "strncmp_eq (record_line bid r) ''boot=''" unfolding b by (cases r) (simp add: record_body_def strncmp_eq_def)
  ultimately have "previous_line (no_previous\<lparr>pb_exists := True\<rparr>) (record_line bid r) =
      \<lparr>pb_exists = True, pb_clean = contains (record_line bid r) ''end=clean'',
       pb_errors = (if is_error_line (record_line bid r) then 1 else 0), pb_boot_id = bid\<rparr>"
    using assms(2) by (simp add: previous_line_def no_previous_def is_error_line_def Let_def)
  then show ?thesis using p assms(1) by (simp add: r fold_previous[where bid = bid] list_ex_iff filter_map comp_def)
qed

section \<open>First boot\<close>

lemma unlink_call:
  assumes "wf_fs s" "resolve p \<noteq> []" "p \<noteq> []" "last p \<noteq> slash" "fs_unlink p s = (r, s')"
  shows "wf_fs s'" "file_at s' (resolve p) = None" "q \<noteq> resolve p \<Longrightarrow> map_of s' q = map_of s q"
proof -
  have f: "map_of s (resolve p) = Some n \<Longrightarrow> fs_find p s = Inr n" for n using fs_find_present[of s p n] assms(1,4) by simp
  show "q \<noteq> resolve p \<Longrightarrow> map_of s' q = map_of s q"
    using assms(5) by (auto simp: fs_unlink_def split: sum.splits node.splits)
  show "wf_fs s'"
    using assms(1,2,5) fs_find_Inr[of p s]
    by (auto simp: fs_unlink_def split: sum.splits node.splits intro!: wf_fs_delete)
  show "file_at s' (resolve p) = None"
    using f assms(5) by (auto simp: fs_unlink_def file_at_def split: option.splits sum.splits node.splits)
qed

text \<open>The file system is well-formed and a set of paths holds no file.\<close>

definition cleared :: "fpath set \<Rightarrow> fsys \<Rightarrow> bool" where
  "cleared ps s \<longleftrightarrow> wf_fs s \<and> (\<forall>p \<in> ps. file_at s p = None)"

lemma unlink_clears:
  assumes "resolve p \<noteq> []" "p \<noteq> []" "last p \<noteq> slash"
  shows "valid no_faults (cleared ps) (ignore (sys_unlink p)) (\<lambda>_. cleared (insert (resolve p) ps)) E"
proof (rule valid_ignore, rule valid_syscall)
  fix s assume c: "cleared ps s"
  obtain r s' where u: "fs_unlink p s = (r, s')" by fastforce
  have "wf_fs s" using c by (simp add: cleared_def)
  note n = unlink_call[OF this assms u]
  have "file_at s' q = None" if "q \<in> ps" for q
    using c n(2) n(3)[of q] that by (cases "q = resolve p") (auto simp: cleared_def file_at_def)
  then have "cleared (insert (resolve p) ps) s'" using n(1,2) by (simp add: cleared_def)
  then show "case fs_unlink p s of (Inr x, s') \<Rightarrow> cleared (insert (resolve p) ps) s'
      | (Inl e, s') \<Rightarrow> cleared (insert (resolve p) ps) s'"
    unfolding u by (auto split: sum.split)
qed simp

lemma rmdir_clears: "valid no_faults (cleared ps) (ignore (sys_rmdir d)) (\<lambda>_. cleared ps) E"
proof (rule valid_ignore, rule valid_syscall)
  fix s assume c: "cleared ps s"
  show "case fs_rmdir d s of (Inr x, s') \<Rightarrow> cleared ps s' | (Inl e, s') \<Rightarrow> cleared ps s'"
    using c by (auto simp: fs_rmdir_def cleared_def file_at_def split: sum.splits node.splits intro!: wf_fs_delete)
qed simp

lemma installer_resolves:
  "list_all (\<lambda>p. resolve p \<noteq> [] \<and> p \<noteq> [] \<and> last p \<noteq> slash) (''/etc/aegis/autologin'' # installer_paths)"
  by code_simp

lemma installers_unlinked:
  "valid no_faults (cleared {}) (each (\<lambda>p. ignore (sys_unlink p)) installer_paths)
     (\<lambda>_. cleared (resolve ` set installer_paths)) E"
proof -
  have "valid no_faults (cleared (resolve ` set [])) (each (\<lambda>p. ignore (sys_unlink p)) installer_paths)
      (\<lambda>_. cleared (resolve ` set installer_paths)) E"
  proof (rule valid_each[where I = "\<lambda>ys. cleared (resolve ` set ys)"])
    fix ys x zs assume "installer_paths = ys @ x # zs"
    then have "x \<in> set installer_paths" by (metis in_set_conv_decomp)
    then have "x \<in> set (''/etc/aegis/autologin'' # installer_paths)" by (rule list.set_intros)
    then have "resolve x \<noteq> [] \<and> x \<noteq> [] \<and> last x \<noteq> slash" using installer_resolves[unfolded list_all_iff] by blast
    then show "valid no_faults (cleared (resolve ` set ys)) (ignore (sys_unlink x)) (\<lambda>_. cleared (resolve ` set (ys @ [x]))) E"
      using unlink_clears[of x "resolve ` set ys" E] by simp
  qed
  then show ?thesis by simp
qed

lemma lstat_present:
  assumes "p \<noteq> []" "last p \<noteq> slash"
  shows "valid no_faults (\<lambda>s. s = s0 \<and> wf_fs s0) (succeeds (sys_lstat p))
     (\<lambda>b s. (s = s0 \<and> wf_fs s0) \<and> (b \<longleftrightarrow> map_of s0 (resolve p) \<noteq> None)) E"
proof (rule valid_succeeds, rule valid_syscall)
  fix s assume s: "s = s0 \<and> wf_fs s0"
  have "fs_find p s0 = Inr n" if "map_of s0 (resolve p) = Some n" for n using fs_find_present[of s0 p n] s assms that by simp
  then show "case fs_lstat p s of (Inr x, s') \<Rightarrow> (s' = s0 \<and> wf_fs s0) \<and> (True \<longleftrightarrow> map_of s0 (resolve p) \<noteq> None)
      | (Inl e, s') \<Rightarrow> (s' = s0 \<and> wf_fs s0) \<and> (False \<longleftrightarrow> map_of s0 (resolve p) \<noteq> None)"
    using s fs_find_Inr[of p s0] by (cases "fs_find p s0"; cases "map_of s0 (resolve p)") (auto simp: fs_lstat_def)
qed simp

lemma cleanup_triple:
  "valid no_faults (\<lambda>s. s = s0 \<and> wf_fs s0) (remove_installers_if_installed False)
     (\<lambda>_ s. if map_of s0 (resolve (installer_paths ! 0)) \<noteq> None \<or> map_of s0 (resolve (installer_paths ! 2)) \<noteq> None
            then cleared (insert (resolve ''/etc/aegis/autologin'') (resolve ` set installer_paths)) s else s = s0) E"
proof -
  let ?a = "map_of s0 (resolve (installer_paths ! 0)) \<noteq> None" and ?b = "map_of s0 (resolve (installer_paths ! 2)) \<noteq> None"
  let ?S = "\<lambda>s. s = s0 \<and> wf_fs s0"
  let ?Q = "\<lambda>_ s. if ?a \<or> ?b then cleared (insert (resolve ''/etc/aegis/autologin'') (resolve ` set installer_paths)) s else s = s0"
  have pr: "installer_paths ! 0 \<noteq> []" "last (installer_paths ! 0) \<noteq> slash" "installer_paths ! 2 \<noteq> []" "last (installer_paths ! 2) \<noteq> slash"
    by code_simp+
  have au: "resolve ''/etc/aegis/autologin'' \<noteq> []" "''/etc/aegis/autologin'' \<noteq> []" "last ''/etc/aegis/autologin'' \<noteq> slash"
    by code_simp+
  have del: "valid no_faults (cleared {}) (andthen (each (\<lambda>p. ignore (sys_unlink p)) installer_paths) (\<lambda>u.
      andthen (ignore (sys_rmdir ''/apps/gui-installer'')) (\<lambda>u. ignore (sys_unlink ''/etc/aegis/autologin''))))
      (\<lambda>_. cleared (insert (resolve ''/etc/aegis/autologin'') (resolve ` set installer_paths))) E"
    by (rule valid_andthen[OF installers_unlinked], rule valid_andthen[OF rmdir_clears], rule unlink_clears[OF au])
  have two: "valid no_faults (\<lambda>s. ?S s \<and> (gui \<longleftrightarrow> ?a)) (if gui then ret True else succeeds (sys_lstat (installer_paths ! 2)))
      (\<lambda>present s. ?S s \<and> (present \<longleftrightarrow> ?a \<or> ?b)) E" for gui
    using valid_pure[OF lstat_present[OF pr(3,4), of s0 E], of "\<not> ?a"]
    by (cases gui) (auto intro!: valid_ret elim!: valid_conseq)
  have last: "valid no_faults (\<lambda>s. ?S s \<and> (present \<longleftrightarrow> ?a \<or> ?b)) (if \<not> present then ret () else
      andthen (each (\<lambda>p. ignore (sys_unlink p)) installer_paths) (\<lambda>u.
      andthen (ignore (sys_rmdir ''/apps/gui-installer'')) (\<lambda>u. ignore (sys_unlink ''/etc/aegis/autologin'')))) ?Q E" for present
  proof (cases present)
    case True
    have "valid no_faults (\<lambda>s. ?S s \<and> (present \<longleftrightarrow> ?a \<or> ?b)) (andthen (each (\<lambda>p. ignore (sys_unlink p)) installer_paths) (\<lambda>u.
      andthen (ignore (sys_rmdir ''/apps/gui-installer'')) (\<lambda>u. ignore (sys_unlink ''/etc/aegis/autologin'')))) ?Q E"
      by (rule valid_pointwise, rule valid_conseq[OF del]) (use True in \<open>auto simp: cleared_def\<close>)
    then show ?thesis using True by simp
  qed (auto intro!: valid_ret)
  show ?thesis
    unfolding remove_installers_if_installed_def if_False
    by (rule valid_andthen[OF lstat_present[OF pr(1,2)]], rule valid_andthen[OF two], rule last)
qed

text \<open>
  On the first boot of an installed system, if nothing fails, the live media's installers and its
  automatic login are removed; on a later boot, when the installers are gone, the file system is left as
  it is, so that a login setting made since then stays.\<close>

theorem vigil_first_boot_cleanup:
  assumes "wf_fs (fs w)" "within no_faults w"
  shows "if map_of (fs w) (resolve (installer_paths ! 0)) \<noteq> None \<or> map_of (fs w) (resolve (installer_paths ! 2)) \<noteq> None
    then \<forall>p \<in> set (''/etc/aegis/autologin'' # installer_paths).
      file_at (fs (snd (remove_installers_if_installed False w))) (resolve p) = None
    else fs (snd (remove_installers_if_installed False w)) = fs w"
proof -
  let ?m = "remove_installers_if_installed False"
  note r = valid_run[OF cleanup_triple[of "fs w" "\<lambda>_ _. False"], of w "fst (?m w)" "snd (?m w)"]
  show ?thesis using r assms by (auto simp: cleared_def split: sum.splits if_splits)
qed

text \<open>
  A system without \<open>/bin/configure\<close> leaves the first-boot window closed: if nothing fails and
  \<open>/etc/aegis\<close> exists, the marker \<open>/etc/aegis/configured\<close> exists after \<open>run_first_boot_setup\<close>.\<close>

theorem vigil_first_boot_window_closed:
  assumes "wf_fs (fs w)" "within no_faults w" "map_of (fs w) [''etc'', ''aegis''] = Some Dir"
    and "map_of (fs w) [''bin'', ''configure''] = None"
  shows "map_of (fs (snd (run_first_boot_setup configure w))) [''etc'', ''aegis'', ''configured''] \<noteq> None"
proof -
  let ?S = "\<lambda>s. s = fs w \<and> wf_fs (fs w)" and ?P = "\<lambda>_ s. map_of s [''etc'', ''aegis'', ''configured''] \<noteq> None"
  have res: "resolve ''/etc/aegis/configured'' = [''etc'', ''aegis'', ''configured'']"
    "resolve ''/bin/configure'' = [''bin'', ''configure'']" "''/etc/aegis/configured'' \<noteq> []" "last ''/etc/aegis/configured'' \<noteq> slash"
    by code_simp+
  have walk: "walk_err (fs w) [''etc'', ''aegis'', ''configured''] = None"
    using assms(1,3) wf_fs_ancestor[OF assms(1), of "[''etc'', ''aegis'']"] by (auto simp: walk_err_None strict_prefix_butlast prefix_Cons)
  have nf: "fs_find ''/bin/configure'' (fs w) \<noteq> Inr n" for n
    using fs_find_Inr[of "''/bin/configure''" "fs w" n, unfolded res(2)] assms(4) by auto
  have x: "valid no_faults ?S (succeeds (andthen (sys_lstat ''/bin/configure'') (\<lambda>n. require (is_exec n)))) (\<lambda>b s. ?S s \<and> \<not> b) (\<lambda>_ _. False)"
  proof (rule valid_succeeds, rule valid_andthen[where R = "\<lambda>_ _. False"])
    show "valid no_faults ?S (sys_lstat ''/bin/configure'') (\<lambda>_ _. False) (\<lambda>e s. ?S s \<and> \<not> False)"
      by (rule valid_syscall) (use nf in \<open>auto simp: fs_lstat_def split: sum.split\<close>)
  qed (simp add: valid_def)
  have o: "valid no_faults ?S (ignore (andthen (sys_open_trunc ''/etc/aegis/configured'' 420) (\<lambda>fd. ignore (sys_write fd (''1'' @ [newline])))))
      ?P (\<lambda>_ _. False)" if "map_of (fs w) [''etc'', ''aegis'', ''configured''] = None"
  proof (rule valid_ignore, rule valid_andthen)
    show "valid no_faults ?S (sys_open_trunc ''/etc/aegis/configured'' 420) ?P (\<lambda>_. ?P ())"
    proof (rule valid_syscall)
      have "fs_open_trunc ''/etc/aegis/configured'' 420 (fs w) = (Inr [''etc'', ''aegis'', ''configured''],
          AList.update [''etc'', ''aegis'', ''configured''] (Reg [] 420) (fs w))"
        unfolding fs_open_trunc_def res(1) Let_def walk that using res(3,4) by simp
      then show "case fs_open_trunc ''/etc/aegis/configured'' 420 s of (Inr x, s') \<Rightarrow> ?P x s' | (Inl e, s') \<Rightarrow> ?P () s'"
        if "?S s" for s using that by simp
    qed simp
    show "valid no_faults (?P fd) (ignore (sys_write fd (''1'' @ [newline]))) (\<lambda>_. ?P ()) (\<lambda>_. ?P ())" for fd
      by (rule valid_ignore, rule valid_write) (auto simp: fs_append_def split: option.split node.split)
  qed
  have v: "valid no_faults ?S (run_first_boot_setup configure) ?P (\<lambda>_ _. False)"
    unfolding run_first_boot_setup_def
  proof (rule valid_andthen[OF lstat_present[OF res(3,4), unfolded res(1)]])
    fix b
    show "valid no_faults (\<lambda>s. ?S s \<and> (b \<longleftrightarrow> map_of (fs w) [''etc'', ''aegis'', ''configured''] \<noteq> None))
       (if b then ret () else andthen (succeeds (andthen (sys_lstat ''/bin/configure'') (\<lambda>n. require (is_exec n)))) (\<lambda>x.
           if \<not> x then ignore (andthen (sys_open_trunc ''/etc/aegis/configured'' 420) (\<lambda>fd. ignore (sys_write fd (''1'' @ [newline]))))
           else andthen (ignore configure) (\<lambda>u. andthen (succeeds (sys_lstat ''/etc/aegis/configured'')) (\<lambda>y.
               if y then ignore (sys_unlink ''/bin/configure'') else ret ())))) ?P (\<lambda>_ _. False)"
    proof (cases b)
      case True
      then show ?thesis by (auto intro!: valid_ret)
    next
      case False
      show ?thesis
      proof (cases "map_of (fs w) [''etc'', ''aegis'', ''configured''] = None")
        case True
        show ?thesis
          unfolding if_not_P[OF False]
          by (rule valid_pre[OF valid_andthen[OF x]]) (use True o in \<open>auto simp: valid_def\<close>)
      qed (use False in \<open>simp add: valid_def\<close>)
    qed
  qed
  show ?thesis
    using valid_run[OF v, of w "fst (run_first_boot_setup configure w)" "snd (run_first_boot_setup configure w)"] assms(1,2)
    by (auto split: sum.splits)
qed

section \<open>Examples\<close>

definition ex_files :: fsys where
  "ex_files = [([], Dir), ([''var''], Dir), ([''var'', ''log''], Dir), ([''var'', ''log'', ''vigil.log''], Reg ''boot=a1 x'' 420),
     ([''run''], Dir), ([''bin''], Dir), ([''bin'', ''installer''], Reg ''i'' 493), ([''etc''], Dir), ([''etc'', ''aegis''], Dir),
     ([''etc'', ''aegis'', ''autologin''], Reg ''live'' 420)]"

definition ex_boot_world :: world where
  "ex_boot_world = \<lparr>fs = ex_files, sched = \<lambda>_. NoFault\<rparr>"

lemma ex_boot_facts: "wf_fs ex_files" "within no_faults ex_boot_world" "fs ex_boot_world = ex_files"
proof -
  show "wf_fs ex_files" by code_simp
qed (simp_all add: within_def ex_boot_world_def)

theorem vigil_log_bounded_witness: "log_small (fs (snd (service_error_log ''a1'' 5 ''getty'' ''failed'' 0 ex_boot_world)))"
proof -
  have "log_small (fs ex_boot_world)" unfolding ex_boot_facts(3) log_small_def vigil_resolves VIGIL_LOG_MAX_def by (simp add: ex_files_def file_at_def)
  from vigil_log_bounded[OF this] show ?thesis by blast
qed

theorem vigil_log_not_lost_witness:
  "log_kept ''boot=a1 x'' (fs (snd (diagnostics_init (\<lambda>_. None) ''b2'' ''text'' 9 \<lparr>fs = ex_files, sched = \<lambda>n. if n = 2 then NoFault else Fail\<rparr>)))"
  by (rule vigil_log_not_lost) (simp_all add: ex_boot_facts vigil_resolves, simp add: ex_files_def file_at_def)

theorem parse_previous_log_witness:
  "parse_previous (concat (map (record_line ''a1'') [(5, ''error'', ''getty'', ''exited with status 1''), (9, ''info'', ''vigil'', ''end=clean'')])) =
   \<lparr>pb_exists = True, pb_clean = True, pb_errors = 1, pb_boot_id = ''a1''\<rparr>"
proof -
  let ?rs = "[(5 :: nat, ''error'', ''getty'', ''exited with status 1''), (9, ''info'', ''vigil'', ''end=clean'')]"
  have "list_all (record_ok ''a1'') ?rs" "list_ex (\<lambda>r. contains (record_line ''a1'' r) ''end=clean'') ?rs"
    "length (filter (is_error_line \<circ> record_line ''a1'') ?rs) = 1"
    "\<forall>c \<in> set ''a1''. c \<noteq> space \<and> c \<noteq> cr \<and> c \<noteq> newline" "''a1'' \<noteq> []" "length ''a1'' \<le> 32" "?rs \<noteq> []" by code_simp+
  with parse_previous_log[of "''a1''" ?rs] show ?thesis by (simp only: simp_thms)
qed

theorem vigil_first_boot_cleanup_witness:
  "file_at (fs (snd (remove_installers_if_installed False ex_boot_world))) [''etc'', ''aegis'', ''autologin''] = None"
proof -
  have p: "resolve (installer_paths ! 2) = [''bin'', ''installer'']" "resolve ''/etc/aegis/autologin'' = [''etc'', ''aegis'', ''autologin'']"
    by code_simp+
  have "map_of ex_files [''bin'', ''installer''] \<noteq> None" by (simp add: ex_files_def)
  then have "\<forall>p \<in> set (''/etc/aegis/autologin'' # installer_paths).
      file_at (fs (snd (remove_installers_if_installed False ex_boot_world))) (resolve p) = None"
    using vigil_first_boot_cleanup[of ex_boot_world, unfolded ex_boot_facts(3) p(1), OF ex_boot_facts(1,2)]
    by (simp only: simp_thms if_True)
  from bspec[OF this list.set_intros(1)] show ?thesis unfolding p .
qed

theorem vigil_first_boot_window_closed_witness:
  "map_of (fs (snd (run_first_boot_setup (ret ()) ex_boot_world))) [''etc'', ''aegis'', ''configured''] \<noteq> None"
  by (rule vigil_first_boot_window_closed) (simp_all only: ex_boot_facts, simp_all add: ex_files_def)

end
