(* ===== verification/Spec2Isabelle.thy ===== *)
theory Spec2Isabelle
  imports
    C_Prelude
    Herald_Manifest
    Herald_Tar
    Herald_Txn_Crash
    Herald_Guards
    Install_Gpt
    Dhcp
    Vigil_Table
    Vigil_Boot
begin

text \<open>
  Verification of the LoricaOS userland.

  LoricaOS ships its userland as C programs under \<open>user/\<close>: the package manager
  \<open>herald\<close>, the installation library \<open>libinstall\<close>, the supervisor \<open>vigil\<close>, the shell
  \<open>stsh\<close>, the DHCP client and the desktop stack.

  \<^item> \<open>C_Prelude\<close>: bytes, C strings and bounded copies, the line and component splitting
    the parsers share.
  \<^item> \<open>Herald_Manifest\<close>: \<open>user/bin/herald/manifest.c\<close>, the package manifest parser.
  \<^item> \<open>Herald_Tar\<close>: \<open>user/bin/herald/tar.c\<close>, the archive reader.
  \<^item> \<open>Posix\<close>: the file system and its system calls, each of which may fail, and the triples
    the programs are reasoned about with.
  \<^item> \<open>Herald_Txn\<close>: \<open>user/bin/herald/transaction.c\<close>, every function; \<open>Herald_Txn_Steps\<close> and
    \<open>Herald_Txn_Atomic\<close> show that a commit is atomic under crashes, \<open>Herald_Txn_Crash\<close> evaluates
    concrete transactions.
  \<^item> \<open>Herald_Db\<close>: \<open>user/bin/herald/db.c\<close>, the database of installed packages.
  \<^item> \<open>Herald_Extract\<close>: the extraction mode of \<open>tar.c\<close>.
  \<^item> \<open>Herald_Version\<close> and \<open>Herald_Repo\<close>: \<open>repo.c\<close>, \<open>verify.c\<close> and \<open>net.c\<close>.
  \<^item> \<open>Herald_Main\<close> and \<open>Herald_Resolve\<close>: \<open>main.c\<close>, the commands and dependency resolution.
  \<^item> \<open>Herald_Stage\<close> and \<open>Herald_Guards\<close>: what an installation may write before its commit, and what its
    guards refuse.
\<close>

end
